(* ===== verification/Prelude.thy ===== *)
theory Prelude
  imports Main "HOL-Library.Word"
begin

text \<open>
  Shared vocabulary of the development: the machine integer types of the C code, byte
  strings, the result of an operation that may hit an \<open>ASSERT\<close>, the lemma collections the
  components feed, and generic facts about lists and words.
\<close>

unbundle bit_operations_syntax

section \<open>Machine types\<close>

type_synonym u8 = "8 word"
type_synonym u16 = "16 word"
type_synonym u32 = "32 word"
type_synonym u64 = "64 word"

text \<open>A \<open>(pointer, length)\<close> pair of the source is the list of the bytes it spans.\<close>

type_synonym bytes = "u8 list"

text \<open>The limits of \<open>int\<close> and \<open>uint16_t\<close> the code compares with (a C \<open>int\<close> has 32 bits on
  every platform the code is built for).\<close>

abbreviation INT_MAX :: int where
  "INT_MAX \<equiv> 2147483647"

abbreviation INT_MIN :: int where
  "INT_MIN \<equiv> - 2147483648"

abbreviation UINT16_MAX :: nat where
  "UINT16_MAX \<equiv> 65535"

section \<open>Lemma collections\<close>

named_theorems byte_simps \<open>reading and writing integers in byte strings\<close>
named_theorems wire_defs \<open>definitions of packet headers and their layouts\<close>
named_theorems flow_defs \<open>definitions of the operations of the flow components\<close>
named_theorems inv_defs \<open>definitions of the component invariants\<close>

section \<open>Lists\<close>

lemma take_drop_append:
  "n \<le> length xs \<Longrightarrow> take m (drop n (xs @ ys)) = take m (drop n xs @ ys)"
  by simp

lemma length_2_conv: "length xs = 2 \<longleftrightarrow> (\<exists>a b. xs = [a, b])"
  by (auto simp: numeral_2_eq_2 length_Suc_conv)

lemma length_4_conv: "length xs = 4 \<longleftrightarrow> (\<exists>a b c d. xs = [a, b, c, d])"
  by (auto simp: numeral_eq_Suc length_Suc_conv)

lemma list_split_at:
  assumes "n \<le> length xs"
  obtains ys zs where "xs = ys @ zs" and "length ys = n"
proof
  show "xs = take n xs @ drop n xs" by simp
  show "length (take n xs) = n" using assms by simp
qed

lemma take_append_drop_mid:
  "m \<le> n \<Longrightarrow> n \<le> length xs \<Longrightarrow> take m xs @ take (n - m) (drop m xs) = take n xs"
  by (metis le_add_diff_inverse take_add)

lemma remove1_append_notin: "x \<notin> set xs \<Longrightarrow> remove1 x (xs @ x # ys) = xs @ ys"
  by (simp add: remove1_append)

lemma distinct_remove1_snoc: "distinct xs \<Longrightarrow> distinct (remove1 x xs @ [x])"
  by (simp add: set_remove1_eq)

section \<open>Words\<close>

lemma unat_u16_lt: "unat (x :: u16) < 65536"
  using unsigned_less [of x] by simp

lemma unat_u8_lt: "unat (x :: u8) < 256"
  using unsigned_less [of x] by simp

lemma unat_u32_lt: "unat (x :: u32) < 4294967296"
  using unsigned_less [of x] by simp

lemma unat_ucast_u16_u32 [simp]: "unat (ucast (x :: u16) :: u32) = unat x"
  by (simp add: unsigned_ucast_eq take_bit_eq_mod less_trans [OF unat_u16_lt])

lemma unat_ucast_u8_u16 [simp]: "unat (ucast (x :: u8) :: u16) = unat x"
  by (simp add: unsigned_ucast_eq take_bit_eq_mod less_trans [OF unat_u8_lt])

lemma unat_ucast_u32_u16: "unat (ucast (x :: u32) :: u16) = unat x mod 65536"
  by (simp add: unsigned_ucast_eq take_bit_eq_mod)

lemma unat_of_nat_u16: "n < 65536 \<Longrightarrow> unat (of_nat n :: u16) = n"
  by (simp add: unat_of_nat)

lemma unat_of_nat_u32: "n < 4294967296 \<Longrightarrow> unat (of_nat n :: u32) = n"
  by (simp add: unat_of_nat)

lemma unat_not_u16: "unat (NOT (x :: u16)) = 65535 - unat x"
proof -
  have "NOT x = - 1 - x"
    by (simp add: not_eq_complement)
  moreover have "x \<le> - 1"
    by simp
  ultimately show ?thesis
    by (simp add: unat_sub unsigned_minus_1_eq_mask mask_eq_exp_minus_1)
qed

end
