(* ===== verification/ByteOrder.thy ===== *)
theory ByteOrder
  imports Prelude
begin

text \<open>
  Integers in memory: \<open>misc/read_write_int.h\<close> (explicit little- and big-endian loads and
  stores) and \<open>misc/byteorder.h\<close> (host, network and little-endian order).  A load reads the
  first bytes of a byte string, a store replaces them.  The build defines
  \<open>BADVPN_LITTLE_ENDIAN\<close>, so the bytes of a variable in memory are its little-endian store.
\<close>

section \<open>Loads and stores\<close>

definition badvpn_read_le8 :: "bytes \<Rightarrow> u8" where
  "badvpn_read_le8 ptr =
     push_bit 0 (ucast (ptr ! 0) :: u8)"

definition badvpn_read_le16 :: "bytes \<Rightarrow> u16" where
  "badvpn_read_le16 ptr =
     push_bit 8 (ucast (ptr ! 1) :: u16) OR
     push_bit 0 (ucast (ptr ! 0) :: u16)"

definition badvpn_read_le32 :: "bytes \<Rightarrow> u32" where
  "badvpn_read_le32 ptr =
     push_bit 24 (ucast (ptr ! 3) :: u32) OR
     push_bit 16 (ucast (ptr ! 2) :: u32) OR
     push_bit 8 (ucast (ptr ! 1) :: u32) OR
     push_bit 0 (ucast (ptr ! 0) :: u32)"

definition badvpn_read_le64 :: "bytes \<Rightarrow> u64" where
  "badvpn_read_le64 ptr =
     push_bit 56 (ucast (ptr ! 7) :: u64) OR
     push_bit 48 (ucast (ptr ! 6) :: u64) OR
     push_bit 40 (ucast (ptr ! 5) :: u64) OR
     push_bit 32 (ucast (ptr ! 4) :: u64) OR
     push_bit 24 (ucast (ptr ! 3) :: u64) OR
     push_bit 16 (ucast (ptr ! 2) :: u64) OR
     push_bit 8 (ucast (ptr ! 1) :: u64) OR
     push_bit 0 (ucast (ptr ! 0) :: u64)"

definition badvpn_read_be8 :: "bytes \<Rightarrow> u8" where
  "badvpn_read_be8 ptr =
     push_bit 0 (ucast (ptr ! 0) :: u8)"

definition badvpn_read_be16 :: "bytes \<Rightarrow> u16" where
  "badvpn_read_be16 ptr =
     push_bit 8 (ucast (ptr ! 0) :: u16) OR
     push_bit 0 (ucast (ptr ! 1) :: u16)"

definition badvpn_read_be32 :: "bytes \<Rightarrow> u32" where
  "badvpn_read_be32 ptr =
     push_bit 24 (ucast (ptr ! 0) :: u32) OR
     push_bit 16 (ucast (ptr ! 1) :: u32) OR
     push_bit 8 (ucast (ptr ! 2) :: u32) OR
     push_bit 0 (ucast (ptr ! 3) :: u32)"

definition badvpn_read_be64 :: "bytes \<Rightarrow> u64" where
  "badvpn_read_be64 ptr =
     push_bit 56 (ucast (ptr ! 0) :: u64) OR
     push_bit 48 (ucast (ptr ! 1) :: u64) OR
     push_bit 40 (ucast (ptr ! 2) :: u64) OR
     push_bit 32 (ucast (ptr ! 3) :: u64) OR
     push_bit 24 (ucast (ptr ! 4) :: u64) OR
     push_bit 16 (ucast (ptr ! 5) :: u64) OR
     push_bit 8 (ucast (ptr ! 6) :: u64) OR
     push_bit 0 (ucast (ptr ! 7) :: u64)"

definition badvpn_write_le8 :: "u8 \<Rightarrow> bytes \<Rightarrow> bytes" where
  "badvpn_write_le8 x ptr = ptr
    [0 := ucast (drop_bit 0 x)]"

definition badvpn_write_le16 :: "u16 \<Rightarrow> bytes \<Rightarrow> bytes" where
  "badvpn_write_le16 x ptr = ptr
    [1 := ucast (drop_bit 8 x),
     0 := ucast (drop_bit 0 x)]"

definition badvpn_write_le32 :: "u32 \<Rightarrow> bytes \<Rightarrow> bytes" where
  "badvpn_write_le32 x ptr = ptr
    [3 := ucast (drop_bit 24 x),
     2 := ucast (drop_bit 16 x),
     1 := ucast (drop_bit 8 x),
     0 := ucast (drop_bit 0 x)]"

definition badvpn_write_le64 :: "u64 \<Rightarrow> bytes \<Rightarrow> bytes" where
  "badvpn_write_le64 x ptr = ptr
    [7 := ucast (drop_bit 56 x),
     6 := ucast (drop_bit 48 x),
     5 := ucast (drop_bit 40 x),
     4 := ucast (drop_bit 32 x),
     3 := ucast (drop_bit 24 x),
     2 := ucast (drop_bit 16 x),
     1 := ucast (drop_bit 8 x),
     0 := ucast (drop_bit 0 x)]"

definition badvpn_write_be8 :: "u8 \<Rightarrow> bytes \<Rightarrow> bytes" where
  "badvpn_write_be8 x ptr = ptr
    [0 := ucast (drop_bit 0 x)]"

definition badvpn_write_be16 :: "u16 \<Rightarrow> bytes \<Rightarrow> bytes" where
  "badvpn_write_be16 x ptr = ptr
    [0 := ucast (drop_bit 8 x),
     1 := ucast (drop_bit 0 x)]"

definition badvpn_write_be32 :: "u32 \<Rightarrow> bytes \<Rightarrow> bytes" where
  "badvpn_write_be32 x ptr = ptr
    [0 := ucast (drop_bit 24 x),
     1 := ucast (drop_bit 16 x),
     2 := ucast (drop_bit 8 x),
     3 := ucast (drop_bit 0 x)]"

definition badvpn_write_be64 :: "u64 \<Rightarrow> bytes \<Rightarrow> bytes" where
  "badvpn_write_be64 x ptr = ptr
    [0 := ucast (drop_bit 56 x),
     1 := ucast (drop_bit 48 x),
     2 := ucast (drop_bit 40 x),
     3 := ucast (drop_bit 32 x),
     4 := ucast (drop_bit 24 x),
     5 := ucast (drop_bit 16 x),
     6 := ucast (drop_bit 8 x),
     7 := ucast (drop_bit 0 x)]"

section \<open>Variables in memory and byte order conversion\<close>

text \<open>The bytes of a \<open>uint16_t\<close>, \<open>uint32_t\<close> or \<open>uint64_t\<close> variable on the little-endian
  host, as a \<open>memcpy\<close> from its address copies them.\<close>

definition mem16 :: "u16 \<Rightarrow> bytes" where
  "mem16 x = badvpn_write_le16 x (replicate 2 0)"

definition mem32 :: "u32 \<Rightarrow> bytes" where
  "mem32 x = badvpn_write_le32 x (replicate 4 0)"

definition mem64 :: "u64 \<Rightarrow> bytes" where
  "mem64 x = badvpn_write_le64 x (replicate 8 0)"

definition badvpn_reverse16 :: "u16 \<Rightarrow> u16" where
  "badvpn_reverse16 x =
     (let px = mem16 x in badvpn_read_le16 [px ! 1, px ! 0])"

definition badvpn_reverse32 :: "u32 \<Rightarrow> u32" where
  "badvpn_reverse32 x =
     (let px = mem32 x in badvpn_read_le32 [px ! 3, px ! 2, px ! 1, px ! 0])"

definition badvpn_reverse64 :: "u64 \<Rightarrow> u64" where
  "badvpn_reverse64 x =
     (let px = mem64 x in badvpn_read_le64 [px ! 7, px ! 6, px ! 5, px ! 4, px ! 3, px ! 2, px ! 1, px ! 0])"

definition hton8 :: "u8 \<Rightarrow> u8" where
  "hton8 x = x"

definition hton16 :: "u16 \<Rightarrow> u16" where
  "hton16 x = badvpn_reverse16 x"

definition hton32 :: "u32 \<Rightarrow> u32" where
  "hton32 x = badvpn_reverse32 x"

definition hton64 :: "u64 \<Rightarrow> u64" where
  "hton64 x = badvpn_reverse64 x"

definition htol8 :: "u8 \<Rightarrow> u8" where
  "htol8 x = x"

definition htol16 :: "u16 \<Rightarrow> u16" where
  "htol16 x = x"

definition htol32 :: "u32 \<Rightarrow> u32" where
  "htol32 x = x"

definition htol64 :: "u64 \<Rightarrow> u64" where
  "htol64 x = x"

definition ntoh8 :: "u8 \<Rightarrow> u8" where
  "ntoh8 x = hton8 x"

definition ntoh16 :: "u16 \<Rightarrow> u16" where
  "ntoh16 x = hton16 x"

definition ntoh32 :: "u32 \<Rightarrow> u32" where
  "ntoh32 x = hton32 x"

definition ntoh64 :: "u64 \<Rightarrow> u64" where
  "ntoh64 x = hton64 x"

definition ltoh8 :: "u8 \<Rightarrow> u8" where
  "ltoh8 x = htol8 x"

definition ltoh16 :: "u16 \<Rightarrow> u16" where
  "ltoh16 x = htol16 x"

definition ltoh32 :: "u32 \<Rightarrow> u32" where
  "ltoh32 x = htol32 x"

definition ltoh64 :: "u64 \<Rightarrow> u64" where
  "ltoh64 x = htol64 x"

lemmas load_defs =
  badvpn_read_le8_def badvpn_read_le16_def badvpn_read_le32_def badvpn_read_le64_def
  badvpn_read_be8_def badvpn_read_be16_def badvpn_read_be32_def badvpn_read_be64_def

lemmas store_defs =
  badvpn_write_le8_def badvpn_write_le16_def badvpn_write_le32_def badvpn_write_le64_def
  badvpn_write_be8_def badvpn_write_be16_def badvpn_write_be32_def badvpn_write_be64_def

lemmas order_defs =
  hton8_def hton16_def hton32_def hton64_def htol8_def htol16_def htol32_def htol64_def
  ntoh8_def ntoh16_def ntoh32_def ntoh64_def ltoh8_def ltoh16_def ltoh32_def ltoh64_def

section \<open>Laws\<close>

subsection \<open>Shape of stores\<close>

lemma length_store [simp]:
  "length (badvpn_write_le8 a p) = length p" "length (badvpn_write_le16 b p) = length p"
  "length (badvpn_write_le32 c p) = length p" "length (badvpn_write_le64 d p) = length p"
  "length (badvpn_write_be8 a p) = length p" "length (badvpn_write_be16 b p) = length p"
  "length (badvpn_write_be32 c p) = length p" "length (badvpn_write_be64 d p) = length p"
  by (simp_all add: store_defs)

lemma mem16_eq: "mem16 x = [ucast x, ucast (drop_bit 8 x)]"
  by (simp add: mem16_def badvpn_write_le16_def numeral_2_eq_2)

lemma mem32_eq:
  "mem32 x = [ucast x, ucast (drop_bit 8 x), ucast (drop_bit 16 x), ucast (drop_bit 24 x)]"
  by (simp add: mem32_def badvpn_write_le32_def numeral_eq_Suc)

lemma mem64_eq:
  "mem64 x = [ucast x, ucast (drop_bit 8 x), ucast (drop_bit 16 x), ucast (drop_bit 24 x),
     ucast (drop_bit 32 x), ucast (drop_bit 40 x), ucast (drop_bit 48 x), ucast (drop_bit 56 x)]"
  by (simp add: mem64_def badvpn_write_le64_def numeral_eq_Suc)

lemma length_mem [simp]: "length (mem16 x) = 2" "length (mem32 y) = 4" "length (mem64 z) = 8"
  by (simp_all add: mem16_def mem32_def mem64_def)

subsection \<open>Joining bytes\<close>

lemma byte_join:
  "push_bit (k + 8) (drop_bit (k + 8) (x :: 'a::len word)) OR
   push_bit k (ucast (ucast (drop_bit k x) :: u8)) = push_bit k (drop_bit k x)"
proof (rule bit_word_eqI)
  fix n assume n: "n < LENGTH('a)"
  show "bit (push_bit (k + 8) (drop_bit (k + 8) x) OR push_bit k (ucast (ucast (drop_bit k x) :: u8))) n =
      bit (push_bit k (drop_bit k x)) n"
  proof (cases "k \<le> n")
    case True
    with n show ?thesis
      by (cases "k + 8 \<le> n") (auto simp: bit_simps)
  next
    case False
    then show ?thesis by (simp add: bit_simps)
  qed
qed

lemma top_byte:
  "ucast (ucast (drop_bit 8 (x :: u16)) :: u8) = drop_bit 8 x"
  "ucast (ucast (drop_bit 24 (y :: u32)) :: u8) = drop_bit 24 y"
  "ucast (ucast (drop_bit 56 (z :: u64)) :: u8) = drop_bit 56 z"
  by (rule bit_word_eqI; auto simp: bit_simps dest: bit_imp_le_length)+

lemmas byte_joins = byte_join [of 0, simplified] byte_join [of 8, simplified]
  byte_join [of 16, simplified] byte_join [of 24, simplified] byte_join [of 32, simplified]
  byte_join [of 40, simplified] byte_join [of 48, simplified]

lemma join_bytes:
  "push_bit 8 (ucast (ucast (drop_bit 8 x) :: u8)) OR ucast (ucast x :: u8) = (x :: u16)"
  "push_bit 24 (ucast (ucast (drop_bit 24 y) :: u8)) OR push_bit 16 (ucast (ucast (drop_bit 16 y) :: u8))
    OR push_bit 8 (ucast (ucast (drop_bit 8 y) :: u8)) OR ucast (ucast y :: u8) = (y :: u32)"
  "push_bit 56 (ucast (ucast (drop_bit 56 z) :: u8)) OR push_bit 48 (ucast (ucast (drop_bit 48 z) :: u8))
    OR push_bit 40 (ucast (ucast (drop_bit 40 z) :: u8)) OR push_bit 32 (ucast (ucast (drop_bit 32 z) :: u8))
    OR push_bit 24 (ucast (ucast (drop_bit 24 z) :: u8)) OR push_bit 16 (ucast (ucast (drop_bit 16 z) :: u8))
    OR push_bit 8 (ucast (ucast (drop_bit 8 z) :: u8)) OR ucast (ucast z :: u8) = (z :: u64)"
  by (simp_all add: top_byte byte_joins or.assoc [symmetric])

subsection \<open>Loads after stores\<close>

lemma load_store:
  "1 \<le> length p \<Longrightarrow> badvpn_read_le8 (badvpn_write_le8 a p) = a"
  "1 \<le> length p \<Longrightarrow> badvpn_read_be8 (badvpn_write_be8 a p) = a"
  "2 \<le> length p \<Longrightarrow> badvpn_read_le16 (badvpn_write_le16 b p) = b"
  "2 \<le> length p \<Longrightarrow> badvpn_read_be16 (badvpn_write_be16 b p) = b"
  "4 \<le> length p \<Longrightarrow> badvpn_read_le32 (badvpn_write_le32 c p) = c"
  "4 \<le> length p \<Longrightarrow> badvpn_read_be32 (badvpn_write_be32 c p) = c"
  "8 \<le> length p \<Longrightarrow> badvpn_read_le64 (badvpn_write_le64 d p) = d"
  "8 \<le> length p \<Longrightarrow> badvpn_read_be64 (badvpn_write_be64 d p) = d"
  by (cases "p = []"; simp add: load_defs store_defs join_bytes)+

lemma load_mem [byte_simps]:
  "badvpn_read_le16 (mem16 x @ q) = x" "badvpn_read_le32 (mem32 y @ q) = y"
  "badvpn_read_le64 (mem64 z @ q) = z"
  by (simp_all add: load_defs mem16_eq mem32_eq mem64_eq join_bytes)

lemma bit_u8_high: "8 \<le> n \<Longrightarrow> \<not> bit (b :: u8) n"
  by (auto dest: bit_imp_le_length)

lemma mem_load [byte_simps]:
  "mem16 (badvpn_read_le16 p) = [p ! 0, p ! 1]"
  "mem32 (badvpn_read_le32 p) = [p ! 0, p ! 1, p ! 2, p ! 3]"
  by (auto simp: load_defs mem16_eq mem32_eq bit_simps bit_u8_high
    intro!: bit_word_eqI)

lemma mem_load64 [byte_simps]:
  "mem64 (badvpn_read_le64 p) = [p ! 0, p ! 1, p ! 2, p ! 3, p ! 4, p ! 5, p ! 6, p ! 7]"
  by (auto simp: load_defs mem64_eq bit_simps bit_u8_high
    intro!: bit_word_eqI)

lemma ntoh_load [byte_simps]:
  "ntoh16 (badvpn_read_le16 p) = badvpn_read_be16 p"
  "ntoh32 (badvpn_read_le32 p) = badvpn_read_be32 p"
  "ntoh64 (badvpn_read_le64 p) = badvpn_read_be64 p"
  by (simp_all add: order_defs badvpn_reverse16_def badvpn_reverse32_def badvpn_reverse64_def
    mem_load mem_load64 Let_def) (simp_all add: load_defs)

lemma hton_load_be:
  "hton16 (badvpn_read_be16 p) = badvpn_read_le16 p"
  "hton32 (badvpn_read_be32 p) = badvpn_read_le32 p"
proof -
  have "badvpn_read_be16 p = badvpn_read_le16 [p ! 1, p ! 0]"
    and "badvpn_read_be32 p = badvpn_read_le32 [p ! 3, p ! 2, p ! 1, p ! 0]"
    by (simp_all add: load_defs)
  then show "hton16 (badvpn_read_be16 p) = badvpn_read_le16 p"
    and "hton32 (badvpn_read_be32 p) = badvpn_read_le32 p"
    using ntoh_load(1) [of "[p ! 1, p ! 0]"] ntoh_load(2) [of "[p ! 3, p ! 2, p ! 1, p ! 0]"]
    by (simp_all add: ntoh16_def ntoh32_def) (simp_all add: load_defs)
qed

lemma hton_invol [byte_simps]:
  "hton16 (hton16 x) = x" "hton32 (hton32 y) = y"
  using hton_load_be(1) [of "mem16 x"] hton_load_be(2) [of "mem32 y"]
    ntoh_load(1) [of "mem16 x"] ntoh_load(2) [of "mem32 y"]
    load_mem(1) [of x "[]"] load_mem(2) [of y "[]"]
  by (simp_all add: ntoh16_def ntoh32_def)

lemma load_be_hton [byte_simps]:
  "badvpn_read_be16 (mem16 (hton16 x) @ q) = x" "badvpn_read_be32 (mem32 (hton32 y) @ q) = y"
  by (simp_all add: ntoh_load [symmetric] load_mem ntoh16_def ntoh32_def hton_invol)

end
