(* ===== verification/NetProto.thy ===== *)
theory NetProto
  imports ByteOrder
begin

text \<open>
  The packet headers tun2socks parses and builds: \<open>misc/ipv4_proto.h\<close>, \<open>misc/ipv6_proto.h\<close>
  and \<open>misc/udp_proto.h\<close>.  A packed struct is a record whose multi-byte fields hold the value
  a little-endian host loads from memory, with one function for its bytes (\<open>memcpy\<close> out of
  the struct) and one for the struct at an address (\<open>memcpy\<close> into it).  The checksum
  routines keep their \<open>uint32_t\<close> accumulator.  The lemmas relate them to the
  one's complement sum of RFC 1071 over natural numbers.
\<close>

section \<open>Headers\<close>

record ipv4_header =
  version4_ihl4 :: u8
  ds :: u8
  total_length :: u16
  identification :: u16
  flags3_fragmentoffset13 :: u16
  ttl :: u8
  protocol :: u8
  ih_checksum :: u16
  source_address :: u32
  destination_address :: u32

record ipv6_header =
  version4_tc4 :: u8
  tc4_fl4 :: u8
  fl :: u16
  payload_length :: u16
  next_header :: u8
  hop_limit :: u8
  ip6_source_address :: bytes
  ip6_destination_address :: bytes

record udp_header =
  source_port :: u16
  dest_port :: u16
  uh_length :: u16
  uh_checksum :: u16

abbreviation IPV4_PROTOCOL_UDP :: u8 where
  "IPV4_PROTOCOL_UDP \<equiv> 17"

abbreviation IPV6_NEXT_UDP :: u8 where
  "IPV6_NEXT_UDP \<equiv> 17"

abbreviation sizeof_ipv4_header :: nat where
  "sizeof_ipv4_header \<equiv> 20"

abbreviation sizeof_ipv6_header :: nat where
  "sizeof_ipv6_header \<equiv> 40"

abbreviation sizeof_udp_header :: nat where
  "sizeof_udp_header \<equiv> 8"

definition ipv4_header_bytes :: "ipv4_header \<Rightarrow> bytes" where
  "ipv4_header_bytes h =
     [version4_ihl4 h, ds h] @ mem16 (total_length h) @
     mem16 (identification h) @ mem16 (flags3_fragmentoffset13 h) @
     [ttl h, protocol h] @ mem16 (ih_checksum h) @
     mem32 (source_address h) @ mem32 (destination_address h)"

definition ipv4_header_load :: "bytes \<Rightarrow> ipv4_header" where
  "ipv4_header_load p =
     \<lparr>version4_ihl4 = p ! 0, ds = p ! 1,
      total_length = badvpn_read_le16 (drop 2 p),
      identification = badvpn_read_le16 (drop 4 p),
      flags3_fragmentoffset13 = badvpn_read_le16 (drop 6 p),
      ttl = p ! 8, protocol = p ! 9,
      ih_checksum = badvpn_read_le16 (drop 10 p),
      source_address = badvpn_read_le32 (drop 12 p),
      destination_address = badvpn_read_le32 (drop 16 p)\<rparr>"

definition ipv6_header_bytes :: "ipv6_header \<Rightarrow> bytes" where
  "ipv6_header_bytes h =
     [version4_tc4 h, tc4_fl4 h] @ mem16 (fl h) @ mem16 (payload_length h) @
     [next_header h, hop_limit h] @ ip6_source_address h @ ip6_destination_address h"

definition ipv6_header_load :: "bytes \<Rightarrow> ipv6_header" where
  "ipv6_header_load p =
     \<lparr>version4_tc4 = p ! 0, tc4_fl4 = p ! 1,
      fl = badvpn_read_le16 (drop 2 p),
      payload_length = badvpn_read_le16 (drop 4 p),
      next_header = p ! 6, hop_limit = p ! 7,
      ip6_source_address = take 16 (drop 8 p),
      ip6_destination_address = take 16 (drop 24 p)\<rparr>"

definition udp_header_bytes :: "udp_header \<Rightarrow> bytes" where
  "udp_header_bytes h =
     mem16 (source_port h) @ mem16 (dest_port h) @ mem16 (uh_length h) @ mem16 (uh_checksum h)"

definition udp_header_load :: "bytes \<Rightarrow> udp_header" where
  "udp_header_load p =
     \<lparr>source_port = badvpn_read_le16 p, dest_port = badvpn_read_le16 (drop 2 p),
      uh_length = badvpn_read_le16 (drop 4 p), uh_checksum = badvpn_read_le16 (drop 6 p)\<rparr>"

definition IPV4_GET_VERSION :: "ipv4_header \<Rightarrow> u8" where
  "IPV4_GET_VERSION h = drop_bit 4 (version4_ihl4 h AND 0xF0)"

definition IPV4_GET_IHL :: "ipv4_header \<Rightarrow> u8" where
  "IPV4_GET_IHL h = drop_bit 0 (version4_ihl4 h AND 0x0F)"

definition IPV4_MAKE_VERSION_IHL :: "nat \<Rightarrow> u8" where
  "IPV4_MAKE_VERSION_IHL sz = of_nat (sz div 4) + push_bit 4 4"

section \<open>Checksums\<close>

text \<open>The loop \<open>t += badvpn_read_be16(data + 2 * i)\<close> for \<open>n\<close> values of \<open>i\<close>.\<close>

primrec sum_be16 :: "nat \<Rightarrow> bytes \<Rightarrow> u32 \<Rightarrow> u32" where
  "sum_be16 0 p t = t"
| "sum_be16 (Suc n) p t = sum_be16 n (drop 2 p) (t + ucast (badvpn_read_be16 p))"

text \<open>The loop \<open>while (t >> 16) t = (t & 0xFFFF) + (t >> 16)\<close>.\<close>

lemma unat_drop_16: "unat (drop_bit 16 (t :: u32)) = unat t div 65536"
  by (simp only: unat_drop_bit_eq drop_bit_eq_div [of 16 "unat t"]) simp

lemma fold_carry_decreases:
  assumes "drop_bit 16 (t :: u32) \<noteq> 0"
  shows "unat ((t AND 0xFFFF) + drop_bit 16 t) = unat t mod 65536 + unat t div 65536"
    and "unat t mod 65536 + unat t div 65536 < unat t"
proof -
  have lo: "unat (t AND 0xFFFF) = unat t mod 65536"
  proof -
    have "t AND 0xFFFF = take_bit 16 t"
      by (simp add: take_bit_eq_mask mask_eq_exp_minus_1)
    then have "unat (t AND 0xFFFF) = take_bit 16 (unat t)"
      by (simp only: unsigned_take_bit_eq)
    then show ?thesis
      by (simp add: take_bit_eq_mod)
  qed
  have hi: "unat (drop_bit 16 t) = unat t div 65536"
    by (rule unat_drop_16)
  have "unat t div 65536 < 65536"
    using unat_u32_lt [of t] by (simp add: less_mult_imp_div_less)
  then show "unat ((t AND 0xFFFF) + drop_bit 16 t) = unat t mod 65536 + unat t div 65536"
    by (simp add: unat_word_ariths lo hi)
  have "unat t div 65536 \<noteq> 0"
    using assms hi by (metis unat_eq_zero)
  then show "unat t mod 65536 + unat t div 65536 < unat t"
    using div_mult_mod_eq [of "unat t" 65536] by linarith
qed

function fold_carry :: "u32 \<Rightarrow> u32" where
  "fold_carry t =
     (if drop_bit 16 t \<noteq> 0 then fold_carry ((t AND 0xFFFF) + drop_bit 16 t) else t)"
  by pat_completeness auto
termination
  by (relation "measure unat") (auto simp: fold_carry_decreases)

declare fold_carry.simps [simp del]

definition ipv4_checksum :: "ipv4_header \<Rightarrow> bytes \<Rightarrow> u16" where
  "ipv4_checksum header extra =
     (let t = sum_be16 (sizeof_ipv4_header div 2) (ipv4_header_bytes header) 0;
          t = sum_be16 (length extra div 2) extra t;
          t = fold_carry t
      in hton16 (ucast (NOT t)))"

definition udp_checksum_summer :: "bytes \<Rightarrow> nat \<Rightarrow> u32" where
  "udp_checksum_summer data len = sum_be16 (len div 2) data 0"

definition udp_checksum :: "udp_header \<Rightarrow> bytes \<Rightarrow> u32 \<Rightarrow> u32 \<Rightarrow> u16" where
  "udp_checksum header payload source_addr dest_addr =
     (let payload_len = of_nat (length payload) :: u16;
          t = 0;
          t = t + udp_checksum_summer (mem32 source_addr) 4;
          t = t + udp_checksum_summer (mem32 dest_addr) 4;
          x = hton16 (ucast IPV4_PROTOCOL_UDP);
          t = t + udp_checksum_summer (mem16 x) 2;
          x = hton16 (of_nat sizeof_udp_header + payload_len);
          t = t + udp_checksum_summer (mem16 x) 2;
          t = t + udp_checksum_summer (udp_header_bytes header) sizeof_udp_header;
          t = (if payload_len mod 2 = 0
               then t + udp_checksum_summer payload (unat payload_len)
               else (let t = t + udp_checksum_summer payload (unat payload_len - 1);
                         x = hton16 (push_bit 8 (ucast (payload ! (unat payload_len - 1))))
                     in t + udp_checksum_summer (mem16 x) 2));
          t = fold_carry t;
          t = (if t = 0 then of_nat UINT16_MAX else t)
      in hton16 (ucast (NOT t)))"

definition udp_ip6_checksum :: "udp_header \<Rightarrow> bytes \<Rightarrow> bytes \<Rightarrow> bytes \<Rightarrow> u16" where
  "udp_ip6_checksum header payload source_addr dest_addr =
     (let payload_len = of_nat (length payload) :: u16;
          t = 0;
          t = t + udp_checksum_summer source_addr 16;
          t = t + udp_checksum_summer dest_addr 16;
          x = hton32 (of_nat (sizeof_udp_header + unat payload_len));
          t = t + udp_checksum_summer (mem32 x) 4;
          x = hton32 (ucast IPV6_NEXT_UDP);
          t = t + udp_checksum_summer (mem32 x) 4;
          t = t + udp_checksum_summer (udp_header_bytes header) sizeof_udp_header;
          t = (if payload_len mod 2 = 0
               then t + udp_checksum_summer payload (unat payload_len)
               else (let t = t + udp_checksum_summer payload (unat payload_len - 1);
                         y = hton16 (push_bit 8 (ucast (payload ! (unat payload_len - 1))))
                     in t + udp_checksum_summer (mem16 y) 2));
          t = fold_carry t;
          t = (if t = 0 then of_nat UINT16_MAX else t)
      in hton16 (ucast (NOT t)))"

section \<open>Parsing\<close>

text \<open>The checks return the parsed header and the payload the out-parameters describe.\<close>

definition ipv4_check :: "bytes \<Rightarrow> (ipv4_header \<times> bytes) option" where
  "ipv4_check data =
     (if length data < sizeof_ipv4_header then None
      else let out_header = ipv4_header_load data in
        if IPV4_GET_VERSION out_header \<noteq> 4 then None
        else let header_len = unat (IPV4_GET_IHL out_header) * 4 in
          if header_len < sizeof_ipv4_header then None
          else if header_len > length data then None
          else let total_len = unat (ntoh16 (total_length out_header)) in
            if total_len < header_len then None
            else if total_len > length data then None
            else let checksum_in_packet = ih_checksum out_header;
                     zeroed = out_header\<lparr>ih_checksum := hton16 0\<rparr>;
                     checksum_computed = ipv4_checksum zeroed
                       (take (header_len - sizeof_ipv4_header) (drop sizeof_ipv4_header data))
                 in if checksum_in_packet \<noteq> checksum_computed then None
                    else Some (out_header, take (total_len - header_len) (drop header_len data)))"

definition ipv6_check :: "bytes \<Rightarrow> (ipv6_header \<times> bytes) option" where
  "ipv6_check data =
     (if length data < sizeof_ipv6_header then None
      else let out_header = ipv6_header_load data in
        if drop_bit 4 (ntoh8 (version4_tc4 out_header)) \<noteq> 6 then None
        else let payload_len = unat (ntoh16 (payload_length out_header)) in
          if payload_len > length data - sizeof_ipv6_header then None
          else Some (out_header, take payload_len (drop sizeof_ipv6_header data)))"

definition udp_check :: "bytes \<Rightarrow> (udp_header \<times> bytes) option" where
  "udp_check data =
     (if length data < sizeof_udp_header then None
      else let out_header = udp_header_load data;
               data = drop sizeof_udp_header data;
               udp_length = unat (ntoh16 (uh_length out_header)) in
        if udp_length < sizeof_udp_header then None
        else if udp_length > sizeof_udp_header + length data then None
        else Some (out_header, take (udp_length - sizeof_udp_header) data))"

section \<open>The one's complement sum\<close>

text \<open>The reference: the sum of the big-endian 16-bit words of a byte string, an odd last
  byte padded with zero (RFC 1071), and the reduction of a sum modulo \<open>2 ^ 16 - 1\<close> with the
  representative \<open>65535\<close> for a positive multiple.\<close>

fun word_sum :: "bytes \<Rightarrow> nat" where
  "word_sum [] = 0"
| "word_sum [a] = 256 * unat a"
| "word_sum (a # b # p) = 256 * unat a + unat b + word_sum p"

definition ones_sum :: "nat \<Rightarrow> nat" where
  "ones_sum n = (if n = 0 then 0 else (n - 1) mod 65535 + 1)"

lemma unat_read_be16: "unat (badvpn_read_be16 (a # b # p)) = 256 * unat a + unat b"
proof -
  have "push_bit 8 (ucast a :: u16) OR ucast b = push_bit 8 (ucast a) + ucast b"
    by (rule disjunctive_add [symmetric])
      (auto simp: bit_simps dest: bit_imp_le_length)
  moreover have "unat (push_bit 8 (ucast a :: u16)) = 256 * unat a"
    using unat_u8_lt [of a]
    by (simp add: push_bit_eq_mult unat_word_ariths)
  ultimately show ?thesis
    using unat_u8_lt [of a] unat_u8_lt [of b]
    by (simp add: badvpn_read_be16_def unat_word_ariths)
qed

lemma word_sum_append: "even (length p) \<Longrightarrow> word_sum (p @ q) = word_sum p + word_sum q"
  by (induction p rule: word_sum.induct) auto

lemma word_sum_le: "word_sum p \<le> 65535 * ((length p + 1) div 2)"
proof (induction p rule: word_sum.induct)
  case (2 a)
  then show ?case using unat_u8_lt [of a] by simp
next
  case (3 a b p)
  then show ?case using unat_u8_lt [of a] unat_u8_lt [of b] by simp
qed simp

lemma unat_sum_be16:
  assumes "2 * n \<le> length p" and "unat t + word_sum (take (2 * n) p) < 2 ^ 32"
  shows "unat (sum_be16 n p t) = unat t + word_sum (take (2 * n) p)"
  using assms
proof (induction n arbitrary: p t)
  case (Suc n)
  from Suc.prems(1) obtain a b q where p: "p = a # b # q"
    by (metis Suc_le_length_iff mult_Suc_right numeral_2_eq_2 plus_nat.simps(2))
  let ?t = "t + ucast (badvpn_read_be16 p)"
  have t: "unat ?t = unat t + (256 * unat a + unat b)"
    using Suc.prems(2) by (simp add: p unat_word_ariths unat_read_be16)
  have "unat (sum_be16 n q ?t) = unat ?t + word_sum (take (2 * n) q)"
    using Suc.prems by (intro Suc.IH) (use t in \<open>simp_all add: p\<close>)
  then show ?case
    using t by (simp add: p)
qed simp

lemma ones_sum_less: "ones_sum n < 65536"
  by (simp add: ones_sum_def less_Suc_eq_le [symmetric])

lemma ones_sum_small: "n < 65536 \<Longrightarrow> ones_sum n = n"
  by (simp add: ones_sum_def)

lemma ones_sum_cong: "0 < m \<Longrightarrow> 0 < n \<Longrightarrow> m mod 65535 = n mod 65535 \<Longrightarrow> ones_sum m = ones_sum n"
proof -
  assume m: "0 < m" and n: "0 < n" and eq: "m mod 65535 = n mod 65535"
  then obtain m' n' where "m = Suc m'" "n = Suc n'"
    by (metis gr0_implies_Suc)
  with eq show ?thesis
    by (simp add: ones_sum_def mod_Suc split: if_splits)
qed

lemma ones_sum_fold: "ones_sum (n mod 65536 + n div 65536) = ones_sum n"
proof (cases "n = 0")
  case False
  have "n = n mod 65536 + n div 65536 + 65535 * (n div 65536)"
    using div_mult_mod_eq [of n 65536] by linarith
  then have "n mod 65535 = (n mod 65536 + n div 65536) mod 65535"
    by (metis mod_mult_self2)
  moreover have "0 < n mod 65536 + n div 65536"
    using False div_mult_mod_eq [of n 65536] by linarith
  ultimately show ?thesis
    using False by (intro ones_sum_cong) simp_all
qed simp

lemma unat_fold_carry: "unat (fold_carry t) = ones_sum (unat t)"
proof (induction t rule: fold_carry.induct)
  case (1 t)
  show ?case
  proof (cases "drop_bit 16 t = 0")
    case True
    then have "unat (drop_bit 16 t) = 0"
      by simp
    then have "unat t < 65536"
      by (simp only: unat_drop_16 div_eq_0_iff) simp
    with True show ?thesis
      by (simp add: fold_carry.simps [of t] ones_sum_small)
  next
    case False
    with 1 show ?thesis
      by (simp add: fold_carry.simps [of t] fold_carry_decreases ones_sum_fold)
  qed
qed

section \<open>Layout of the headers\<close>

lemma length_header_bytes [simp]:
  "length (ipv4_header_bytes h) = 20" "length (udp_header_bytes u) = 8"
  by (simp_all add: ipv4_header_bytes_def udp_header_bytes_def)

lemma length_ipv6_header_bytes [simp]:
  "length (ip6_source_address h) = 16 \<Longrightarrow> length (ip6_destination_address h) = 16 \<Longrightarrow>
   length (ipv6_header_bytes h) = 40"
  by (simp add: ipv6_header_bytes_def)

lemma udp_header_load_bytes [byte_simps]: "udp_header_load (udp_header_bytes h @ p) = h"
  by (simp add: udp_header_load_def udp_header_bytes_def byte_simps)

lemma ipv4_header_load_bytes [byte_simps]: "ipv4_header_load (ipv4_header_bytes h @ p) = h"
  by (simp add: ipv4_header_load_def ipv4_header_bytes_def byte_simps nth_append)

lemma ipv6_header_load_bytes [byte_simps]:
  "length (ip6_source_address h) = 16 \<Longrightarrow> length (ip6_destination_address h) = 16 \<Longrightarrow>
   ipv6_header_load (ipv6_header_bytes h @ p) = h"
  by (simp add: ipv6_header_load_def ipv6_header_bytes_def byte_simps nth_append)

section \<open>The checksum routines compute the one's complement checksum\<close>

lemma unat_summer:
  assumes "even len" "len \<le> length data" "len < 65536"
  shows "unat (udp_checksum_summer data len) = word_sum (take len data)"
proof -
  have "word_sum (take len data) < 2 ^ 32"
    using word_sum_le [of "take len data"] assms by simp
  then show ?thesis
    using assms unat_sum_be16 [of "len div 2" data 0] by (simp add: udp_checksum_summer_def)
qed

lemma summer_hton16: "unat (udp_checksum_summer (mem16 (hton16 x)) 2) = unat x"
  using load_be_hton(1) [of x "[]"] by (simp add: udp_checksum_summer_def)

lemma unat_add_u32: "unat a + unat b < 4294967296 \<Longrightarrow> unat (a + b :: u32) = unat a + unat b"
  by (simp add: unat_word_ariths)

text \<open>The payload, padded when its length is odd, adds its word sum.\<close>

definition payload_sum :: "bytes \<Rightarrow> u32" where
  "payload_sum payload =
     (if even (length payload) then udp_checksum_summer payload (length payload)
      else udp_checksum_summer payload (length payload - 1) +
        udp_checksum_summer (mem16 (hton16 (push_bit 8 (ucast (last payload))))) 2)"

lemma add_payload_sum:
  assumes len: "length payload < 65536"
  defines "n \<equiv> of_nat (length payload) :: u16"
  shows "(if n mod 2 = 0 then t + udp_checksum_summer payload (unat n)
      else (let t = t + udp_checksum_summer payload (unat n - 1);
                x = hton16 (push_bit 8 (ucast (payload ! (unat n - 1))))
            in t + udp_checksum_summer (mem16 x) 2)) = t + payload_sum payload"
proof -
  have n: "unat n = length payload"
    using len by (simp add: n_def unat_of_nat_u16)
  then have "unat (n mod 2) = length payload mod 2"
    by (simp add: unat_mod)
  then have "n mod 2 = 0 \<longleftrightarrow> even (length payload)"
    by (metis even_iff_mod_2_eq_zero unat_eq_zero)
  moreover have "odd (length payload) \<Longrightarrow> payload ! (length payload - 1) = last payload"
    by (cases payload rule: rev_cases) (simp_all add: nth_append)
  ultimately show ?thesis
    using n by (simp add: payload_sum_def Let_def add.assoc)
qed

lemma unat_payload_sum:
  assumes len: "length payload < 65536"
  shows "unat (payload_sum payload) = word_sum payload"
proof (cases "even (length payload)")
  case True
  then show ?thesis
    using len by (simp add: payload_sum_def unat_summer)
next
  case False
  then obtain q b where payload: "payload = q @ [b]" and even: "even (length q)"
    by (cases payload rule: rev_cases) auto
  have q: "unat (udp_checksum_summer payload (length q)) = word_sum q"
    using even len unat_summer [of "length q" payload] by (simp add: payload)
  have b: "unat (udp_checksum_summer (mem16 (hton16 (push_bit 8 (ucast b)))) 2) = 256 * unat b"
    using unat_u8_lt [of b] by (simp add: summer_hton16 push_bit_eq_mult unat_word_ariths)
  have "word_sum q + 256 * unat b < 4294967296"
    using word_sum_le [of q] len unat_u8_lt [of b] by (simp add: payload)
  with q b show ?thesis
    using even by (simp add: payload_sum_def unat_add_u32 payload word_sum_append)
qed

lemma unat_sum_list:
  "sum_list (map unat ws) < 4294967296 \<Longrightarrow> unat (sum_list ws :: u32) = sum_list (map unat ws)"
  by (induction ws) (simp_all add: unat_add_u32)

lemma unat_ntoh_not:
  "unat t < 65536 \<Longrightarrow> unat (ntoh16 (hton16 (ucast (NOT t)))) = 65535 - unat (t :: u32)"
proof -
  assume t: "unat t < 65536"
  have "ucast (NOT t) = (NOT (ucast t) :: u16)"
    by (rule bit_word_eqI) (simp add: bit_simps)
  then show ?thesis
    using t by (simp add: ntoh16_def hton_invol unat_not_u16 unat_ucast_u32_u16)
qed

definition pseudo_header :: "u32 \<Rightarrow> u32 \<Rightarrow> nat \<Rightarrow> bytes" where
  "pseudo_header src dst len = mem32 src @ mem32 dst @ mem16 (hton16 17) @ mem16 (hton16 (of_nat len))"

definition pseudo_header6 :: "bytes \<Rightarrow> bytes \<Rightarrow> nat \<Rightarrow> bytes" where
  "pseudo_header6 src dst len = src @ dst @ mem32 (hton32 (of_nat len)) @ mem32 (hton32 17)"

lemma word_sum_mem16: "word_sum (mem16 (hton16 x)) = unat x"
  using load_be_hton(1) [of x "[]"] by (simp add: mem16_eq unat_read_be16 [of _ _ "[]", symmetric])

lemma unat_ipv4_checksum:
  assumes "even (length extra)" "length extra < 65536"
  shows "unat (ntoh16 (ipv4_checksum h extra)) =
    65535 - ones_sum (word_sum (ipv4_header_bytes h @ extra))"
proof -
  let ?h = "ipv4_header_bytes h"
  have h: "word_sum ?h \<le> 655350"
    using word_sum_le [of ?h] by simp
  have e: "word_sum extra \<le> 65535 * 32768"
    using word_sum_le [of extra] assms by simp
  have "unat (sum_be16 10 ?h 0) = word_sum ?h"
    using h unat_sum_be16 [of 10 ?h 0] by simp
  then have "unat (sum_be16 (length extra div 2) extra (sum_be16 10 ?h 0)) = word_sum (?h @ extra)"
    using assms h e unat_sum_be16 [of "length extra div 2" extra "sum_be16 10 ?h 0"]
    by (simp add: word_sum_append)
  then show ?thesis
    by (simp add: ipv4_checksum_def Let_def unat_ntoh_not unat_fold_carry ones_sum_less)
qed

text \<open>A positive sum never folds to zero, so the replacement of a zero sum never happens.\<close>

lemma unat_finish_checksum:
  assumes "0 < unat t"
  shows "unat (ntoh16 (hton16 (ucast (NOT (if fold_carry t = 0 then of_nat UINT16_MAX else fold_carry t))))) =
    65535 - ones_sum (unat t)"
proof -
  have "unat (fold_carry t) = ones_sum (unat t)"
    by (rule unat_fold_carry)
  moreover from this have "fold_carry t \<noteq> 0"
    using assms by (auto simp: ones_sum_def)
  ultimately show ?thesis
    by (simp add: unat_ntoh_not ones_sum_less)
qed

lemma unat_udp_checksum:
  assumes len: "length payload \<le> 65527"
  shows "unat (ntoh16 (udp_checksum h payload src dst)) =
    65535 - ones_sum (word_sum (pseudo_header src dst (8 + length payload) @ udp_header_bytes h @ payload))"
proof -
  let ?ws = "[udp_checksum_summer (mem32 src) 4, udp_checksum_summer (mem32 dst) 4,
     udp_checksum_summer (mem16 (hton16 17)) 2,
     udp_checksum_summer (mem16 (hton16 (of_nat (8 + length payload)))) 2,
     udp_checksum_summer (udp_header_bytes h) 8, payload_sum payload]"
  let ?all = "pseudo_header src dst (8 + length payload) @ udp_header_bytes h @ payload"
  have "sum_list (map unat ?ws) = word_sum ?all"
    using len by (simp add: unat_summer unat_payload_sum pseudo_header_def word_sum_append)
  moreover have "word_sum ?all < 4294967296"
    using word_sum_le [of ?all] len by (simp add: pseudo_header_def)
  ultimately have all: "unat (sum_list ?ws) = word_sum ?all"
    using unat_sum_list [of ?ws] by simp
  have "0 < word_sum ?all"
    by (simp add: pseudo_header_def word_sum_append word_sum_mem16)
  then have "unat (ntoh16 (hton16 (ucast (NOT (if fold_carry (sum_list ?ws) = 0 then of_nat UINT16_MAX
      else fold_carry (sum_list ?ws)))))) = 65535 - ones_sum (word_sum ?all)"
    using unat_finish_checksum [of "sum_list ?ws"] all by simp
  moreover have "udp_checksum h payload src dst =
      hton16 (ucast (NOT (if fold_carry (sum_list ?ws) = 0 then of_nat UINT16_MAX
        else fold_carry (sum_list ?ws))))"
    using len by (simp add: udp_checksum_def add_payload_sum Let_def add.assoc)
  ultimately show ?thesis by simp
qed

lemma unat_udp_ip6_checksum:
  assumes len: "length payload \<le> 65527" and "length src = 16" "length dst = 16"
  shows "unat (ntoh16 (udp_ip6_checksum h payload src dst)) =
    65535 - ones_sum (word_sum (pseudo_header6 src dst (8 + length payload) @ udp_header_bytes h @ payload))"
proof -
  let ?ws = "[udp_checksum_summer src 16, udp_checksum_summer dst 16,
     udp_checksum_summer (mem32 (hton32 (of_nat (8 + length payload)))) 4,
     udp_checksum_summer (mem32 (hton32 17)) 4,
     udp_checksum_summer (udp_header_bytes h) 8, payload_sum payload]"
  let ?all = "pseudo_header6 src dst (8 + length payload) @ udp_header_bytes h @ payload"
  have "sum_list (map unat ?ws) = word_sum ?all"
    using assms by (simp add: unat_summer unat_payload_sum pseudo_header6_def word_sum_append)
  moreover have "word_sum ?all < 4294967296"
    using word_sum_le [of ?all] assms by (simp add: pseudo_header6_def)
  ultimately have all: "unat (sum_list ?ws) = word_sum ?all"
    using unat_sum_list [of ?ws] by simp
  have "word_sum (mem32 (hton32 17)) = 17"
    by (simp add: hton32_def badvpn_reverse32_def mem32_eq load_defs)
  then have "0 < word_sum ?all"
    using assms by (simp add: pseudo_header6_def word_sum_append)
  then have "unat (ntoh16 (hton16 (ucast (NOT (if fold_carry (sum_list ?ws) = 0 then of_nat UINT16_MAX
      else fold_carry (sum_list ?ws)))))) = 65535 - ones_sum (word_sum ?all)"
    using unat_finish_checksum [of "sum_list ?ws"] all by simp
  moreover have "ucast (of_nat (length payload) :: u16) = (of_nat (length payload) :: u32)"
    using len by (simp add: word_unat_eq_iff unat_of_nat_u16 unat_of_nat_u32)
  moreover from this have "udp_ip6_checksum h payload src dst =
      hton16 (ucast (NOT (if fold_carry (sum_list ?ws) = 0 then of_nat UINT16_MAX
        else fold_carry (sum_list ?ws))))"
    using len by (simp add: udp_ip6_checksum_def add_payload_sum Let_def add.assoc)
  ultimately show ?thesis by simp
qed

lemma word_sum_set_checksum:
  "word_sum (ipv4_header_bytes h) =
     word_sum (ipv4_header_bytes (h\<lparr>ih_checksum := 0\<rparr>)) + unat (ntoh16 (ih_checksum h))"
proof -
  have w: "word_sum (mem16 x) = unat (ntoh16 x)" for x
    using word_sum_mem16 [of "ntoh16 x"] by (simp add: ntoh16_def hton_invol)
  have "ntoh16 0 = 0"
    by (simp add: ntoh16_def hton16_def badvpn_reverse16_def mem16_eq load_defs)
  then show ?thesis
    by (simp add: ipv4_header_bytes_def word_sum_append w)
qed

lemma ones_sum_complement: "ones_sum (s + (65535 - ones_sum s)) = 65535"
proof (cases "s = 0")
  case True
  then show ?thesis by (simp add: ones_sum_def)
next
  case False
  have "s = 65535 * ((s - 1) div 65535) + ones_sum s"
    using False by (simp add: ones_sum_def)
  moreover have "ones_sum s \<le> 65535"
    using ones_sum_less [of s] by simp
  ultimately have "s + (65535 - ones_sum s) = 65535 * ((s - 1) div 65535 + 1)"
    by simp
  then show ?thesis
    using ones_sum_cong [of "65535 * ((s - 1) div 65535 + 1)" 65535] by (simp add: ones_sum_small)
qed

lemma load_header_bytes:
  assumes "20 \<le> length data"
  shows "ipv4_header_bytes (ipv4_header_load data) = take 20 data"
  using assms
  by (simp add: ipv4_header_bytes_def ipv4_header_load_def mem_load numeral_eq_Suc Suc_le_length_iff)
   (auto simp: numeral_eq_Suc)


lemma unat_IHL: "unat (IPV4_GET_IHL h) * 4 mod 2 = 0" "unat (IPV4_GET_IHL h) < 16"
proof -
  have "version4_ihl4 h AND 0x0F \<le> 0x0F"
    by (rule word_and_le1)
  then show "unat (IPV4_GET_IHL h) < 16"
    by (simp add: IPV4_GET_IHL_def word_le_nat_alt)
qed simp

lemma ipv4_check_SomeD:
  assumes "ipv4_check data = Some (h, payload)"
  shows "h = ipv4_header_load data" "IPV4_GET_VERSION h = 4"
    "20 \<le> unat (IPV4_GET_IHL h) * 4" "unat (IPV4_GET_IHL h) * 4 \<le> unat (ntoh16 (total_length h))"
    "unat (ntoh16 (total_length h)) \<le> length data"
    "payload = take (unat (ntoh16 (total_length h)) - unat (IPV4_GET_IHL h) * 4)
      (drop (unat (IPV4_GET_IHL h) * 4) data)"
    "ih_checksum h = ipv4_checksum (h\<lparr>ih_checksum := hton16 0\<rparr>)
      (take (unat (IPV4_GET_IHL h) * 4 - 20) (drop 20 data))"
  using assms by (auto simp: ipv4_check_def Let_def split: if_splits)

lemma hton16_0: "hton16 0 = 0"
  by (simp add: hton16_def badvpn_reverse16_def mem16_eq load_defs)

section \<open>The UDP checksums\<close>

text \<open>The value RFC 768 asks for: the complement of the one's complement sum, and all ones in place of
  zero, which stands for a missing checksum.\<close>

definition rfc768 :: "bytes \<Rightarrow> nat" where
  "rfc768 bs = (let c = 65535 - ones_sum (word_sum bs) in if c = 0 then 65535 else c)"

text \<open>C26. Both checksums are those of RFC 768 over the pseudo-header, the header and the padded payload, except
  where the complement is zero: there the code, which replaces a zero sum and not a zero complement,
  gives 0 instead of \<open>0xFFFF\<close>.\<close>

theorem udp_checksum_rfc768:
  fixes h :: udp_header and src dst :: u32
  assumes "length payload \<le> 65527" "length source_addr = 16" "length dest_addr = 16"
  defines "data4 \<equiv> pseudo_header src dst (8 + length payload) @ udp_header_bytes h @ payload"
    and "data6 \<equiv> pseudo_header6 source_addr dest_addr (8 + length payload) @ udp_header_bytes h @ payload"
  shows "unat (ntoh16 (udp_checksum h payload src dst)) = (if ones_sum (word_sum data4) = 65535 then 0 else rfc768 data4) \<and>
    unat (ntoh16 (udp_ip6_checksum h payload source_addr dest_addr)) = (if ones_sum (word_sum data6) = 65535 then 0 else rfc768 data6)"
  using ones_sum_less [of "word_sum data4"] ones_sum_less [of "word_sum data6"]
  by (simp add: unat_udp_checksum [OF assms(1)] unat_udp_ip6_checksum [OF assms(1-3)] rfc768_def Let_def data4_def data6_def)

theorem udp_checksum_rfc768_witness:
  "let h = \<lparr>source_port = hton16 1, dest_port = hton16 2, uh_length = hton16 10, uh_checksum = hton16 0\<rparr>;
       payload = [0xFF, 0xD7] in
   unat (ntoh16 (udp_checksum h payload 0 0)) = 0 \<and>
   rfc768 (pseudo_header 0 0 10 @ udp_header_bytes h @ payload) = 65535"
proof -
  let ?h = "\<lparr>source_port = hton16 1, dest_port = hton16 2, uh_length = hton16 10, uh_checksum = hton16 0\<rparr>"
  have "word_sum (pseudo_header 0 0 10 @ udp_header_bytes ?h @ [0xFF, 0xD7]) = 65535"
    by (simp add: pseudo_header_def udp_header_bytes_def word_sum_append word_sum_mem16) (simp add: mem32_eq)
  then show ?thesis
    using udp_checksum_rfc768 [where payload = "[0xFF, 0xD7]" and source_addr = "replicate 16 0" and dest_addr = "replicate 16 0"
      and h = ?h and src = 0 and dst = 0]
    by (simp add: rfc768_def ones_sum_def Let_def)
qed

section \<open>The header check is sound\<close>

text \<open>C31. A packet \<open>ipv4_check\<close> accepts has version 4, a header of at least 20 bytes that lies
  within the total length, which lies within the received data; the payload it returns is the
  part between the two lengths, and the header with its options verifies: its one's
  complement sum is \<open>0xFFFF\<close>.\<close>

theorem ipv4_check_sound:
  assumes "ipv4_check data = Some (h, payload)"
  shows "let header_len = unat (IPV4_GET_IHL h) * 4; total_len = unat (ntoh16 (total_length h)) in
    h = ipv4_header_load data \<and> IPV4_GET_VERSION h = 4 \<and>
    20 \<le> header_len \<and> header_len \<le> total_len \<and> total_len \<le> length data \<and>
    payload = take (total_len - header_len) (drop header_len data) \<and>
    ones_sum (word_sum (take header_len data)) = 65535"
proof -
  define header_len total_len
    where lens: "header_len = unat (IPV4_GET_IHL h) * 4" "total_len = unat (ntoh16 (total_length h))"
  note facts = ipv4_check_SomeD [OF assms, folded lens]
  note h = facts(1) and hl = facts(3,4) and tl = facts(5)
  let ?extra = "take (header_len - 20) (drop 20 data)"
  have even: "even (length ?extra)" and small: "length ?extra < 65536"
    using unat_IHL [of h] hl tl by (auto simp: lens)
  have "take header_len data = ipv4_header_bytes h @ ?extra"
    using hl tl by (simp add: h load_header_bytes take_append_drop_mid)
  then have "word_sum (take header_len data) =
      word_sum (ipv4_header_bytes (h\<lparr>ih_checksum := 0\<rparr>) @ ?extra) + unat (ntoh16 (ih_checksum h))"
    by (simp add: word_sum_append word_sum_set_checksum [of h])
  then have "ones_sum (word_sum (take header_len data)) = 65535"
    using unat_ipv4_checksum [OF even small] by (simp add: facts(7) hton16_0 ones_sum_complement)
  with facts show ?thesis unfolding Let_def lens by blast
qed

definition sample_ipv4 :: bytes where
  "sample_ipv4 = [0x45, 0, 0, 21, 0, 0, 0, 0, 64, 17, 0x66, 0xD6, 10, 0, 0, 1, 10, 0, 0, 2, 7]"

theorem ipv4_check_sound_witness:
  "ipv4_check sample_ipv4 = Some (ipv4_header_load sample_ipv4, [7]) \<and>
   ones_sum (word_sum (take 20 sample_ipv4)) = 65535"
proof -
  have chk: "ipv4_check sample_ipv4 = Some (ipv4_header_load sample_ipv4, [7])"
    by code_simp
  have "unat (IPV4_GET_IHL (ipv4_header_load sample_ipv4)) * 4 = 20"
    by code_simp
  then show ?thesis
    using chk ipv4_check_sound [OF chk] by (simp add: Let_def)
qed
end
