(* ===== verification/Addr.thy ===== *)
theory Addr
  imports ByteOrder
begin

text \<open>
  Network addresses, \<open>system/BAddr.h\<close>: the tagged unions \<open>BIPAddr\<close> and \<open>BAddr\<close>, their
  constructors, the comparisons the connection trees use as keys, printing and parsing.
  Addresses and ports are kept as the source keeps them, in network byte order.  The resolver
  \<open>getaddrinfo\<close> is a parameter of the parsers.
\<close>

section \<open>Address types\<close>

datatype BIPAddr = BIPAddr_None | BIPAddr_IPv4 u32 | BIPAddr_IPv6 bytes

datatype BAddr =
    BAddr_None
  | BAddr_IPv4 u32 u16
  | BAddr_IPv6 bytes u16
  | BAddr_Packet u16 int int int bytes

fun BIPAddr_type :: "BIPAddr \<Rightarrow> int" where
  "BIPAddr_type BIPAddr_None = 0"
| "BIPAddr_type (BIPAddr_IPv4 _) = 1"
| "BIPAddr_type (BIPAddr_IPv6 _) = 2"

fun BAddr_type :: "BAddr \<Rightarrow> int" where
  "BAddr_type BAddr_None = 0"
| "BAddr_type (BAddr_IPv4 _ _) = 1"
| "BAddr_type (BAddr_IPv6 _ _) = 2"
| "BAddr_type (BAddr_Packet _ _ _ _ _) = 5"

definition BIPAddr_InitInvalid :: BIPAddr where
  "BIPAddr_InitInvalid = BIPAddr_None"

definition BIPAddr_InitIPv4 :: "u32 \<Rightarrow> BIPAddr" where
  "BIPAddr_InitIPv4 ip = BIPAddr_IPv4 ip"

definition BIPAddr_InitIPv6 :: "bytes \<Rightarrow> BIPAddr" where
  "BIPAddr_InitIPv6 ip = BIPAddr_IPv6 (take 16 ip)"

definition BIPAddr_IsInvalid :: "BIPAddr \<Rightarrow> bool" where
  "BIPAddr_IsInvalid addr \<longleftrightarrow> BIPAddr_type addr = 0"

fun BIPAddr_Compare :: "BIPAddr \<Rightarrow> BIPAddr \<Rightarrow> bool" where
  "BIPAddr_Compare (BIPAddr_IPv4 a) (BIPAddr_IPv4 b) = (a = b)"
| "BIPAddr_Compare (BIPAddr_IPv6 a) (BIPAddr_IPv6 b) = (a = b)"
| "BIPAddr_Compare _ _ = False"

definition BAddr_MakeNone :: BAddr where
  "BAddr_MakeNone = BAddr_None"

definition BAddr_MakeIPv4 :: "u32 \<Rightarrow> u16 \<Rightarrow> BAddr" where
  "BAddr_MakeIPv4 ip port = BAddr_IPv4 ip port"

definition BAddr_MakeIPv6 :: "bytes \<Rightarrow> u16 \<Rightarrow> BAddr" where
  "BAddr_MakeIPv6 ip port = BAddr_IPv6 (take 16 ip) port"

fun BAddr_MakeFromIpaddrAndPort :: "BIPAddr \<Rightarrow> u16 \<Rightarrow> BAddr" where
  "BAddr_MakeFromIpaddrAndPort BIPAddr_None port = BAddr_MakeNone"
| "BAddr_MakeFromIpaddrAndPort (BIPAddr_IPv4 ip) port = BAddr_MakeIPv4 ip port"
| "BAddr_MakeFromIpaddrAndPort (BIPAddr_IPv6 ip) port = BAddr_MakeIPv6 ip port"

definition BAddr_InitIPv4 :: "u32 \<Rightarrow> u16 \<Rightarrow> BAddr" where
  "BAddr_InitIPv4 ip port = BAddr_MakeIPv4 ip port"

definition BAddr_InitIPv6 :: "bytes \<Rightarrow> u16 \<Rightarrow> BAddr" where
  "BAddr_InitIPv6 ip port = BAddr_MakeIPv6 ip port"

definition BAddr_IsInvalid :: "BAddr \<Rightarrow> bool" where
  "BAddr_IsInvalid addr \<longleftrightarrow> BAddr_type addr = 0"

text \<open>The port accessors have the precondition that the address is IPv4 or IPv6
  (\<open>ASSERT\<close>); with assertions compiled out they return 0, respectively do nothing.\<close>

fun BAddr_GetPort :: "BAddr \<Rightarrow> u16" where
  "BAddr_GetPort (BAddr_IPv4 _ port) = port"
| "BAddr_GetPort (BAddr_IPv6 _ port) = port"
| "BAddr_GetPort _ = 0"

fun BAddr_SetPort :: "BAddr \<Rightarrow> u16 \<Rightarrow> BAddr" where
  "BAddr_SetPort (BAddr_IPv4 ip _) port = BAddr_IPv4 ip port"
| "BAddr_SetPort (BAddr_IPv6 ip _) port = BAddr_IPv6 ip port"
| "BAddr_SetPort addr _ = addr"

fun BAddr_GetIPAddr :: "BAddr \<Rightarrow> BIPAddr" where
  "BAddr_GetIPAddr (BAddr_IPv4 ip _) = BIPAddr_InitIPv4 ip"
| "BAddr_GetIPAddr (BAddr_IPv6 ip _) = BIPAddr_InitIPv6 ip"
| "BAddr_GetIPAddr _ = BIPAddr_InitInvalid"

fun BAddr_Compare :: "BAddr \<Rightarrow> BAddr \<Rightarrow> bool" where
  "BAddr_Compare (BAddr_IPv4 a p) (BAddr_IPv4 b q) = (a = b \<and> p = q)"
| "BAddr_Compare (BAddr_IPv6 a p) (BAddr_IPv6 b q) = (a = b \<and> p = q)"
| "BAddr_Compare _ _ = False"

section \<open>Ordering\<close>

text \<open>\<open>B_COMPARE(a, b)\<close> is \<open>(a > b) - (a < b)\<close>.  \<open>memcmp\<close> returns a number whose sign is
  the order of the first bytes that differ.\<close>

definition B_COMPARE :: "'a::linorder \<Rightarrow> 'a \<Rightarrow> int" where
  "B_COMPARE a b = of_bool (a > b) - of_bool (a < b)"

fun memcmp :: "bytes \<Rightarrow> bytes \<Rightarrow> int" where
  "memcmp (a # p) (b # q) = (if a = b then memcmp p q else uint a - uint b)"
| "memcmp _ _ = 0"

definition BAddr_CompareOrder :: "BAddr \<Rightarrow> BAddr \<Rightarrow> int" where
  "BAddr_CompareOrder addr1 addr2 =
     (let cmp = B_COMPARE (BAddr_type addr1) (BAddr_type addr2) in
      if cmp \<noteq> 0 then cmp
      else case (addr1, addr2) of
        (BAddr_IPv4 ip1 port1, BAddr_IPv4 ip2 port2) \<Rightarrow>
          (let cmp = B_COMPARE (ntoh32 ip1) (ntoh32 ip2) in
           if cmp \<noteq> 0 then cmp else B_COMPARE (ntoh16 port1) (ntoh16 port2))
      | (BAddr_IPv6 ip1 port1, BAddr_IPv6 ip2 port2) \<Rightarrow>
          (let cmp = memcmp ip1 ip2 in
           if cmp \<noteq> 0 then B_COMPARE cmp 0 else B_COMPARE (ntoh16 port1) (ntoh16 port2))
      | _ \<Rightarrow> 0)"

text \<open>The addresses the connection tables hold: IPv4, or IPv6 with 16 address bytes.\<close>

fun BAddr_ip :: "BAddr \<Rightarrow> bool" where
  "BAddr_ip (BAddr_IPv4 _ _) = True"
| "BAddr_ip (BAddr_IPv6 ip _) = (length ip = 16)"
| "BAddr_ip _ = False"

section \<open>Printing\<close>

text \<open>\<open>sprintf\<close> with \<open>%u\<close>, \<open>%x\<close>, \<open>%d\<close> and \<open>%02x\<close>.\<close>

definition digit_char :: "nat \<Rightarrow> char" where
  "digit_char d = char_of (if d < 10 then 48 + d else 87 + d)"

fun print_base :: "nat \<Rightarrow> nat \<Rightarrow> string" where
  "print_base b n =
     (if b < 2 \<or> n < b then [digit_char n] else print_base b (n div b) @ [digit_char (n mod b)])"

declare print_base.simps [simp del]

abbreviation print_u :: "nat \<Rightarrow> string" where
  "print_u \<equiv> print_base 10"

abbreviation print_x :: "nat \<Rightarrow> string" where
  "print_x \<equiv> print_base 16"

definition print_d :: "int \<Rightarrow> string" where
  "print_d n = (if n < 0 then ''-'' @ print_u (nat (- n)) else print_u (nat n))"

definition print_02x :: "u8 \<Rightarrow> string" where
  "print_02x b = (if b < 16 then ''0'' else []) @ print_x (unat b)"

fun BIPAddr_Print :: "BIPAddr \<Rightarrow> string" where
  "BIPAddr_Print BIPAddr_None = ''(none)''"
| "BIPAddr_Print (BIPAddr_IPv4 ip) =
     (let p = mem32 ip in
      print_u (unat (p ! 0)) @ ''.'' @ print_u (unat (p ! 1)) @ ''.'' @
      print_u (unat (p ! 2)) @ ''.'' @ print_u (unat (p ! 3)))"
| "BIPAddr_Print (BIPAddr_IPv6 ip) =
     (let g = (\<lambda>i. print_x (unat (badvpn_read_be16 (drop i ip)))) in
      g 0 @ '':'' @ g 2 @ '':'' @ g 4 @ '':'' @ g 6 @ '':'' @
      g 8 @ '':'' @ g 10 @ '':'' @ g 12 @ '':'' @ g 14)"

fun BAddr_Print :: "BAddr \<Rightarrow> string" where
  "BAddr_Print (BAddr_IPv4 ip port) =
     BIPAddr_Print (BIPAddr_InitIPv4 ip) @ '':'' @ print_u (unat (ntoh16 port))"
| "BAddr_Print (BAddr_IPv6 ip port) =
     BIPAddr_Print (BIPAddr_InitIPv6 ip) @ '':'' @ print_u (unat (ntoh16 port))"
| "BAddr_Print (BAddr_Packet phys_proto interface_index header_type packet_type phys_addr) =
     ''proto='' @ print_u (unat phys_proto) @ '',ifindex='' @ print_d interface_index @ '',htype=eth,ptype='' @ print_d packet_type @
     '',addr='' @ print_02x (phys_addr ! 0) @ '':'' @ print_02x (phys_addr ! 1) @ '':'' @ print_02x (phys_addr ! 2) @ '':'' @
     print_02x (phys_addr ! 3) @ '':'' @ print_02x (phys_addr ! 4) @ '':'' @ print_02x (phys_addr ! 5)"
| "BAddr_Print BAddr_None = ''(none)''"

section \<open>Parsing\<close>

definition isspace :: "char \<Rightarrow> bool" where
  "isspace c \<longleftrightarrow> of_char c \<in> {9, 10, 11, 12, 13, 32 :: nat}"

definition isdigit :: "char \<Rightarrow> bool" where
  "isdigit c \<longleftrightarrow> 48 \<le> (of_char c :: nat) \<and> (of_char c :: nat) \<le> 57"

definition digits_value :: "string \<Rightarrow> nat" where
  "digits_value ds = foldl (\<lambda>v c. 10 * v + (of_char c - 48)) 0 ds"

text \<open>\<open>strtol(s, &err, 10)\<close>: the number and the text at \<open>err\<close>.  White space and a sign are
  accepted before the digits; without digits the result is 0 and \<open>err\<close> is the start.\<close>

definition strtol :: "string \<Rightarrow> int \<times> string" where
  "strtol s =
     (let s1 = dropWhile isspace s;
          (neg, s2) = (case s1 of [] \<Rightarrow> (False, s1)
             | c # r \<Rightarrow> if c = CHR ''-'' then (True, r) else if c = CHR ''+'' then (False, r)
                        else (False, s1));
          ds = takeWhile isdigit s2
      in if ds = [] then (0, s)
         else (if neg then - int (digits_value ds) else int (digits_value ds),
               dropWhile isdigit s2))"

text \<open>\<open>getaddrinfo\<close>: address family (1 for \<open>AF_INET\<close>, 2 for \<open>AF_INET6\<close>), whether only
  numeric hosts are allowed, host text; the address bytes of the first result.\<close>

type_synonym resolver = "int \<Rightarrow> bool \<Rightarrow> string \<Rightarrow> bytes option"

definition BIPAddr_Resolve :: "resolver \<Rightarrow> string \<Rightarrow> bool \<Rightarrow> BIPAddr option" where
  "BIPAddr_Resolve getaddrinfo str noresolve =
     (let v6 = (1 \<le> length str \<and> hd str = CHR ''['' \<and> last str = CHR '']'');
          addr_str = (if v6 then take (length str - 2) (drop 1 str) else str)
      in if length addr_str > 128 then None
         else case getaddrinfo (if v6 then 2 else 1) noresolve addr_str of
           None \<Rightarrow> None
         | Some ip \<Rightarrow> Some (if v6 then BIPAddr_InitIPv6 ip else BIPAddr_InitIPv4 (badvpn_read_le32 ip)))"

text \<open>The split of \<open>BAddr_Parse2\<close>: family, address text and port text.\<close>

definition BAddr_split :: "string \<Rightarrow> (int \<times> string \<times> string) option" where
  "BAddr_split str =
     (if hd str = CHR ''['' then
        (let i = 1 + length (takeWhile (\<lambda>c. c \<noteq> CHR '']'') (drop 1 str)) in
         if i \<ge> length str then None
         else if i + 1 \<ge> length str \<or> str ! (i + 1) \<noteq> CHR '':'' then None
         else Some (2, take (i - 1) (drop 1 str), drop (i + 2) str))
      else
        (let i = length (takeWhile (\<lambda>c. c \<noteq> CHR '':'') str) in
         if i \<ge> length str then None
         else Some (1, take i str, drop (i + 1) str)))"

text \<open>The name buffer is \<open>None\<close> for a null pointer, else its size; the result carries the
  text stored in it.\<close>

definition BAddr_Parse2 ::
  "resolver \<Rightarrow> string \<Rightarrow> nat option \<Rightarrow> bool \<Rightarrow> (BAddr \<times> string option) option" where
  "BAddr_Parse2 getaddrinfo str name noresolve =
     (if length str < 1 \<or> length str > 1000 then None
      else case BAddr_split str of
        None \<Rightarrow> None
      | Some (family, addr_str, port_str) \<Rightarrow>
          if length addr_str \<ge> 128 then None
          else if length port_str \<ge> 6 then None
          else let (conv_res, err) = strtol port_str in
            if port_str = [] \<or> err \<noteq> [] then None
            else if conv_res < 0 \<or> conv_res > int UINT16_MAX then None
            else let port = hton16 (of_int conv_res) in
              (case getaddrinfo family noresolve addr_str of
                 None \<Rightarrow> None
               | Some ip \<Rightarrow>
                   let addr = (if family = 2 then BAddr_IPv6 (take 16 ip) port
                               else BAddr_IPv4 (badvpn_read_le32 ip) port) in
                   (case name of
                      None \<Rightarrow> Some (addr, None)
                    | Some name_len \<Rightarrow>
                        if length addr_str \<ge> name_len then None else Some (addr, Some addr_str))))"

definition BAddr_Parse ::
  "resolver \<Rightarrow> string \<Rightarrow> nat option \<Rightarrow> (BAddr \<times> string option) option" where
  "BAddr_Parse getaddrinfo str name = BAddr_Parse2 getaddrinfo str name False"

section \<open>Comparators\<close>

text \<open>What a search tree needs of its comparator, on the keys it holds.\<close>

locale comparator =
  fixes cmp :: "'k \<Rightarrow> 'k \<Rightarrow> int" and valid :: "'k \<Rightarrow> bool"
  assumes cmp_range: "valid a \<Longrightarrow> valid b \<Longrightarrow> cmp a b \<in> {- 1, 0, 1}"
    and cmp_zero: "valid a \<Longrightarrow> valid b \<Longrightarrow> cmp a b = 0 \<longleftrightarrow> a = b"
    and cmp_swap: "valid a \<Longrightarrow> valid b \<Longrightarrow> cmp b a = - cmp a b"
    and cmp_trans: "valid a \<Longrightarrow> valid b \<Longrightarrow> valid c \<Longrightarrow> cmp a b < 0 \<Longrightarrow> cmp b c < 0 \<Longrightarrow> cmp a c < 0"
begin

lemma cmp_neg_pos: "valid a \<Longrightarrow> valid b \<Longrightarrow> cmp a b < 0 \<longleftrightarrow> cmp b a > 0"
  using cmp_swap [of a b] by auto

lemma cmp_total: "valid a \<Longrightarrow> valid b \<Longrightarrow> a \<noteq> b \<Longrightarrow> cmp a b < 0 \<or> cmp b a < 0"
  using cmp_zero cmp_neg_pos by (metis linorder_neqE_linordered_idom)

end

lemma B_COMPARE_simps:
  "B_COMPARE a b = 0 \<longleftrightarrow> a = b" "B_COMPARE a b < 0 \<longleftrightarrow> a < b"
  by (auto simp: B_COMPARE_def)

lemma memcmp_swap: "memcmp q p = - memcmp p q"
  by (induction p q rule: memcmp.induct) auto

lemma memcmp_zero: "length p = length q \<Longrightarrow> memcmp p q = 0 \<longleftrightarrow> p = q"
  by (induction p q rule: list_induct2) (auto simp: word_uint_eq_iff)

lemma memcmp_trans:
  "length p = length q \<Longrightarrow> length q = length r \<Longrightarrow> memcmp p q < 0 \<Longrightarrow> memcmp q r < 0 \<Longrightarrow> memcmp p r < 0"
proof (induction p q r rule: list_induct3)
  case (Cons a p b q c r)
  then show ?case
    by (auto split: if_splits simp: word_uint_eq_iff)
qed simp

interpretation u16_cmp: comparator "\<lambda>a b :: u16. B_COMPARE a b" "\<lambda>_. True"
  by unfold_locales (auto simp: B_COMPARE_def)

lemma ntoh_inject: "ntoh16 a = ntoh16 b \<longleftrightarrow> a = b" "ntoh32 c = ntoh32 d \<longleftrightarrow> c = d"
  by (metis hton_invol ntoh16_def ntoh32_def)+

lemma BAddr_CompareOrder_less [simp]:
  "BAddr_CompareOrder (BAddr_IPv4 i p) (BAddr_IPv4 j q) < 0 \<longleftrightarrow>
     ntoh32 i < ntoh32 j \<or> i = j \<and> ntoh16 p < ntoh16 q"
  "BAddr_CompareOrder (BAddr_IPv6 k p) (BAddr_IPv6 l q) < 0 \<longleftrightarrow>
     memcmp k l < 0 \<or> memcmp k l = 0 \<and> ntoh16 p < ntoh16 q"
  "BAddr_CompareOrder (BAddr_IPv4 i p) (BAddr_IPv6 l q) < 0"
  "\<not> BAddr_CompareOrder (BAddr_IPv6 k p) (BAddr_IPv4 j q) < 0"
  by (auto simp: BAddr_CompareOrder_def Let_def B_COMPARE_simps ntoh_inject)

interpretation BAddr_order: comparator BAddr_CompareOrder BAddr_ip
proof unfold_locales
  fix a b c
  assume ip: "BAddr_ip a" "BAddr_ip b"
  then show "BAddr_CompareOrder a b \<in> {- 1, 0, 1}"
    by (cases a; cases b) (auto simp: BAddr_CompareOrder_def Let_def B_COMPARE_def)
  from ip show "BAddr_CompareOrder a b = 0 \<longleftrightarrow> a = b"
    by (cases a; cases b)
      (auto simp: BAddr_CompareOrder_def Let_def B_COMPARE_simps memcmp_zero ntoh_inject)
  from ip show "BAddr_CompareOrder b a = - BAddr_CompareOrder a b"
  proof (cases "\<exists>i p j q. a = BAddr_IPv6 i p \<and> b = BAddr_IPv6 j q")
    case True
    then obtain i p j q where "a = BAddr_IPv6 i p" "b = BAddr_IPv6 j q" by blast
    then show ?thesis
      using memcmp_swap [of j i] by (auto simp: BAddr_CompareOrder_def Let_def B_COMPARE_def)
  next
    case False
    with ip show ?thesis
      by (cases a; cases b) (auto simp: BAddr_CompareOrder_def Let_def B_COMPARE_def)
  qed
  assume "BAddr_ip c" "BAddr_CompareOrder a b < 0" "BAddr_CompareOrder b c < 0"
  with ip show "BAddr_CompareOrder a c < 0"
    by (cases a; cases b; cases c) (auto simp: memcmp_zero intro: memcmp_trans)
qed

section \<open>Numbers in text\<close>

lemma of_char_digit [simp]: "d < 10 \<Longrightarrow> of_char (digit_char d) = 48 + d"
  by (simp add: digit_char_def)

lemma isdigit_digit [simp]: "d < 10 \<Longrightarrow> isdigit (digit_char d)"
  by (simp add: isdigit_def)

lemma digits_value_snoc: "digits_value (ds @ [c]) = 10 * digits_value ds + (of_char c - 48)"
  by (simp add: digits_value_def)

lemma print_u_digits: "print_u n \<noteq> [] \<and> list_all isdigit (print_u n) \<and> digits_value (print_u n) = n"
proof (induction "10 :: nat" n rule: print_base.induct)
  case (1 n)
  then show ?case
    by (cases "n < 10") (auto simp: print_base.simps [of 10 n] digits_value_snoc digits_value_def)
qed

lemma length_print_base: "2 \<le> b \<Longrightarrow> n < b ^ k \<Longrightarrow> 0 < k \<Longrightarrow> length (print_base b n) \<le> k"
proof (induction k arbitrary: n)
  case (Suc k)
  show ?case
  proof (cases "n < b")
    case True
    then show ?thesis by (simp add: print_base.simps)
  next
    case False
    with Suc.prems have "n div b < b ^ k" and "0 < k"
      by (auto simp: less_mult_imp_div_less mult.commute intro: gr0I)
    with Suc False show ?thesis
      by (simp add: print_base.simps [of b n])
  qed
qed simp

lemma strtol_print_u: "strtol (print_u n) = (int n, [])"
proof -
  have p: "print_u n \<noteq> []" "list_all isdigit (print_u n)" "digits_value (print_u n) = n"
    using print_u_digits [of n] by auto
  then obtain c r where c: "print_u n = c # r" "isdigit c"
    by (cases "print_u n") auto
  then have "\<not> isspace c" "c \<noteq> CHR ''-''" "c \<noteq> CHR ''+''"
    by (auto simp: isdigit_def isspace_def)
  moreover have "takeWhile isdigit (print_u n) = print_u n" "dropWhile isdigit (print_u n) = []"
    using p(2) by (auto simp: list_all_iff takeWhile_eq_all_conv)
  ultimately show ?thesis
    using p c by (simp add: strtol_def Let_def takeWhile_eq_all_conv [THEN iffD2])
qed


lemma print_base_chars:
  "2 \<le> b \<Longrightarrow> b \<le> 16 \<Longrightarrow> c \<in> set (print_base b n) \<Longrightarrow> c \<noteq> CHR '':'' \<and> c \<noteq> CHR ''[''"
proof (induction b n rule: print_base.induct)
  case (1 b n)
  have d: "digit_char d \<noteq> CHR '':'' \<and> digit_char d \<noteq> CHR ''[''" if "d < 16" for d
  proof -
    have "of_char (digit_char d) \<noteq> (58 :: nat)" "of_char (digit_char d) \<noteq> (91 :: nat)"
      using that by (simp_all add: digit_char_def)
    then show ?thesis by auto
  qed
  have "n mod b < 16"
    using 1(2,3) mod_less_divisor [of b n] by linarith
  then show ?case
    using 1 d [of n] d [of "n mod b"]
    by (cases "n < b") (auto simp: print_base.simps [of b n])
qed

lemma length_print_byte: "length (print_u (unat (x :: u8))) \<le> 3"
  using length_print_base [of 10 "unat x" 3] unat_u8_lt [of x] by simp

lemma length_print_port: "length (print_u (unat (x :: u16))) \<le> 5"
  using length_print_base [of 10 "unat x" 5] unat_u16_lt [of x] by simp

lemma takeWhile_until: "\<forall>x \<in> set xs. x \<noteq> c \<Longrightarrow> takeWhile (\<lambda>x. x \<noteq> c) (xs @ c # ys) = xs"
  by (induction xs) auto

lemma BAddr_split_no_bracket:
  assumes "a \<noteq> []" "\<forall>x \<in> set a. x \<noteq> CHR '':'' \<and> x \<noteq> CHR ''[''"
  shows "BAddr_split (a @ CHR '':'' # p) = Some (1, a, p)"
proof -
  have "hd (a @ CHR '':'' # p) \<noteq> CHR ''[''"
    using assms by (cases a) auto
  moreover have "takeWhile (\<lambda>x. x \<noteq> CHR '':'') (a @ CHR '':'' # p) = a"
    using assms by (simp add: takeWhile_until)
  ultimately show ?thesis
    by (simp add: BAddr_split_def Let_def)
qed

section \<open>Printing and parsing agree on IPv4, and not on IPv6\<close>

text \<open>C36. When the resolver maps a dotted quad to its four bytes, parsing the text
  \<open>BAddr_Print\<close> gives for an IPv4 socket address returns that address.\<close>

theorem BAddr_print_parse_ipv4:
  assumes "getaddrinfo 1 noresolve (BIPAddr_Print (BIPAddr_IPv4 ip)) = Some (mem32 ip)"
  shows "BAddr_Parse2 getaddrinfo (BAddr_Print (BAddr_IPv4 ip port)) None noresolve =
    Some (BAddr_IPv4 ip port, None)"
proof -
  let ?a = "BIPAddr_Print (BIPAddr_IPv4 ip)" and ?n = "unat (ntoh16 port)"
  have len: "length ?a \<le> 15" and ne: "?a \<noteq> []"
    using length_print_byte [of "mem32 ip ! 0"] length_print_byte [of "mem32 ip ! 1"]
      length_print_byte [of "mem32 ip ! 2"] length_print_byte [of "mem32 ip ! 3"]
    by (auto simp: Let_def)
  have "\<forall>x \<in> set ?a. x \<noteq> CHR '':'' \<and> x \<noteq> CHR ''[''"
    by (auto simp: Let_def dest: print_base_chars [rotated 2])
  with ne have split: "BAddr_split (?a @ CHR '':'' # print_u ?n) = Some (1, ?a, print_u ?n)"
    by (rule BAddr_split_no_bracket)
  have port: "length (print_u ?n) \<le> 5" "print_u ?n \<noteq> []" "?n \<le> 65535"
    using length_print_port [of "ntoh16 port"] print_u_digits [of ?n] unat_u16_lt [of "ntoh16 port"]
    by auto
  have "uint (ntoh16 port) < 2 ^ 16"
    using unsigned_less [of "ntoh16 port", where ?'a = int] by simp
  moreover have "hton16 (of_int (int ?n)) = port"
    by (simp add: ntoh16_def hton_invol)
  moreover have "badvpn_read_le32 (mem32 ip) = ip"
    using load_mem(2) [of ip "[]"] by simp
  ultimately show ?thesis
    using split len port assms
    by (simp add: BAddr_Parse2_def BIPAddr_InitIPv4_def strtol_print_u del: BIPAddr_Print.simps)
qed

theorem BAddr_print_parse_ipv4_witness:
  "BAddr_Parse2 (\<lambda>_ _ host. if host = ''127.0.0.1'' then Some [127, 0, 0, 1] else None)
     (BAddr_Print (BAddr_IPv4 0x0100007F (hton16 80))) None True =
   Some (BAddr_IPv4 0x0100007F (hton16 80), None)"
proof (rule BAddr_print_parse_ipv4)
  show "(if BIPAddr_Print (BIPAddr_IPv4 0x0100007F) = ''127.0.0.1'' then Some [127, 0, 0, 1] else None) =
      Some (mem32 0x0100007F)"
    by code_simp
qed

text \<open>C37. The text \<open>BAddr_Print\<close> gives for an IPv6 socket address has no brackets around the
  address, and \<open>BAddr_Parse2\<close> rejects it whatever the resolver does.\<close>

theorem BAddr_print_ipv6_not_parsed:
  "BAddr_Parse2 getaddrinfo (BAddr_Print (BAddr_IPv6 ip port)) name noresolve = None"
proof -
  define g where "g i = print_x (unat (badvpn_read_be16 (drop i (take 16 ip))))" for i
  define rest where "rest = g 2 @ '':'' @ g 4 @ '':'' @ g 6 @ '':'' @
      g 8 @ '':'' @ g 10 @ '':'' @ g 12 @ '':'' @ g 14 @ '':'' @ print_u (unat (ntoh16 port))"
  have eq: "BAddr_Print (BAddr_IPv6 ip port) = g 0 @ CHR '':'' # rest"
    by (simp add: BIPAddr_InitIPv6_def Let_def g_def rest_def)
  have ne: "g i \<noteq> []" for i
    by (simp add: g_def print_base.simps)
  then have "0 < length (g i)" for i
    by simp
  then have len: "6 \<le> length rest"
    by (simp add: rest_def)
  have "BAddr_split (g 0 @ CHR '':'' # rest) = Some (1, g 0, rest)"
    using ne by (rule BAddr_split_no_bracket) (auto simp: g_def dest: print_base_chars [rotated 2])
  with len show ?thesis
    unfolding eq by (auto simp: BAddr_Parse2_def)
qed

end
