(* ===== verification/Bsize.thy ===== *)
theory Bsize
  imports Prelude
begin

text \<open>
  Overflow-checked sizes and rounding: \<open>misc/bsize.h\<close>, \<open>misc/balign.h\<close>, \<open>misc/minmax.h\<close>,
  \<open>misc/modadd.h\<close> and the datagram size computation of \<open>protocol/udpgw_proto.h\<close>.
  \<open>size_t\<close> is a word of any width, so that the laws hold on the 32-bit and the 64-bit builds.
\<close>

record (overloaded) 'w bsize_t =
  is_overflow :: bool
  bvalue :: "'w word"

definition SIZE_MAX :: "'w::len word" where
  "SIZE_MAX = - 1"

definition bsize_fromsize :: "'w::len word \<Rightarrow> 'w bsize_t" where
  "bsize_fromsize v = \<lparr>is_overflow = False, bvalue = v\<rparr>"

text \<open>In \<open>v > SIZE_MAX\<close> the \<open>int\<close> is converted to \<open>size_t\<close> first.\<close>

definition bsize_fromint :: "int \<Rightarrow> 'w::len bsize_t" where
  "bsize_fromint v = \<lparr>is_overflow = (v < 0 \<or> of_int v > (SIZE_MAX :: 'w word)), bvalue = of_int v\<rparr>"

definition bsize_overflow :: "'w::len bsize_t" where
  "bsize_overflow = \<lparr>is_overflow = True, bvalue = 0\<rparr>"

definition bsize_tosize :: "'w::len bsize_t \<Rightarrow> 'w word option" where
  "bsize_tosize s = (if is_overflow s then None else Some (bvalue s))"

text \<open>\<open>s.value > INT_MAX\<close> compares as \<open>size_t\<close>, whose width is at least that of \<open>int\<close>.\<close>

definition bsize_toint :: "'w::len bsize_t \<Rightarrow> int option" where
  "bsize_toint s = (if is_overflow s \<or> uint (bvalue s) > INT_MAX then None else Some (uint (bvalue s)))"

definition bsize_add :: "'w::len bsize_t \<Rightarrow> 'w bsize_t \<Rightarrow> 'w bsize_t" where
  "bsize_add s1 s2 =
     \<lparr>is_overflow = (is_overflow s1 \<or> is_overflow s2 \<or> bvalue s2 > SIZE_MAX - bvalue s1),
      bvalue = bvalue s1 + bvalue s2\<rparr>"

definition bsize_max :: "'w::len bsize_t \<Rightarrow> 'w bsize_t \<Rightarrow> 'w bsize_t" where
  "bsize_max s1 s2 =
     \<lparr>is_overflow = (is_overflow s1 \<or> is_overflow s2),
      bvalue = of_bool (bvalue s1 > bvalue s2) * bvalue s1 + of_bool (bvalue s1 \<le> bvalue s2) * bvalue s2\<rparr>"

definition bsize_mul :: "'w::len bsize_t \<Rightarrow> 'w bsize_t \<Rightarrow> 'w bsize_t" where
  "bsize_mul s1 s2 =
     \<lparr>is_overflow = (is_overflow s1 \<or> is_overflow s2 \<or>
        (bvalue s1 \<noteq> 0 \<and> bvalue s2 > SIZE_MAX div bvalue s1)),
      bvalue = bvalue s1 * bvalue s2\<rparr>"

definition balign_up_overflows :: "'w::len word \<Rightarrow> 'w word \<Rightarrow> bool" where
  "balign_up_overflows x n = (let r = x mod n in r \<noteq> 0 \<and> x > SIZE_MAX - (n - r))"

definition balign_up :: "'w::len word \<Rightarrow> 'w word \<Rightarrow> 'w word" where
  "balign_up x n = (let r = x mod n in if r \<noteq> 0 then x + (n - r) else x)"

definition balign_down :: "'w::len word \<Rightarrow> 'w word \<Rightarrow> 'w word" where
  "balign_down x n = x - x mod n"

text \<open>The quotient rounded up never exceeds a positive dividend, so it is modelled on natural
  numbers: no \<open>size_t\<close> can wrap in it.\<close>

definition bdivide_up :: "nat \<Rightarrow> nat \<Rightarrow> nat" where
  "bdivide_up a b = (let r = a mod b in if r > 0 then a div b + 1 else a div b)"

definition bmin_int :: "int \<Rightarrow> int \<Rightarrow> int" where
  "bmin_int a b = (if a < b then a else b)"

definition bmax_int :: "int \<Rightarrow> int \<Rightarrow> int" where
  "bmax_int a b = (if a > b then a else b)"

definition bmodadd_int :: "int \<Rightarrow> int \<Rightarrow> int \<Rightarrow> int" where
  "bmodadd_int x y m = (if y \<ge> m - x then y - (m - x) else x + y)"

definition udpgw_compute_mtu :: "'w::len itself \<Rightarrow> int \<Rightarrow> int" where
  "udpgw_compute_mtu w dgram_mtu =
     (let bs = bsize_add (bsize_fromsize 3)
        (bsize_add (bsize_max (bsize_fromsize 6) (bsize_fromsize 18))
           (bsize_fromint dgram_mtu :: 'w bsize_t))
      in case bsize_toint bs of None \<Rightarrow> - 1 | Some s \<Rightarrow> s)"

section \<open>Laws\<close>

text \<open>The abstract value of a checked size: the number, or nothing after an overflow.\<close>

definition bsize_abs :: "'w::len bsize_t \<Rightarrow> nat option" where
  "bsize_abs s = (if is_overflow s then None else Some (unat (bvalue s)))"

text \<open>The exact operations cut off at the width of \<open>size_t\<close>.\<close>

definition checked :: "nat \<Rightarrow> (nat \<Rightarrow> nat \<Rightarrow> nat) \<Rightarrow> nat option \<Rightarrow> nat option \<Rightarrow> nat option" where
  "checked w f x y = (case (x, y) of
     (Some a, Some b) \<Rightarrow> if f a b < 2 ^ w then Some (f a b) else None
   | _ \<Rightarrow> None)"

lemma unat_SIZE_MAX: "unat (SIZE_MAX :: 'w::len word) = 2 ^ LENGTH('w) - 1"
  by (simp add: SIZE_MAX_def unsigned_minus_1_eq_mask mask_eq_exp_minus_1)

lemma le_SIZE_MAX [simp]: "x \<le> (SIZE_MAX :: 'w::len word)"
  by (simp add: SIZE_MAX_def)

lemma add_overflow_iff:
  "b > SIZE_MAX - a \<longleftrightarrow> \<not> unat a + unat b < 2 ^ LENGTH('w)" for a b :: "'w::len word"
proof -
  define N :: nat where "N = 2 ^ LENGTH('w)"
  have "unat (SIZE_MAX - a) = N - 1 - unat a"
    by (simp add: unat_sub unat_SIZE_MAX N_def)
  moreover have "unat a < N"
    unfolding N_def by (rule unsigned_less)
  ultimately have "b > SIZE_MAX - a \<longleftrightarrow> \<not> unat a + unat b < N"
    unfolding word_less_nat_alt by linarith
  then show ?thesis by (simp only: N_def)
qed

lemma mul_overflow_iff:
  fixes a b :: "'w::len word"
  assumes "a \<noteq> 0"
  shows "b > SIZE_MAX div a \<longleftrightarrow> \<not> unat a * unat b < 2 ^ LENGTH('w)"
proof -
  define N :: nat where "N = 2 ^ LENGTH('w)"
  have a: "0 < unat a" and N: "0 < N"
    using assms by (simp_all add: unat_gt_0 N_def)
  have "unat (SIZE_MAX div a) = (N - 1) div unat a"
    by (simp add: unat_div unat_SIZE_MAX N_def)
  then have "b > SIZE_MAX div a \<longleftrightarrow> (N - 1) div unat a < unat b"
    by (simp only: word_less_nat_alt)
  also have "\<dots> \<longleftrightarrow> N - 1 < unat b * unat a"
    using a by (simp only: div_less_iff_less_mult)
  also have "\<dots> \<longleftrightarrow> \<not> unat a * unat b < N"
    using N by (simp only: mult.commute [of "unat b"]) linarith
  finally show ?thesis by (simp only: N_def)
qed

lemma bsize_add_abs:
  "bsize_abs (bsize_add s1 s2) = checked LENGTH('w) (+) (bsize_abs s1) (bsize_abs (s2 :: 'w::len bsize_t))"
  by (simp add: bsize_abs_def bsize_add_def checked_def add_overflow_iff unat_word_ariths)

lemma bsize_mul_abs:
  "bsize_abs (bsize_mul s1 s2) = checked LENGTH('w) (*) (bsize_abs s1) (bsize_abs (s2 :: 'w::len bsize_t))"
proof (cases "bvalue s1 = 0")
  case True
  then show ?thesis
    by (simp add: bsize_abs_def bsize_mul_def checked_def)
next
  case False
  then show ?thesis
    by (simp add: bsize_abs_def bsize_mul_def checked_def mul_overflow_iff unat_word_ariths)
qed

lemma bsize_max_abs:
  "bsize_abs (bsize_max s1 s2) = checked LENGTH('w) max (bsize_abs s1) (bsize_abs (s2 :: 'w::len bsize_t))"
proof (cases "bvalue s1 \<le> bvalue s2")
  case True
  then show ?thesis
    by (simp add: bsize_abs_def bsize_max_def checked_def max_def word_le_nat_alt word_less_nat_alt)
next
  case False
  then show ?thesis
    by (simp add: bsize_abs_def bsize_max_def checked_def max_def word_le_nat_alt not_le word_less_nat_alt)
qed

lemma bsize_fromsize_abs: "bsize_abs (bsize_fromsize v) = Some (unat v)"
  by (simp add: bsize_abs_def bsize_fromsize_def)

lemma bsize_fromint_abs:
  assumes "32 \<le> LENGTH('w)" "INT_MIN \<le> v" "v \<le> INT_MAX"
  shows "bsize_abs (bsize_fromint v :: 'w::len bsize_t) = (if v < 0 then None else Some (nat v))"
proof (cases "v < 0")
  case False
  have "(2 :: int) ^ 32 \<le> 2 ^ LENGTH('w)"
    using assms(1) by (intro power_increasing) simp_all
  with False assms(3) have "unat (of_int v :: 'w word) = nat v"
    by (simp add: unat_eq_nat_uint uint_word_of_int_eq take_bit_eq_mod)
  with False show ?thesis
    by (simp add: bsize_abs_def bsize_fromint_def not_le [symmetric])
qed (simp add: bsize_abs_def bsize_fromint_def)

lemma bsize_toint_abs:
  "bsize_toint s = (case bsize_abs s of None \<Rightarrow> None
     | Some n \<Rightarrow> if int n > INT_MAX then None else Some (int n))"
  by (simp add: bsize_toint_def bsize_abs_def)

lemma udpgw_compute_mtu_value:
  assumes "32 \<le> LENGTH('w)" "INT_MIN \<le> m" "m \<le> INT_MAX"
  shows "udpgw_compute_mtu TYPE('w::len) m = (if 0 \<le> m \<and> m + 21 \<le> INT_MAX then m + 21 else - 1)"
proof -
  have big: "(2 :: nat) ^ 32 \<le> 2 ^ LENGTH('w)"
    using assms(1) by (intro power_increasing) simp_all
  have cs: "take_bit LENGTH('w) (3 :: nat) = 3" "take_bit LENGTH('w) (6 :: nat) = 6"
    "take_bit LENGTH('w) (18 :: nat) = 18"
    using big by (simp_all add: take_bit_eq_mod)
  have fits: "nat m + 21 < 2 ^ LENGTH('w)"
    using big assms(3) by simp
  let ?bs = "bsize_add (bsize_fromsize 3)
    (bsize_add (bsize_max (bsize_fromsize 6) (bsize_fromsize 18)) (bsize_fromint m :: 'w bsize_t))"
  have "bsize_abs ?bs = (if m < 0 then None else Some (nat (m + 21)))"
    using fits
    by (simp add: bsize_add_abs bsize_max_abs bsize_fromsize_abs bsize_fromint_abs [OF assms]
      checked_def cs nat_add_distrib)
  then show ?thesis
    by (auto simp: udpgw_compute_mtu_def bsize_toint_abs Let_def)
qed

text \<open>The largest udpgw message for a datagram limit: 21 bytes of header and address are
  added exactly, and a limit that is negative or whose sum exceeds \<open>INT_MAX\<close> gives \<open>-1\<close>.\<close>

theorem udpgw_compute_mtu_eq:
  assumes "32 \<le> LENGTH('w)" "INT_MIN \<le> m" "m \<le> INT_MAX"
  shows "udpgw_compute_mtu TYPE('w::len) m = (if 0 \<le> m \<and> m + 21 \<le> INT_MAX then m + 21 else - 1)"
  by (rule udpgw_compute_mtu_value [OF assms])

theorem udpgw_compute_mtu_eq_witness: "udpgw_compute_mtu TYPE(32) 1472 = 1493"
  using udpgw_compute_mtu_eq [where 'w = 32, of 1472] by simp

lemma bdivide_up_ge: "0 < b \<Longrightarrow> a \<le> b * bdivide_up a b"
proof -
  assume "0 < b"
  then have "a mod b < b" by simp
  with mult_div_mod_eq [of b a] have "a \<le> b * (a div b) + b" by linarith
  moreover have "a = b * (a div b)" if "a mod b = 0"
    using that mult_div_mod_eq [of b a] by linarith
  ultimately show ?thesis
    by (simp add: bdivide_up_def Let_def)
qed

lemma bdivide_up_le_iff: "0 < b \<Longrightarrow> bdivide_up a b \<le> k \<longleftrightarrow> a \<le> b * k"
proof
  assume "0 < b" "bdivide_up a b \<le> k"
  then show "a \<le> b * k"
    using bdivide_up_ge [of b a] by (meson le_trans mult_le_mono2)
next
  assume b: "0 < b" and "a \<le> b * k"
  show "bdivide_up a b \<le> k"
  proof (cases "a mod b = 0")
    case True
    with b \<open>a \<le> b * k\<close> show ?thesis
      by (simp add: bdivide_up_def) (metis div_le_mono nonzero_mult_div_cancel_left not_gr_zero)
  next
    case False
    have "a < b * k"
      using False \<open>a \<le> b * k\<close> by (metis le_neq_implies_less mod_mult_self1_is_0)
    with b False show ?thesis
      by (simp add: bdivide_up_def Suc_le_eq less_mult_imp_div_less mult.commute)
  qed
qed

lemma bdivide_up_0 [simp]: "bdivide_up 0 b = 0"
  by (simp add: bdivide_up_def)

text \<open>Unless the overflow test says otherwise, alignment gives the least multiple of \<open>n\<close>
  that is at least \<open>x\<close>.\<close>

theorem balign_up_least:
  fixes x n :: "'w::len word"
  assumes "n \<noteq> 0" "\<not> balign_up_overflows x n"
  shows "unat n dvd unat (balign_up x n) \<and> unat x \<le> unat (balign_up x n) \<and>
    unat (balign_up x n) < unat x + unat n"
proof (cases "x mod n = 0")
  case True
  then have "unat x mod unat n = 0"
    by (metis unat_0 unat_mod)
  with True assms(1) show ?thesis
    by (auto simp: balign_up_def unat_gt_0)
next
  case False
  have n: "0 < unat n"
    using assms(1) by (simp add: unat_gt_0)
  have r: "unat (x mod n) = unat x mod unat n" "0 < unat x mod unat n"
    using False by (simp_all add: unat_mod) (metis gr0I unat_eq_zero unat_mod)
  have d: "unat (n - x mod n) = unat n - unat x mod unat n"
    using n by (simp add: unat_sub word_le_nat_alt r less_imp_le)
  have "unat x + unat (n - x mod n) < 2 ^ LENGTH('w)"
    using assms(2) False add_overflow_iff [of "n - x mod n" x]
    by (simp add: balign_up_overflows_def add.commute)
  then have "unat (balign_up x n) = unat x + (unat n - unat x mod unat n)"
    using False by (simp add: balign_up_def unat_word_ariths d)
  moreover have "unat x + (unat n - unat x mod unat n) = unat n * (unat x div unat n + 1)"
    using mult_div_mod_eq [of "unat n" "unat x"] mod_less_divisor [OF n, of "unat x"]
    unfolding distrib_left mult_1_right by linarith
  ultimately show ?thesis
    using r(2) n by (metis add_less_cancel_left diff_less dvd_triv_left le_add1)
qed

theorem balign_up_least_witness:
  "unat (balign_up (5 :: 32 word) 4) = 8 \<and> 4 dvd unat (balign_up (5 :: 32 word) 4)"
  using balign_up_least [of "4 :: 32 word" 5] by (simp add: balign_up_overflows_def SIZE_MAX_def balign_up_def)

end
