(* ===== verification/Bavl.thy ===== *)
theory Bavl
  imports Addr
begin

text \<open>
  The balanced tree of \<open>structure/BAVL.h\<close>, which holds the udpgw client's connections.

  A subtree is a value: \<open>Null\<close> or a node with \<open>link[0]\<close>, the element whose \<open>BAVLNode\<close> it is,
  the balance factor and \<open>link[1]\<close>.  A parent pointer is modelled by the list of frames from a
  node up to the root (which side the node hangs on, and the rest of the parent), so a pointer
  into the tree is a subtree with its frames, and the loops over \<open>parent\<close> consume the frames.
  The value compared is the element's key (\<open>offset\<close> in the code).  \<open>side\<close> is a boolean, with
  \<open>False\<close> for 0.  Balance factors stay within \<open>-2 .. 2\<close>, so \<open>int8_t\<close> never wraps.
  The counts of \<open>BAVL_COUNT\<close>, which nothing in the client defines, are left out.
\<close>

datatype 'a bavl = Null | BNode "'a bavl" 'a int "'a bavl"

datatype 'a frame = Frame bool 'a int "'a bavl"

fun link :: "'a bavl \<Rightarrow> bool \<Rightarrow> 'a bavl" where
  "link (BNode l x b r) side = (if side then r else l)"
| "link Null side = Null"

fun set_link :: "'a bavl \<Rightarrow> bool \<Rightarrow> 'a bavl \<Rightarrow> 'a bavl" where
  "set_link (BNode l x b r) side t = (if side then BNode l x b t else BNode t x b r)"
| "set_link Null side t = Null"

fun balance :: "'a bavl \<Rightarrow> int" where
  "balance (BNode l x b r) = b"
| "balance Null = 0"

fun set_balance :: "int \<Rightarrow> 'a bavl \<Rightarrow> 'a bavl" where
  "set_balance c (BNode l x b r) = BNode l x c r"
| "set_balance c Null = Null"

text \<open>The tree in which a subtree hangs below its frames.\<close>

fun plug :: "'a bavl \<Rightarrow> 'a frame \<Rightarrow> 'a bavl" where
  "plug t (Frame side x b other) = (if side then BNode other x b t else BNode t x b other)"

fun close :: "'a bavl \<Rightarrow> 'a frame list \<Rightarrow> 'a bavl" where
  "close t [] = t"
| "close t (f # path) = close (plug t f) path"

definition BAVL_OPTNEG :: "int \<Rightarrow> bool \<Rightarrow> int" where
  "BAVL_OPTNEG a neg = (if neg then - a else a)"

definition BAVL_rotate :: "'a bavl \<Rightarrow> bool \<Rightarrow> 'a bavl" where
  "BAVL_rotate r dir =
     (let nr = link r (\<not> dir) in set_link nr dir (set_link r (\<not> dir) (link nr dir)))"

text \<open>The transformations of \<open>_BAVL_rebalance\<close> on a node whose balance factor is 2 or -2, with
  the resulting height change.\<close>

definition BAVL_transform :: "'a bavl \<Rightarrow> int \<Rightarrow> 'a bavl \<times> int" where
  "BAVL_transform node delta =
     (let bside = (balance node = 2);
          bsidef = (if bside then 1 else - 1);
          child = link node bside
      in if balance child * bsidef = 1 then
           (let t = BAVL_rotate node (\<not> bside) in
            (set_balance 0 (set_link t (\<not> bside) (set_balance 0 (link t (\<not> bside)))), delta - 1))
         else if balance child * bsidef = 0 then
           (let t = BAVL_rotate node (\<not> bside) in
            (set_balance (- 1 * bsidef)
               (set_link t (\<not> bside) (set_balance (1 * bsidef) (link t (\<not> bside)))), delta))
         else
           (let gchild = link child (\<not> bside);
                t = BAVL_rotate (set_link node bside (BAVL_rotate child bside)) (\<not> bside);
                t' = set_link t (\<not> bside)
                  (set_balance (- max 0 (balance gchild * bsidef) * bsidef) (link t (\<not> bside)))
            in (set_balance 0 (set_link t' bside
                  (set_balance (max 0 (- balance gchild * bsidef) * bsidef) (link t' bside))),
                delta - 1)))"

definition BAVL_rebalance_node :: "'a bavl \<Rightarrow> bool \<Rightarrow> int \<Rightarrow> 'a bavl \<times> int" where
  "BAVL_rebalance_node node side deltac =
     (let delta = max deltac (BAVL_OPTNEG (balance node) side) - max 0 (BAVL_OPTNEG (balance node) side);
          node' = set_balance (balance node - BAVL_OPTNEG deltac side) node
      in if balance node' = 2 \<or> balance node' = - 2 then BAVL_transform node' delta
         else (node', delta))"

fun BAVL_rebalance :: "'a bavl \<Rightarrow> 'a frame list \<Rightarrow> bool \<Rightarrow> int \<Rightarrow> 'a bavl" where
  "BAVL_rebalance node path side deltac =
     (if deltac = 0 then close node path
      else let (node', delta) = BAVL_rebalance_node node side deltac in
        (case path of
           [] \<Rightarrow> node'
         | Frame side' x b other # path' \<Rightarrow>
             BAVL_rebalance (plug node' (Frame side' x b other)) path' side' delta))"

declare BAVL_rebalance.simps [simp del]

definition BAVL_Init :: "'a bavl" where
  "BAVL_Init = Null"

definition BAVL_IsEmpty :: "'a bavl \<Rightarrow> bool" where
  "BAVL_IsEmpty tree = (tree = Null)"

text \<open>The search loop shared by insertion and the lookups: the node it stops at with the frames
  above it, and \<open>None\<close> when that node compares equal or the side on which its link is null.\<close>

fun BAVL_search :: "('k \<Rightarrow> 'k \<Rightarrow> int) \<Rightarrow> ('a \<Rightarrow> 'k) \<Rightarrow> 'k \<Rightarrow> 'a bavl \<Rightarrow> 'a frame list \<Rightarrow>
    'a bavl \<times> 'a frame list \<times> bool option" where
  "BAVL_search cmp key val (BNode l x b r) path =
     (let comp = cmp val (key x) in
      if comp = 0 then (BNode l x b r, path, None)
      else let side = (comp = 1) in
        if link (BNode l x b r) side = Null then (BNode l x b r, path, Some side)
        else if side then BAVL_search cmp key val r (Frame True x b l # path)
        else BAVL_search cmp key val l (Frame False x b r # path))"
| "BAVL_search cmp key val Null path = (Null, path, None)"

fun bnode :: "'a bavl \<Rightarrow> 'a option" where
  "bnode (BNode l x b r) = Some x"
| "bnode Null = None"

text \<open>Insertion returns the new tree, the reference node and whether the node was inserted.\<close>

definition BAVL_Insert :: "('k \<Rightarrow> 'k \<Rightarrow> int) \<Rightarrow> ('a \<Rightarrow> 'k) \<Rightarrow> 'a bavl \<Rightarrow> 'a \<Rightarrow>
    'a bavl \<times> 'a option \<times> bool" where
  "BAVL_Insert cmp key tree node =
     (if tree = Null then (BNode Null node 0 Null, None, True)
      else case BAVL_search cmp key (key node) tree [] of
        (c, path, None) \<Rightarrow> (tree, bnode c, False)
      | (c, path, Some side) \<Rightarrow>
          (BAVL_rebalance (set_link c side (BNode Null node 0 Null)) path side 1, bnode c, True))"

fun BAVL_subtree_max :: "'a bavl \<Rightarrow> 'a frame list \<Rightarrow> 'a bavl \<times> 'a frame list" where
  "BAVL_subtree_max (BNode l x b r) path =
     (if r = Null then (BNode l x b r, path) else BAVL_subtree_max r (Frame True x b l # path))"
| "BAVL_subtree_max Null path = (Null, path)"

text \<open>Replacing the node by its child and rebalancing from its parent.\<close>

definition BAVL_unlink :: "'a bavl \<Rightarrow> 'a frame list \<Rightarrow> 'a bavl" where
  "BAVL_unlink node path =
     (let child = (if link node False \<noteq> Null then link node False else link node True) in
      case path of
        [] \<Rightarrow> child
      | Frame side x b other # path' \<Rightarrow>
          BAVL_rebalance (plug child (Frame side x b other)) path' side (- 1))"

text \<open>\<open>_BAVL_swap_nodes\<close> exchanges the links, parents and balance factors of the node and of the
  largest node of its left subtree: that node's element takes the node's place, and the node
  takes the place of the largest one, whose left child it inherits.\<close>

fun BAVL_Remove :: "'a bavl \<times> 'a frame list \<Rightarrow> 'a bavl" where
  "BAVL_Remove (BNode l x b r, path) =
     (if l \<noteq> Null \<and> r \<noteq> Null then
        (case BAVL_subtree_max l [] of
           (BNode ml m mb mr, below) \<Rightarrow>
             BAVL_unlink (BNode ml x mb mr) (below @ Frame False m b r # path)
         | (Null, below) \<Rightarrow> BNode l x b r)
      else BAVL_unlink (BNode l x b r) path)"
| "BAVL_Remove (Null, path) = close Null path"

text \<open>The pointer to the node with a given value.\<close>

definition BAVL_at :: "('k \<Rightarrow> 'k \<Rightarrow> int) \<Rightarrow> ('a \<Rightarrow> 'k) \<Rightarrow> 'a bavl \<Rightarrow> 'k \<Rightarrow> 'a bavl \<times> 'a frame list" where
  "BAVL_at cmp key tree val = (case BAVL_search cmp key val tree [] of (c, path, _) \<Rightarrow> (c, path))"

text \<open>The place of an element, which in memory is its own tree node.\<close>

fun BAVL_entry :: "'e \<Rightarrow> 'e bavl \<Rightarrow> 'e frame list \<Rightarrow> ('e bavl \<times> 'e frame list) option" where
  "BAVL_entry x Null path = None"
| "BAVL_entry x (BNode l y b r) path =
     (if x = y then Some (BNode l y b r, path)
      else case BAVL_entry x l (Frame False y b r # path) of
        Some ref \<Rightarrow> Some ref
      | None \<Rightarrow> BAVL_entry x r (Frame True y b l # path))"

definition BAVL_Lookup :: "('k \<Rightarrow> 'k \<Rightarrow> int) \<Rightarrow> ('a \<Rightarrow> 'k) \<Rightarrow> 'a bavl \<Rightarrow> 'k \<Rightarrow> 'a option" where
  "BAVL_Lookup cmp key tree val = (case BAVL_search cmp key val tree [] of (c, path, _) \<Rightarrow> bnode c)"

definition BAVL_LookupExact :: "('k \<Rightarrow> 'k \<Rightarrow> int) \<Rightarrow> ('a \<Rightarrow> 'k) \<Rightarrow> 'a bavl \<Rightarrow> 'k \<Rightarrow> 'a option" where
  "BAVL_LookupExact cmp key tree val =
     (case BAVL_search cmp key val tree [] of (c, path, None) \<Rightarrow> bnode c | _ \<Rightarrow> None)"

fun BAVL_GetFirst :: "'a bavl \<Rightarrow> 'a option" where
  "BAVL_GetFirst Null = None"
| "BAVL_GetFirst (BNode l x b r) = (if l = Null then Some x else BAVL_GetFirst l)"

fun BAVL_GetLast :: "'a bavl \<Rightarrow> 'a option" where
  "BAVL_GetLast Null = None"
| "BAVL_GetLast (BNode l x b r) = (if r = Null then Some x else BAVL_GetLast r)"

text \<open>The first ancestor reached from the given side.\<close>

fun BAVL_climb :: "bool \<Rightarrow> 'a frame list \<Rightarrow> 'a option" where
  "BAVL_climb side (Frame s x b other # path) = (if s = side then BAVL_climb side path else Some x)"
| "BAVL_climb side [] = None"

definition BAVL_GetNext :: "'a bavl \<times> 'a frame list \<Rightarrow> 'a option" where
  "BAVL_GetNext n =
     (if link (fst n) True \<noteq> Null then BAVL_GetFirst (link (fst n) True) else BAVL_climb True (snd n))"

definition BAVL_GetPrev :: "'a bavl \<times> 'a frame list \<Rightarrow> 'a option" where
  "BAVL_GetPrev n =
     (if link (fst n) False \<noteq> Null then BAVL_GetLast (link (fst n) False) else BAVL_climb False (snd n))"

text \<open>The self-check: the height of the subtree, or \<open>None\<close> where an assertion fails.\<close>

fun BAVL_assert_recurser :: "('k \<Rightarrow> 'k \<Rightarrow> int) \<Rightarrow> ('a \<Rightarrow> 'k) \<Rightarrow> 'a bavl \<Rightarrow> int option" where
  "BAVL_assert_recurser cmp key Null = Some 0"
| "BAVL_assert_recurser cmp key (BNode l x b r) =
     (if b < - 1 \<or> b > 1 then None
      else if (case bnode l of None \<Rightarrow> False | Some y \<Rightarrow> cmp (key y) (key x) \<noteq> - 1) then None
      else if (case bnode r of None \<Rightarrow> False | Some y \<Rightarrow> cmp (key y) (key x) \<noteq> 1) then None
      else case (BAVL_assert_recurser cmp key l, BAVL_assert_recurser cmp key r) of
        (Some height_left, Some height_right) \<Rightarrow>
          if b = height_right - height_left then Some (max height_left height_right + 1) else None
      | _ \<Rightarrow> None)"

definition BAVL_Verify :: "('k \<Rightarrow> 'k \<Rightarrow> int) \<Rightarrow> ('a \<Rightarrow> 'k) \<Rightarrow> 'a bavl \<Rightarrow> bool" where
  "BAVL_Verify cmp key tree = (tree = Null \<or> BAVL_assert_recurser cmp key tree \<noteq> None)"

section \<open>Balance\<close>

fun height :: "'a bavl \<Rightarrow> int" where
  "height Null = 0"
| "height (BNode l x b r) = max (height l) (height r) + 1"

fun avl :: "'a bavl \<Rightarrow> bool" where
  "avl Null = True"
| "avl (BNode l x b r) = (b = height r - height l \<and> - 1 \<le> b \<and> b \<le> 1 \<and> avl l \<and> avl r)"

fun avl_path :: "'a frame list \<Rightarrow> int \<Rightarrow> bool" where
  "avl_path [] h = True"
| "avl_path (Frame side x b other # path) h =
     (b = BAVL_OPTNEG (height other - h) side \<and> - 1 \<le> b \<and> b \<le> 1 \<and> avl other \<and>
      avl_path path (max h (height other) + 1))"

fun inorder :: "'a bavl \<Rightarrow> 'a list" where
  "inorder Null = []"
| "inorder (BNode l x b r) = inorder l @ x # inorder r"

fun before :: "'a frame list \<Rightarrow> 'a list" where
  "before [] = []"
| "before (Frame side x b other # path) = before path @ (if side then inorder other @ [x] else [])"

fun after :: "'a frame list \<Rightarrow> 'a list" where
  "after [] = []"
| "after (Frame side x b other # path) = (if side then [] else x # inorder other) @ after path"

lemma height_nonneg [simp]: "0 \<le> height t"
  by (induction t) auto

lemma height_0 [simp]: "height t = 0 \<longleftrightarrow> t = Null"
  using height_nonneg by (cases t) (auto simp: add_nonneg_eq_0_iff max_def)

lemma inorder_close: "inorder (close t path) = before path @ inorder t @ after path"
proof (induction path arbitrary: t)
  case (Cons f path)
  then show ?case by (cases f) simp
qed simp

lemma avl_close: "avl t \<Longrightarrow> avl_path path (height t) \<Longrightarrow> avl (close t path)"
proof (induction path arbitrary: t)
  case (Cons f path)
  then show ?case
    by (cases f) (auto simp: BAVL_OPTNEG_def max.commute split: if_splits)
qed simp


text \<open>One step of the upward walk: a child subtree changed its height by \<open>deltac\<close>, the balance
  factor still describes the old heights.\<close>

fun stale :: "'a bavl \<Rightarrow> bool \<Rightarrow> int \<Rightarrow> bool" where
  "stale Null side deltac = False"
| "stale (BNode l x b r) side deltac =
     (avl l \<and> avl r \<and> - 1 \<le> b \<and> b \<le> 1 \<and> - 1 \<le> deltac \<and> deltac \<le> 1 \<and>
      b = height r - height l + BAVL_OPTNEG deltac side)"

fun old_height :: "'a bavl \<Rightarrow> bool \<Rightarrow> int \<Rightarrow> int" where
  "old_height Null side deltac = 0"
| "old_height (BNode l x b r) side deltac =
     (if side then max (height l) (height r - deltac) else max (height l - deltac) (height r)) + 1"

lemma not_Null_height: "t \<noteq> Null \<longleftrightarrow> 1 \<le> height t"
  using height_nonneg [of t] height_0 [of t] by linarith

lemma tall: "1 \<le> height t \<Longrightarrow> \<exists>l x b r. t = BNode l x b r"
  by (cases t) auto

lemma rebalance_node_right_heavy:
  assumes "avl l" "avl r" "height r = height l + 2"
  shows "case BAVL_transform (BNode l x 2 r) d of
    (t, d') \<Rightarrow> avl t \<and> height t = height r + 1 + (d' - d) \<and> inorder t = inorder l @ x # inorder r \<and>
      (d' = d - 1 \<or> d' = d \<and> balance r = 0)"
proof -
  from assms obtain rl y rb rr where r: "r = BNode rl y rb rr"
    using tall [of r] height_nonneg [of l] by auto
  show ?thesis
  proof (cases "rb = - 1")
    case True
    with assms r obtain a z zb c where "rl = BNode a z zb c"
      using tall [of rl] height_nonneg [of rr] by fastforce
    with assms r True show ?thesis
      by (auto simp: BAVL_transform_def BAVL_rotate_def Let_def)
  next
    case False
    with assms r show ?thesis
      by (auto simp: BAVL_transform_def BAVL_rotate_def Let_def)
  qed
qed

lemma rebalance_node_left_heavy:
  assumes "avl l" "avl r" "height l = height r + 2"
  shows "case BAVL_transform (BNode l x (- 2) r) d of
    (t, d') \<Rightarrow> avl t \<and> height t = height l + 1 + (d' - d) \<and> inorder t = inorder l @ x # inorder r \<and>
      (d' = d - 1 \<or> d' = d \<and> balance l = 0)"
proof -
  from assms obtain ll y lb lr where l: "l = BNode ll y lb lr"
    using tall [of l] height_nonneg [of r] by auto
  show ?thesis
  proof (cases "lb = 1")
    case True
    with assms l obtain a z zb c where "lr = BNode a z zb c"
      using tall [of lr] height_nonneg [of ll] by fastforce
    with assms l True show ?thesis
      by (auto simp: BAVL_transform_def BAVL_rotate_def Let_def)
  next
    case False
    with assms l show ?thesis
      by (auto simp: BAVL_transform_def BAVL_rotate_def Let_def)
  qed
qed

lemma rebalance_node:
  assumes "stale t side d"
  shows "case BAVL_rebalance_node t side d of (t', d') \<Rightarrow>
    avl t' \<and> height t' = old_height t side d + d' \<and> inorder t' = inorder t \<and> - 1 \<le> d' \<and> d' \<le> 1"
proof (cases t)
  case (BNode l x b r)
  define b' where "b' = height r - height l"
  have node: "set_balance (balance t - BAVL_OPTNEG d side) t = BNode l x b' r"
    using assms BNode by (simp add: b'_def)
  define delta where "delta = max d (BAVL_OPTNEG b side) - max 0 (BAVL_OPTNEG b side)"
  have heights: "max (height l) (height r) + 1 = old_height t side d + delta"
    and delta: "- 1 \<le> delta" "delta \<le> 1"
    and b': "\<bar>b'\<bar> \<le> 2"
    and edge: "\<bar>b'\<bar> = 2 \<Longrightarrow> delta = 0 \<and> d = - 1 \<or> delta = 1 \<and> d = 1"
    using assms BNode by (auto simp: delta_def b'_def BAVL_OPTNEG_def split: if_splits)
  have unf: "BAVL_rebalance_node t side d =
      (if b' = 2 \<or> b' = - 2 then BAVL_transform (BNode l x b' r) delta else (BNode l x b' r, delta))"
    using node by (simp add: BAVL_rebalance_node_def delta_def BNode)
  consider "b' = 2" | "b' = - 2" | "- 1 \<le> b'" "b' \<le> 1"
    using b' by linarith
  then show ?thesis
  proof cases
    case 1
    then show ?thesis
      using rebalance_node_right_heavy [where l = l and r = r and x = x and d = delta] assms BNode edge heights delta unf
      by (auto simp: b'_def)
  next
    case 2
    then show ?thesis
      using rebalance_node_left_heavy [where l = l and r = r and x = x and d = delta] assms BNode edge heights delta unf
      by (auto simp: b'_def)
  next
    case 3
    then show ?thesis
      using assms BNode heights delta unf
      by (auto simp: b'_def)
  qed
qed (use assms in simp)

lemma inorder_plug: "inorder t = inorder t' \<Longrightarrow> inorder (close (plug t f) p) = inorder (close (plug t' f) p)"
  by (cases f) (simp add: inorder_close)

lemma stale_0: "stale t side 0 \<Longrightarrow> avl t \<and> old_height t side 0 = height t"
  by (cases t) (auto simp: BAVL_OPTNEG_def)

lemma BAVL_rebalance_ok:
  "stale t side d \<Longrightarrow> avl_path path (old_height t side d) \<Longrightarrow>
     avl (BAVL_rebalance t path side d) \<and> inorder (BAVL_rebalance t path side d) = inorder (close t path)"
proof (induction path arbitrary: t side d)
  case Nil
  then show ?case
    using rebalance_node [of t side d] stale_0 [of t side]
    by (auto simp: BAVL_rebalance.simps [of t])
next
  case (Cons f path)
  obtain s x b other where f: "f = Frame s x b other" by (cases f)
  obtain t' d' where step: "BAVL_rebalance_node t side d = (t', d')" by force
  note t' = rebalance_node [OF Cons.prems(1), unfolded step, simplified]
  show ?case
  proof (cases "d = 0")
    case True
    with Cons.prems stale_0 [of t side] show ?thesis
      by (simp add: BAVL_rebalance.simps [of t] avl_close del: close.simps)
  next
    case False
    have "stale (plug t' f) s d'" "old_height (plug t' f) s d' = max (old_height t side d) (height other) + 1"
      using t' Cons.prems(2) f by (auto simp: BAVL_OPTNEG_def max.commute)
    with Cons.IH [of "plug t' f" s d'] Cons.prems(2) f
    have "avl (BAVL_rebalance (plug t' f) path s d')"
      "inorder (BAVL_rebalance (plug t' f) path s d') = inorder (close (plug t' f) path)"
      by auto
    with False step f t' inorder_plug [of t' t f path] show ?thesis
      by (simp add: BAVL_rebalance.simps [of t])
  qed
qed


section \<open>Insertion, removal and search on the inorder list\<close>

lemma BAVL_search_shape:
  assumes "t \<noteq> Null" "BAVL_search cmp key val t path = (c, p, res)"
  shows "close c p = close t path \<and> (\<exists>l x b r. c = BNode l x b r \<and> (res = None \<longleftrightarrow> cmp val (key x) = 0)) \<and>
    (\<forall>side. res = Some side \<longrightarrow> link c side = Null) \<and>
    (avl t \<longrightarrow> avl_path path (height t) \<longrightarrow> avl c \<and> avl_path p (height c))"
  using assms
proof (induction t arbitrary: path)
  case (BNode l x b r)
  consider "cmp val (key x) = 0" | "cmp val (key x) = 1" "r = Null" | "cmp val (key x) = 1" "r \<noteq> Null"
    | "cmp val (key x) \<noteq> 0" "cmp val (key x) \<noteq> 1" "l = Null"
    | "cmp val (key x) \<noteq> 0" "cmp val (key x) \<noteq> 1" "l \<noteq> Null"
    by blast
  then show ?case
  proof cases
    case 3
    with BNode.prems BNode.IH(2) [of "Frame True x b l # path"] show ?thesis
      by (auto simp: BAVL_OPTNEG_def max.commute)
  next
    case 5
    with BNode.prems BNode.IH(1) [of "Frame False x b r # path"] show ?thesis
      by (auto simp: BAVL_OPTNEG_def)
  qed (use BNode.prems in auto)
qed simp

lemma BAVL_subtree_max_shape:
  assumes "t \<noteq> Null" "BAVL_subtree_max t path = (c, p)"
  shows "(\<exists>l x b. c = BNode l x b Null) \<and> close c p = close t path \<and>
    (\<exists>q. p = q @ path \<and> after q = []) \<and>
    (avl t \<longrightarrow> avl_path path (height t) \<longrightarrow> avl c \<and> avl_path p (height c))"
  using assms
proof (induction t arbitrary: path)
  case (BNode l x b r)
  show ?case
  proof (cases "r = Null")
    case True
    with BNode.prems show ?thesis by auto
  next
    case False
    with BNode.prems BNode.IH(2) [of "Frame True x b l # path"] obtain q
      where q: "p = q @ Frame True x b l # path" "after q = []" by auto
    have "after (q @ [Frame True x b l]) = []"
      using q(2) by (induction q rule: after.induct) auto
    with q have "\<exists>q. p = q @ path \<and> after q = []"
      by (intro exI [of _ "q @ [Frame True x b l]"]) simp
    with False BNode.prems BNode.IH(2) [of "Frame True x b l # path"] show ?thesis
      by (auto simp: BAVL_OPTNEG_def max.commute)
  qed
qed simp

lemma before_append: "before (p @ q) = before q @ before p"
  by (induction p rule: before.induct) auto

lemma after_append: "after (p @ q) = after p @ after q"
  by (induction p rule: after.induct) auto

lemma avl_path_swap:
  "avl_path (p @ Frame s x b other # q) h = avl_path (p @ Frame s y b other # q) h"
  by (induction p arbitrary: h rule: before.induct) auto

lemma BAVL_unlink_ok:
  assumes "link node False = Null \<or> link node True = Null" "node \<noteq> Null"
    "avl node" "avl_path path (height node)"
  shows "avl (BAVL_unlink node path) \<and>
    inorder (BAVL_unlink node path) = before path @ inorder (link node False) @ inorder (link node True) @ after path"
proof -
  define child where "child = (if link node False \<noteq> Null then link node False else link node True)"
  have child: "avl child \<and> height node = height child + 1 \<and>
    inorder child = inorder (link node False) @ inorder (link node True)"
  proof (cases node)
    case (BNode l x b r)
    with assms(1,3) show ?thesis
      by (cases "l = Null") (simp_all add: child_def max_absorb1 max_absorb2)
  qed (use assms(2) in simp)
  show ?thesis
  proof (cases path)
    case Nil
    with child show ?thesis
      by (simp add: BAVL_unlink_def child_def [symmetric])
  next
    case (Cons f path')
    obtain s x b other where f: "f = Frame s x b other" by (cases f)
    have "stale (plug child f) s (- 1)" "old_height (plug child f) s (- 1) = max (height node) (height other) + 1"
      using assms(4) child f Cons by (auto simp: BAVL_OPTNEG_def max.commute)
    with BAVL_rebalance_ok [of "plug child f" s "- 1" path'] assms(4) Cons f child
    show ?thesis
      by (auto simp: BAVL_unlink_def child_def [symmetric] inorder_close)
  qed
qed

lemma BAVL_subtree_max_path:
  "BAVL_subtree_max t (p @ q) = (case BAVL_subtree_max t p of (c, r) \<Rightarrow> (c, r @ q))"
proof (induction t arbitrary: p)
  case (BNode l x b r)
  then show ?case
    using BNode.IH(2) [of "Frame True x b l # p"] by simp
qed simp

lemma BAVL_Remove_ok:
  assumes "avl (BNode l x b r)" "avl_path path (height (BNode l x b r))"
  shows "avl (BAVL_Remove (BNode l x b r, path)) \<and>
    inorder (BAVL_Remove (BNode l x b r, path)) = before path @ inorder l @ inorder r @ after path"
proof (cases "l \<noteq> Null \<and> r \<noteq> Null")
  case False
  with BAVL_unlink_ok [of "BNode l x b r" path] assms show ?thesis by auto
next
  case True
  obtain c below where max: "BAVL_subtree_max l [] = (c, below)" by force
  from BAVL_subtree_max_shape [OF _ this] True assms obtain ml m mb where c: "c = BNode ml m mb Null"
    and cl: "close c below = l" "after below = []" by auto
  have "avl_path (below @ Frame False x b r # path) (height c)" "avl c"
    using BAVL_subtree_max_shape [of l "Frame False x b r # path"]
      BAVL_subtree_max_path [of l "[]" "Frame False x b r # path"] max True assms
    by (auto simp: BAVL_OPTNEG_def)
  then have "avl_path (below @ Frame False m b r # path) (height (BNode ml x mb Null))" "avl (BNode ml x mb Null)"
    using c avl_path_swap [of below False x b r path _ m] by auto
  from BAVL_unlink_ok [OF _ _ this(2,1)] max c True cl inorder_close [of c below]
  show ?thesis
    by (auto simp: before_append after_append)
qed

lemma avl_search:
  assumes "avl t" "t \<noteq> Null" "BAVL_search cmp key val t [] = (c, p, res)"
  obtains l x b r where "c = BNode l x b r" "res = None \<longleftrightarrow> cmp val (key x) = 0"
    "\<And>side. res = Some side \<Longrightarrow> link c side = Null" "avl c" "avl_path p (height c)"
    "inorder t = before p @ inorder l @ x # inorder r @ after p"
  using BAVL_search_shape [OF assms(2,3)] assms(1) inorder_close [of c p] by auto

lemma insert_at:
  assumes "avl c" "avl_path p (height c)" "link c side = Null" "c = BNode l y b r"
  shows "avl (BAVL_rebalance (set_link c side (BNode Null x 0 Null)) p side 1) \<and>
    inorder (BAVL_rebalance (set_link c side (BNode Null x 0 Null)) p side 1) =
      (before p @ (if side then inorder c else [])) @ x # (if side then [] else inorder c) @ after p"
proof -
  let ?n = "set_link c side (BNode Null x 0 Null)"
  have "stale ?n side 1" "old_height ?n side 1 = height c"
    using assms by (auto simp: BAVL_OPTNEG_def)
  with BAVL_rebalance_ok [of ?n side 1 p] assms show ?thesis
    by (cases side) (simp_all add: inorder_close BAVL_OPTNEG_def)
qed


section \<open>Search trees\<close>

definition ordered :: "('k \<Rightarrow> 'k \<Rightarrow> int) \<Rightarrow> ('a \<Rightarrow> 'k) \<Rightarrow> 'a list \<Rightarrow> bool" where
  "ordered cmp key xs = sorted_wrt (\<lambda>x y. cmp (key x) (key y) < 0) xs"

definition bavl_inv :: "('k \<Rightarrow> 'k \<Rightarrow> int) \<Rightarrow> ('k \<Rightarrow> bool) \<Rightarrow> ('a \<Rightarrow> 'k) \<Rightarrow> 'a bavl \<Rightarrow> bool" where
  "bavl_inv cmp valid key t = (avl t \<and> ordered cmp key (inorder t) \<and> list_all (valid \<circ> key) (inorder t))"

definition elems :: "'a bavl \<Rightarrow> 'a set" where
  "elems t = set (inorder t)"

text \<open>What a client of a keyed container relies on.\<close>

locale dictionary =
  fixes inv :: "'t \<Rightarrow> bool" and elements :: "'t \<Rightarrow> 'a set" and key :: "'a \<Rightarrow> 'k" and valid :: "'k \<Rightarrow> bool"
    and lookup :: "'t \<Rightarrow> 'k \<Rightarrow> 'a option" and ins :: "'t \<Rightarrow> 'a \<Rightarrow> 't \<times> 'a option \<times> bool"
    and del :: "'t \<Rightarrow> 'k \<Rightarrow> 't"
  assumes lookup_iff: "inv t \<Longrightarrow> valid k \<Longrightarrow> lookup t k = Some x \<longleftrightarrow> x \<in> elements t \<and> key x = k"
    and ins_new: "inv t \<Longrightarrow> valid (key x) \<Longrightarrow> key x \<notin> key ` elements t \<Longrightarrow>
      \<exists>t' r. ins t x = (t', r, True) \<and> inv t' \<and> elements t' = insert x (elements t)"
    and ins_old: "inv t \<Longrightarrow> valid (key x) \<Longrightarrow> key x \<in> key ` elements t \<Longrightarrow>
      \<exists>r. ins t x = (t, r, False)"
    and del_elements: "inv t \<Longrightarrow> k \<in> key ` elements t \<Longrightarrow>
      inv (del t k) \<and> elements (del t k) = {x \<in> elements t. key x \<noteq> k}"
begin

lemma lookup_None: "inv t \<Longrightarrow> valid k \<Longrightarrow> lookup t k = None \<longleftrightarrow> k \<notin> key ` elements t"
  using lookup_iff by (metis (mono_tags, lifting) image_iff not_None_eq)

lemma keys_unique: "inv t \<Longrightarrow> valid (key x) \<Longrightarrow> x \<in> elements t \<Longrightarrow> y \<in> elements t \<Longrightarrow> key x = key y \<Longrightarrow> x = y"
  using lookup_iff by (metis option.inject)

lemma lookup_del:
  assumes "inv t" "valid k" "valid j" "k \<in> key ` elements t"
  shows "lookup (del t k) j = (if j = k then None else lookup t j)"
proof -
  from assms del_elements have t': "inv (del t k)" "elements (del t k) = {x \<in> elements t. key x \<noteq> k}"
    by blast+
  show ?thesis
  proof (cases "lookup (del t k) j")
    case None
    with t' assms lookup_None [of "del t k" j] lookup_None [of t j] show ?thesis by auto
  next
    case (Some y)
    with t' assms lookup_iff [of "del t k" j y] lookup_iff [of t j y] show ?thesis by auto
  qed
qed

lemma lookup_ins:
  assumes "inv t" "valid (key x)" "valid j" "key x \<notin> key ` elements t"
  shows "lookup (fst (ins t x)) j = (if j = key x then Some x else lookup t j)"
proof -
  from ins_new [OF assms(1,2,4)] obtain t' r where t': "ins t x = (t', r, True)" "inv t'"
    "elements t' = insert x (elements t)" by blast
  show ?thesis
  proof (cases "lookup t' j")
    case None
    with t' assms lookup_None [of t' j] lookup_None [of t j] show ?thesis by auto
  next
    case (Some y)
    with t' assms lookup_iff [of t' j y] lookup_iff [of t j y] show ?thesis
      by (auto simp: image_iff)
  qed
qed

end

text \<open>The tree with a comparator and a key is such a container.\<close>

locale bavl_keyed = comparator cmp valid for cmp :: "'k \<Rightarrow> 'k \<Rightarrow> int" and valid +
  fixes key :: "'a \<Rightarrow> 'k"
begin

lemma ordered_split:
  "ordered cmp key (xs @ x # ys) \<longleftrightarrow> ordered cmp key (xs @ ys) \<and>
     (\<forall>y\<in>set xs. cmp (key y) (key x) < 0) \<and> (\<forall>y\<in>set ys. cmp (key x) (key y) < 0)"
  by (auto simp: ordered_def sorted_wrt_append)

text \<open>Everything left of the place the search stops at is smaller than the value looked for,
  everything right of it greater.\<close>

lemma search_between:
  assumes "BAVL_search cmp key val t path = (c, p, res)" "valid val"
    "list_all (valid \<circ> key) (inorder t)" "ordered cmp key (inorder t)" "t \<noteq> Null"
    "\<forall>y\<in>set (before path). cmp (key y) val < 0" "\<forall>y\<in>set (after path). cmp val (key y) < 0"
  shows "(\<forall>y\<in>set (before p). cmp (key y) val < 0) \<and> (\<forall>y\<in>set (after p). cmp val (key y) < 0) \<and>
    (res = Some True \<longrightarrow> (\<forall>y\<in>set (inorder c). cmp (key y) val < 0)) \<and>
    (res = Some False \<longrightarrow> (\<forall>y\<in>set (inorder c). cmp val (key y) < 0))"
  using assms
proof (induction t arbitrary: path)
  case (BNode l x b r)
  have x: "valid (key x)" "\<forall>y\<in>set (inorder l) \<union> set (inorder r). valid (key y)"
    using BNode.prems(3) by (auto simp: list_all_iff)
  have lr: "\<forall>y\<in>set (inorder l). cmp (key y) (key x) < 0" "\<forall>y\<in>set (inorder r). cmp (key x) (key y) < 0"
    "ordered cmp key (inorder l)" "ordered cmp key (inorder r)"
    using BNode.prems(4) by (auto simp: ordered_def sorted_wrt_append)
  have low: "\<forall>y\<in>set (inorder l) \<union> {x}. cmp (key y) val < 0" if "cmp val (key x) = 1"
    using that x lr(1) BNode.prems(2) cmp_trans cmp_neg_pos by (metis Un_iff singletonD zero_less_one)
  have high: "\<forall>y\<in>set (inorder r) \<union> {x}. cmp val (key y) < 0" if "cmp val (key x) \<noteq> 1" "cmp val (key x) \<noteq> 0"
  proof -
    have "cmp val (key x) < 0"
      using that cmp_range [of val "key x"] x BNode.prems(2) by auto
    then show ?thesis
      using x lr(2) BNode.prems(2) cmp_trans by (metis Un_iff singletonD)
  qed
  consider "cmp val (key x) = 0" | "cmp val (key x) = 1" "r = Null" | "cmp val (key x) = 1" "r \<noteq> Null"
    | "cmp val (key x) \<noteq> 0" "cmp val (key x) \<noteq> 1" "l = Null"
    | "cmp val (key x) \<noteq> 0" "cmp val (key x) \<noteq> 1" "l \<noteq> Null"
    by blast
  then show ?case
  proof cases
    case 1
    with BNode.prems show ?thesis by auto
  next
    case 2
    with BNode.prems low show ?thesis by auto
  next
    case 3
    with BNode.prems low lr x show ?thesis
      by (intro BNode.IH(2) [of "Frame True x b l # path"]) (auto simp: list_all_iff)
  next
    case 4
    with BNode.prems high show ?thesis by auto
  next
    case 5
    with BNode.prems high lr x show ?thesis
      by (intro BNode.IH(1) [of "Frame False x b r # path"]) (auto simp: list_all_iff)
  qed
qed simp

lemma ordered_distinct: "ordered cmp key xs \<Longrightarrow> list_all (valid \<circ> key) xs \<Longrightarrow> distinct (map key xs)"
proof (induction xs)
  case (Cons x xs)
  then show ?case
    using cmp_zero [of "key x" "key x"] by (auto simp: ordered_def)
qed simp

lemma elems_keys_unique:
  "bavl_inv cmp valid key t \<Longrightarrow> x \<in> elems t \<Longrightarrow> y \<in> elems t \<Longrightarrow> key x = key y \<Longrightarrow> x = y"
  using ordered_distinct by (auto simp: bavl_inv_def elems_def distinct_map inj_on_def)

lemma search_result:
  assumes "bavl_inv cmp valid key t" "valid val" "t \<noteq> Null" "BAVL_search cmp key val t [] = (c, p, res)"
  obtains l x b r where "c = BNode l x b r" "avl c" "avl_path p (height c)"
    "inorder t = before p @ inorder l @ x # inorder r @ after p"
    "res = None \<Longrightarrow> key x = val"
    "\<And>side. res = Some side \<Longrightarrow> link c side = Null"
    "\<And>side. res = Some side \<Longrightarrow>
      (\<forall>y\<in>set (before p @ (if side then inorder c else [])). cmp (key y) val < 0) \<and>
      (\<forall>y\<in>set ((if side then [] else inorder c) @ after p). cmp val (key y) < 0)"
proof -
  from assms(1) have t: "avl t" "ordered cmp key (inorder t)" "list_all (valid \<circ> key) (inorder t)"
    by (simp_all add: bavl_inv_def)
  from avl_search [OF t(1) assms(3,4)] obtain l x b r where c: "c = BNode l x b r"
    "res = None \<longleftrightarrow> cmp val (key x) = 0" "\<And>side. res = Some side \<Longrightarrow> link c side = Null"
    "avl c" "avl_path p (height c)" "inorder t = before p @ inorder l @ x # inorder r @ after p"
    by blast
  show ?thesis
  proof (rule that [OF c(1,4,5,6) _ c(3)])
    show "key x = val" if "res = None"
      using that c(2,6) t(3) assms(2) cmp_zero [of val "key x"] by simp
  qed (use search_between [OF assms(4,2) t(3,2) assms(3)] in auto)
qed

lemma lookup_exact:
  assumes "bavl_inv cmp valid key t" "valid k"
  shows "BAVL_LookupExact cmp key t k = Some x \<longleftrightarrow> x \<in> elems t \<and> key x = k"
proof (cases "t = Null")
  case True
  then show ?thesis by (simp add: BAVL_LookupExact_def elems_def)
next
  case False
  obtain c p res where s: "BAVL_search cmp key k t [] = (c, p, res)" by (metis prod_cases3)
  from search_result [OF assms False s] obtain l y b r where c: "c = BNode l y b r"
    "inorder t = before p @ inorder l @ y # inorder r @ after p" "res = None \<Longrightarrow> key y = k"
    and btw: "\<And>side. res = Some side \<Longrightarrow>
      (\<forall>z\<in>set (before p @ (if side then inorder c else [])). cmp (key z) k < 0) \<and>
      (\<forall>z\<in>set ((if side then [] else inorder c) @ after p). cmp k (key z) < 0)"
    by metis
  show ?thesis
  proof (cases res)
    case None
    with s c have "BAVL_LookupExact cmp key t k = Some y" "key y = k" "y \<in> elems t"
      by (auto simp: BAVL_LookupExact_def elems_def)
    then show ?thesis
      using elems_keys_unique [OF assms(1)] by auto
  next
    case (Some side)
    have "key z \<noteq> k" if "z \<in> elems t" for z
    proof -
      have "z \<in> set (before p @ inorder c @ after p)"
        using that c by (simp add: elems_def)
      then have "cmp (key z) k < 0 \<or> cmp k (key z) < 0"
        using btw [OF Some] by (cases side) auto
      then show ?thesis
        using cmp_zero [of k k] assms(2) by auto
    qed
    with s Some show ?thesis
      by (auto simp: BAVL_LookupExact_def)
  qed
qed

lemma insert_new:
  assumes "bavl_inv cmp valid key t" "valid (key x)" "key x \<notin> key ` elems t"
  shows "\<exists>t' r. BAVL_Insert cmp key t x = (t', r, True) \<and> bavl_inv cmp valid key t' \<and>
    elems t' = insert x (elems t)"
proof (cases "t = Null")
  case True
  with assms(2) show ?thesis
    by (simp add: BAVL_Insert_def bavl_inv_def ordered_def elems_def)
next
  case False
  obtain c p res where s: "BAVL_search cmp key (key x) t [] = (c, p, res)" by (metis prod_cases3)
  from search_result [OF assms(1,2) False s] obtain l y b r where c: "c = BNode l y b r"
    "avl c" "avl_path p (height c)" "inorder t = before p @ inorder c @ after p" "res = None \<Longrightarrow> key y = key x"
    and leaf: "\<And>side. res = Some side \<Longrightarrow> link c side = Null"
    and btw: "\<And>side. res = Some side \<Longrightarrow>
      (\<forall>z\<in>set (before p @ (if side then inorder c else [])). cmp (key z) (key x) < 0) \<and>
      (\<forall>z\<in>set ((if side then [] else inorder c) @ after p). cmp (key x) (key z) < 0)"
    by (metis append.assoc append_Cons inorder.simps(2))
  have "y \<in> elems t"
    using c by (simp add: elems_def)
  with c(5) assms(3) obtain side where side: "res = Some side"
    by (metis imageI option.exhaust)
  let ?xs = "before p @ (if side then inorder c else [])" and ?ys = "(if side then [] else inorder c) @ after p"
  have ins: "BAVL_Insert cmp key t x = (fst (BAVL_Insert cmp key t x), bnode c, True)"
    using False s side by (simp add: BAVL_Insert_def)
  have "avl (fst (BAVL_Insert cmp key t x))" "inorder (fst (BAVL_Insert cmp key t x)) = ?xs @ x # ?ys"
    using insert_at [OF c(2,3) leaf [OF side] c(1), of x] False s side by (simp_all add: BAVL_Insert_def)
  moreover have "inorder t = ?xs @ ?ys"
    using c(4) by simp
  ultimately show ?thesis
    using assms(1,2) btw [OF side] ins ordered_split [of ?xs x ?ys]
    by (intro exI conjI) (assumption | simp add: bavl_inv_def elems_def list_all_append; blast)+
qed

lemma insert_old:
  assumes "bavl_inv cmp valid key t" "valid (key x)" "key x \<in> key ` elems t"
  shows "\<exists>r. BAVL_Insert cmp key t x = (t, r, False)"
proof -
  obtain y where y: "y \<in> elems t" "key y = key x"
    using assms(3) by auto
  then have "t \<noteq> Null" "BAVL_LookupExact cmp key t (key x) = Some y"
    using lookup_exact [OF assms(1,2)] by (auto simp: elems_def)
  then show ?thesis
    by (auto simp: BAVL_Insert_def BAVL_LookupExact_def split: prod.splits option.splits)
qed

lemma delete_key:
  assumes "bavl_inv cmp valid key t" "k \<in> key ` elems t"
  shows "bavl_inv cmp valid key (BAVL_Remove (BAVL_at cmp key t k)) \<and>
    elems (BAVL_Remove (BAVL_at cmp key t k)) = {x \<in> elems t. key x \<noteq> k}"
proof -
  obtain x where x: "x \<in> elems t" "key x = k"
    using assms(2) by auto
  then have t: "t \<noteq> Null" and v: "valid k"
    using assms(1) by (auto simp: elems_def bavl_inv_def list_all_iff)
  obtain c p res where s: "BAVL_search cmp key k t [] = (c, p, res)" by (metis prod_cases3)
  from search_result [OF assms(1) v t s] obtain l y b r where c: "c = BNode l y b r" "avl c"
    "avl_path p (height c)" "inorder t = before p @ inorder l @ y # inorder r @ after p" "res = None \<Longrightarrow> key y = k"
    by metis
  have "res = None"
    using lookup_exact [OF assms(1) v, of x] x s by (auto simp: BAVL_LookupExact_def split: option.splits)
  with c have "key y = k" by simp
  then have "\<And>z. z \<in> elems t \<Longrightarrow> key z = k \<longleftrightarrow> z = y"
    using elems_keys_unique [OF assms(1)] c(4) by (auto simp: elems_def)
  moreover have "BAVL_at cmp key t k = (c, p)"
    using s by (simp add: BAVL_at_def)
  moreover have "y \<notin> set (before p @ inorder l @ inorder r @ after p)"
    using assms(1) c(4) ordered_distinct [of "inorder t"] by (auto simp: bavl_inv_def)
  moreover have "ordered cmp key (before p @ inorder l @ inorder r @ after p)"
    using assms(1) c(4) ordered_split [of "before p @ inorder l" y "inorder r @ after p"]
    by (simp add: bavl_inv_def)
  ultimately show ?thesis
    using BAVL_Remove_ok [of l y b r p] c assms(1)
    by (auto simp: bavl_inv_def elems_def)
qed

end

sublocale bavl_keyed \<subseteq> dict: dictionary "bavl_inv cmp valid key" elems key valid
  "BAVL_LookupExact cmp key" "BAVL_Insert cmp key" "\<lambda>t k. BAVL_Remove (BAVL_at cmp key t k)"
  using lookup_exact insert_new insert_old delete_key by unfold_locales blast+


section \<open>Neighbours, the self-check and the height\<close>

lemma inorder_Nil [simp]: "inorder t = [] \<longleftrightarrow> t = Null"
  by (cases t) auto

lemma BAVL_GetFirst_hd: "BAVL_GetFirst t = (if t = Null then None else Some (hd (inorder t)))"
proof (induction t)
  case (BNode l x b r)
  then show ?case by (simp add: hd_append)
qed simp

lemma BAVL_GetLast_last: "BAVL_GetLast t = (if t = Null then None else Some (last (inorder t)))"
proof (induction t)
  case (BNode l x b r)
  then show ?case by simp
qed simp

lemma BAVL_climb_after: "BAVL_climb True path = (case after path of [] \<Rightarrow> None | y # _ \<Rightarrow> Some y)"
  by (induction path rule: after.induct) auto

lemma BAVL_climb_before: "BAVL_climb False path = (if before path = [] then None else Some (last (before path)))"
  by (induction path rule: before.induct) auto

lemma BAVL_GetNext_eq:
  "BAVL_GetNext (BNode l x b r, path) = (case inorder r @ after path of [] \<Rightarrow> None | y # _ \<Rightarrow> Some y)"
  by (cases "inorder r") (auto simp: BAVL_GetNext_def BAVL_GetFirst_hd BAVL_climb_after)

lemma BAVL_GetPrev_eq:
  "BAVL_GetPrev (BNode l x b r, path) =
     (if before path @ inorder l = [] then None else Some (last (before path @ inorder l)))"
  by (auto simp: BAVL_GetPrev_def BAVL_GetLast_last BAVL_climb_before)

lemma bnode_inorder: "bnode t = Some y \<Longrightarrow> y \<in> set (inorder t)"
  by (cases t) auto

lemma height_exp: "avl t \<Longrightarrow> height t = int h \<Longrightarrow> 2 ^ (h div 2) \<le> length (inorder t) + 1"
proof (induction h arbitrary: t rule: less_induct)
  case (less h)
  show ?case
  proof (cases "h < 2")
    case False
    then obtain l x b r where t: "t = BNode l x b r"
      using less.prems by (cases t) auto
    obtain k where k: "h = k + 2"
      using False by (metis add.commute le_Suc_ex not_less)
    have sub: "2 ^ (k div 2) \<le> length (inorder u) + 1" if "u = l \<or> u = r" for u
    proof -
      have "avl u" "int k \<le> height u" "height u < int h"
        using that less.prems t k by (auto simp: max_def split: if_splits)
      then have "2 ^ (nat (height u) div 2) \<le> length (inorder u) + 1"
        by (intro less.IH) (auto simp: nat_less_iff)
      moreover have "(2 :: nat) ^ (k div 2) \<le> 2 ^ (nat (height u) div 2)"
        using \<open>int k \<le> height u\<close> by (intro power_increasing div_le_mono) auto
      ultimately show ?thesis by linarith
    qed
    show ?thesis
      using sub [of l] sub [of r] k t by simp
  qed (auto simp: less_Suc_eq numeral_2_eq_2)
qed

lemma avl_close_iff: "avl (close t path) \<Longrightarrow> avl t \<and> avl_path path (height t)"
proof (induction path arbitrary: t)
  case (Cons f path)
  then have "avl (plug t f) \<and> avl_path path (height (plug t f))"
    by simp
  then show ?case
    by (cases f) (auto simp: BAVL_OPTNEG_def max.commute split: if_splits)
qed simp

lemma BAVL_entry_close:
  "x \<in> set (inorder t) \<Longrightarrow> \<exists>l b r path'. BAVL_entry x t path = Some (BNode l x b r, path') \<and> close (BNode l x b r) path' = close t path"
proof (induction t arbitrary: path)
  case (BNode l y b r)
  show ?case
  proof (cases "x = y")
    case False
    then consider "x \<in> set (inorder l)" | "x \<notin> set (inorder l)" "x \<in> set (inorder r)"
      using BNode.prems by auto
    then show ?thesis
    proof cases
      case 1
      from BNode.IH(1) [OF 1, of "Frame False y b r # path"] False show ?thesis
        by (auto split: option.split)
    next
      case 2
      have "BAVL_entry x l p = None" for p
        using 2(1) by (induction l arbitrary: p) auto
      with BNode.IH(2) [OF 2(2), of "Frame True y b l # path"] False show ?thesis
        by auto
    qed
  qed auto
qed simp

context bavl_keyed
begin

lemma bavl_inv_links:
  assumes "bavl_inv cmp valid key (BNode l x b r)"
  shows "bavl_inv cmp valid key l" "bavl_inv cmp valid key r"
    "bnode l = Some y \<Longrightarrow> cmp (key y) (key x) = - 1" "bnode r = Some z \<Longrightarrow> cmp (key z) (key x) = 1"
proof -
  show "bavl_inv cmp valid key l" "bavl_inv cmp valid key r"
    using assms by (auto simp: bavl_inv_def ordered_def sorted_wrt_append)
  have valid: "valid (key x)" "\<forall>u\<in>set (inorder l) \<union> set (inorder r). valid (key u)"
    using assms by (auto simp: bavl_inv_def list_all_iff)
  show "cmp (key y) (key x) = - 1" if "bnode l = Some y"
  proof -
    have "y \<in> set (inorder l)"
      using that by (rule bnode_inorder)
    then show ?thesis
      using assms valid cmp_range [of "key y" "key x"]
      by (force simp: bavl_inv_def ordered_def sorted_wrt_append)
  qed
  show "cmp (key z) (key x) = 1" if "bnode r = Some z"
  proof -
    have z: "z \<in> set (inorder r)"
      using that by (rule bnode_inorder)
    then have "cmp (key x) (key z) < 0"
      using assms by (auto simp: bavl_inv_def ordered_def sorted_wrt_append)
    then show ?thesis
      using z valid cmp_range [of "key z" "key x"] cmp_neg_pos [of "key x" "key z"] by auto
  qed
qed

lemma assert_recurser_height:
  "bavl_inv cmp valid key t \<Longrightarrow> BAVL_assert_recurser cmp key t = Some (height t)"
proof (induction t)
  case (BNode l x b r)
  note links = bavl_inv_links [OF BNode.prems]
  have "b = height r - height l" "- 1 \<le> b" "b \<le> 1"
    using BNode.prems by (auto simp: bavl_inv_def)
  with BNode.IH links show ?case
    by (auto split: option.splits)
qed simp

lemma lookup_nearest:
  assumes "bavl_inv cmp valid key t" "valid v" "t \<noteq> Null"
  shows "\<exists>y\<in>elems t. BAVL_Lookup cmp key t v = Some y \<and>
    (key y = v \<or> v \<notin> key ` elems t \<and>
      (cmp (key y) v < 0 \<and> (\<forall>z\<in>elems t. cmp (key z) v < 0 \<longrightarrow> z = y \<or> cmp (key z) (key y) < 0) \<or>
       cmp v (key y) < 0 \<and> (\<forall>z\<in>elems t. cmp v (key z) < 0 \<longrightarrow> z = y \<or> cmp (key y) (key z) < 0)))"
proof -
  obtain c p res where s: "BAVL_search cmp key v t [] = (c, p, res)" by (metis prod_cases3)
  from search_result [OF assms s] obtain l y b r where c: "c = BNode l y b r"
    "inorder t = before p @ inorder l @ y # inorder r @ after p" "res = None \<Longrightarrow> key y = v"
    "\<And>side. res = Some side \<Longrightarrow> link c side = Null"
    and btw: "\<And>side. res = Some side \<Longrightarrow>
      (\<forall>z\<in>set (before p @ (if side then inorder c else [])). cmp (key z) v < 0) \<and>
      (\<forall>z\<in>set ((if side then [] else inorder c) @ after p). cmp v (key z) < 0)"
    by metis
  have y: "y \<in> elems t" "BAVL_Lookup cmp key t v = Some y"
    using s c by (auto simp: BAVL_Lookup_def elems_def)
  have irrefl: "\<not> (cmp (key z) v < 0 \<and> cmp v (key z) < 0)" if "z \<in> elems t" for z
    using that assms(1,2) cmp_neg_pos [of "key z" v] by (auto simp: bavl_inv_def elems_def list_all_iff)
  have ord: "ordered cmp key (inorder t)"
    using assms(1) by (simp add: bavl_inv_def)
  show ?thesis
  proof (cases res)
    case None
    with y c show ?thesis by auto
  next
    case (Some side)
    then have "v \<notin> key ` elems t"
      using s lookup_exact [OF assms(1,2)] by (force simp: BAVL_LookupExact_def)
    moreover have "cmp (key y) v < 0 \<and> (\<forall>z\<in>elems t. cmp (key z) v < 0 \<longrightarrow> z = y \<or> cmp (key z) (key y) < 0)" if side
      using that Some btw [OF Some] c ord irrefl
      by (auto simp: elems_def ordered_def sorted_wrt_append)
    moreover have "cmp v (key y) < 0 \<and> (\<forall>z\<in>elems t. cmp v (key z) < 0 \<longrightarrow> z = y \<or> cmp (key y) (key z) < 0)" if "\<not> side"
      using that Some btw [OF Some] c ord irrefl
      by (auto simp: elems_def ordered_def sorted_wrt_append)
    ultimately show ?thesis
      using y by blast
  qed
qed

lemma remove_node:
  assumes "bavl_inv cmp valid key (close (BNode l x b r) path)"
  shows "bavl_inv cmp valid key (BAVL_Remove (BNode l x b r, path)) \<and>
    inorder (BAVL_Remove (BNode l x b r, path)) = before path @ inorder l @ inorder r @ after path"
proof -
  from assms have "ordered cmp key ((before path @ inorder l) @ x # (inorder r @ after path))"
    by (simp add: bavl_inv_def inorder_close)
  then have "ordered cmp key (before path @ inorder l @ inorder r @ after path)"
    using ordered_split [of "before path @ inorder l" x "inorder r @ after path"] by simp
  with assms avl_close_iff [of "BNode l x b r" path] BAVL_Remove_ok [of l x b r path] show ?thesis
    by (simp add: bavl_inv_def inorder_close)
qed

lemma remove_entry:
  assumes "bavl_inv cmp valid key t" "x \<in> elems t"
  shows "\<exists>ref. BAVL_entry x t [] = Some ref \<and> bavl_inv cmp valid key (BAVL_Remove ref) \<and>
    elems (BAVL_Remove ref) = elems t - {x}"
proof -
  obtain l b r path where e: "BAVL_entry x t [] = Some (BNode l x b r, path)" "close (BNode l x b r) path = t"
    using BAVL_entry_close [of x t "[]"] assms(2) by (auto simp: elems_def)
  have "distinct (inorder t)"
    using ordered_distinct [of "inorder t"] assms(1) by (simp add: bavl_inv_def distinct_map)
  moreover have t: "inorder t = before path @ inorder l @ x # inorder r @ after path"
    using e(2) inorder_close [of "BNode l x b r" path] by simp
  ultimately have "elems (BAVL_Remove (BNode l x b r, path)) = elems t - {x}"
    using remove_node [of l x b r path] assms(1) e(2) unfolding elems_def t by auto
  with e assms(1) remove_node [of l x b r path] show ?thesis
    by simp
qed

end

text \<open>C10. On a balanced search tree \<open>BAVL_Insert\<close> succeeds exactly when no element has the new
  key; the result is balanced and ordered, and holds the new element besides the old ones, or is
  the old tree.\<close>

theorem BAVL_Insert_correct:
  assumes "comparator cmp valid" "bavl_inv cmp valid key t" "valid (key x)"
  shows "case BAVL_Insert cmp key t x of (t', ref, inserted) \<Rightarrow>
    bavl_inv cmp valid key t' \<and> (inserted \<longleftrightarrow> key x \<notin> key ` elems t) \<and>
    elems t' = (if inserted then insert x (elems t) else elems t)"
proof (cases "key x \<in> key ` elems t")
  case True
  with bavl_keyed.insert_old [OF bavl_keyed.intro [OF assms(1)] assms(2,3)] assms(2) show ?thesis by auto
next
  case False
  with bavl_keyed.insert_new [OF bavl_keyed.intro [OF assms(1)] assms(2,3)] show ?thesis by auto
qed

theorem BAVL_Insert_correct_witness:
  "case BAVL_Insert (\<lambda>a b :: u16. B_COMPARE a b) fst (BNode Null (7, True) 1 (BNode Null (9, False) 0 Null)) (12, True) of
    (t', ref, inserted) \<Rightarrow> inserted \<and> elems t' = {(12, True), (7, True), (9, False)}"
  using BAVL_Insert_correct [OF u16_cmp.comparator_axioms,
    of fst "BNode Null (7, True) 1 (BNode Null (9, False) 0 Null)" "(12, True)"]
  by (auto simp: bavl_inv_def ordered_def elems_def B_COMPARE_def)

text \<open>C11. Removing the node a pointer refers to leaves a balanced search tree with the same
  elements in the same order, the node alone missing, also where the node has two subtrees.\<close>

theorem BAVL_Remove_correct:
  assumes "comparator cmp valid" "bavl_inv cmp valid key (close (BNode l x b r) path)"
  shows "let t = close (BNode l x b r) path; t' = BAVL_Remove (BNode l x b r, path) in
    bavl_inv cmp valid key t' \<and>
    (\<exists>xs ys. inorder t = xs @ x # ys \<and> inorder t' = xs @ ys)"
  using bavl_keyed.remove_node [OF bavl_keyed.intro [OF assms(1)] assms(2)]
  by (auto simp: Let_def inorder_close intro: exI [of _ "before path @ inorder l"])

theorem BAVL_Remove_correct_witness:
  "inorder (BAVL_Remove (BNode (BNode Null (3, 0) 0 Null) (5, 1) 0 (BNode Null (9, 2) 0 Null), [])) =
    [(3 :: u16, 0 :: nat), (9, 2)]"
  using BAVL_Remove_correct [OF u16_cmp.comparator_axioms,
    of fst "BNode Null (3, 0) 0 Null" "(5, 1 :: nat)" 0 "BNode Null (9, 2) 0 Null" "[]"]
  by (auto simp: Let_def bavl_inv_def ordered_def B_COMPARE_def Cons_eq_append_conv append_eq_Cons_conv)

text \<open>C33. In a nonempty tree \<open>BAVL_Lookup\<close> returns the element with the value if there is one,
  else a neighbour of the place it would have: the greatest smaller or the smallest greater
  element.  \<open>BAVL_LookupExact\<close> returns the element with the value or nothing.\<close>

theorem BAVL_Lookup_correct:
  assumes "comparator cmp valid" "bavl_inv cmp valid key t" "valid v"
  shows "(t = Null \<and> BAVL_Lookup cmp key t v = None \<or> (\<exists>y\<in>elems t. BAVL_Lookup cmp key t v = Some y \<and>
    (key y = v \<or> v \<notin> key ` elems t \<and>
      (cmp (key y) v < 0 \<and> (\<forall>z\<in>elems t. cmp (key z) v < 0 \<longrightarrow> z = y \<or> cmp (key z) (key y) < 0) \<or>
       cmp v (key y) < 0 \<and> (\<forall>z\<in>elems t. cmp v (key z) < 0 \<longrightarrow> z = y \<or> cmp (key y) (key z) < 0))))) \<and>
    (\<forall>x. BAVL_LookupExact cmp key t v = Some x \<longleftrightarrow> x \<in> elems t \<and> key x = v)"
proof (cases "t = Null")
  case True
  then show ?thesis
    using bavl_keyed.lookup_exact [OF bavl_keyed.intro [OF assms(1)] assms(2,3)] by (simp add: BAVL_Lookup_def)
next
  case False
  show ?thesis
    using bavl_keyed.lookup_exact [OF bavl_keyed.intro [OF assms(1)] assms(2,3)]
      bavl_keyed.lookup_nearest [OF bavl_keyed.intro [OF assms(1)] assms(2,3) False] by blast
qed

theorem BAVL_Lookup_correct_witness:
  "BAVL_LookupExact (\<lambda>a b :: u16. B_COMPARE a b) fst (BNode Null (7, True) 1 (BNode Null (9, False) 0 Null)) 9 = Some (9, False)"
  using BAVL_Lookup_correct [OF u16_cmp.comparator_axioms,
    of fst "BNode Null (7, True) 1 (BNode Null (9, False) 0 Null)" 9]
  by (auto simp: bavl_inv_def ordered_def elems_def B_COMPARE_def)

text \<open>\<open>BAVL_GetNext\<close> and \<open>BAVL_GetPrev\<close> return the neighbours of a node in the order of the
  tree, and \<open>NULL\<close> at its ends.\<close>

theorem BAVL_GetNext_GetPrev:
  "let xs = inorder (close (BNode l x b r) path); i = length (before path @ inorder l) in
    xs ! i = x \<and>
    BAVL_GetNext (BNode l x b r, path) = (if i + 1 < length xs then Some (xs ! (i + 1)) else None) \<and>
    BAVL_GetPrev (BNode l x b r, path) = (if i = 0 then None else Some (xs ! (i - 1)))"
proof -
  have hd_case: "(case ys of [] \<Rightarrow> None | y # _ \<Rightarrow> Some y) = (if 0 < length ys then Some (ys ! 0) else None)" for ys :: "'a list"
    by (cases ys) auto
  show ?thesis
    by (simp add: Let_def inorder_close BAVL_GetNext_eq BAVL_GetPrev_eq hd_case nth_append last_conv_nth)
      auto
qed

end
