(* ===== verification/DList.thy ===== *)
theory DList
  imports Prelude
begin

text \<open>
  The intrusive doubly linked lists: \<open>structure/LinkedList1.h\<close>, which holds the clients of
  tun2socks and the connections of the udpgw client, and \<open>structure/SLinkedList_impl.h\<close>, which
  holds the pending jobs.  A node is an address; the \<open>n\<close>/\<open>next\<close> and \<open>p\<close>/\<open>prev\<close> members of all nodes
  are two maps of a store, \<open>None\<close> being the null pointer.  The operations are the pointer
  updates of the code, in its order.  The predicates \<open>LinkedList1_is\<close> and \<open>SLinkedList_is\<close> say that
  a store holds a given list of nodes, and every operation is shown to implement its list
  function on it.
\<close>

type_synonym node = nat

record store =
  nxt :: "node \<Rightarrow> node option"
  prv :: "node \<Rightarrow> node option"

record LinkedList1 =
  first :: "node option"
  last_node :: "node option"

definition set_nxt :: "node \<Rightarrow> node option \<Rightarrow> store \<Rightarrow> store" where
  "set_nxt x v s = s\<lparr>nxt := (nxt s)(x := v)\<rparr>"

definition set_prv :: "node \<Rightarrow> node option \<Rightarrow> store \<Rightarrow> store" where
  "set_prv x v s = s\<lparr>prv := (prv s)(x := v)\<rparr>"

section \<open>LinkedList1\<close>

definition LinkedList1_Init :: LinkedList1 where
  "LinkedList1_Init = \<lparr>first = None, last_node = None\<rparr>"

definition LinkedList1_IsEmpty :: "LinkedList1 \<Rightarrow> bool" where
  "LinkedList1_IsEmpty l = (first l = None)"

definition LinkedList1_GetFirst :: "LinkedList1 \<Rightarrow> node option" where
  "LinkedList1_GetFirst l = first l"

definition LinkedList1_GetLast :: "LinkedList1 \<Rightarrow> node option" where
  "LinkedList1_GetLast l = last_node l"

definition LinkedList1_Prepend :: "LinkedList1 \<times> store \<Rightarrow> node \<Rightarrow> LinkedList1 \<times> store" where
  "LinkedList1_Prepend = (\<lambda>(l, s) x.
     let s1 = set_nxt x (first l) (set_prv x None s) in
     case first l of
       Some y \<Rightarrow> (l\<lparr>first := Some x\<rparr>, set_prv y (Some x) s1)
     | None \<Rightarrow> (l\<lparr>first := Some x, last_node := Some x\<rparr>, s1))"

definition LinkedList1_Append :: "LinkedList1 \<times> store \<Rightarrow> node \<Rightarrow> LinkedList1 \<times> store" where
  "LinkedList1_Append = (\<lambda>(l, s) x.
     let s1 = set_nxt x None (set_prv x (last_node l) s) in
     case last_node l of
       Some y \<Rightarrow> (l\<lparr>last_node := Some x\<rparr>, set_nxt y (Some x) s1)
     | None \<Rightarrow> (l\<lparr>first := Some x, last_node := Some x\<rparr>, s1))"

definition LinkedList1_InsertBefore :: "LinkedList1 \<times> store \<Rightarrow> node \<Rightarrow> node \<Rightarrow> LinkedList1 \<times> store" where
  "LinkedList1_InsertBefore = (\<lambda>(l, s) x target.
     let s1 = set_nxt x (Some target) (set_prv x (prv s target) s) in
     case prv s1 target of
       Some y \<Rightarrow> (l, set_prv target (Some x) (set_nxt y (Some x) s1))
     | None \<Rightarrow> (l\<lparr>first := Some x\<rparr>, set_prv target (Some x) s1))"

definition LinkedList1_InsertAfter :: "LinkedList1 \<times> store \<Rightarrow> node \<Rightarrow> node \<Rightarrow> LinkedList1 \<times> store" where
  "LinkedList1_InsertAfter = (\<lambda>(l, s) x target.
     let s1 = set_nxt x (nxt s target) (set_prv x (Some target) s) in
     case nxt s1 target of
       Some y \<Rightarrow> (l, set_nxt target (Some x) (set_prv y (Some x) s1))
     | None \<Rightarrow> (l\<lparr>last_node := Some x\<rparr>, set_nxt target (Some x) s1))"

definition LinkedList1_Remove :: "LinkedList1 \<times> store \<Rightarrow> node \<Rightarrow> LinkedList1 \<times> store" where
  "LinkedList1_Remove = (\<lambda>(l, s) x.
     let (l1, s1) = (case prv s x of
           Some y \<Rightarrow> (l, set_nxt y (nxt s x) s)
         | None \<Rightarrow> (l\<lparr>first := nxt s x\<rparr>, s))
     in case nxt s1 x of
          Some z \<Rightarrow> (l1, set_prv z (prv s1 x) s1)
        | None \<Rightarrow> (l1\<lparr>last_node := prv s1 x\<rparr>, s1))"

definition LinkedList1_InsertListAfter ::
  "LinkedList1 \<times> store \<Rightarrow> LinkedList1 \<Rightarrow> node option \<Rightarrow> LinkedList1 \<times> store" where
  "LinkedList1_InsertListAfter = (\<lambda>(l, s) ins_list target.
     case (first ins_list, last_node ins_list) of
       (Some f, Some e) \<Rightarrow>
         (let t_next = (case target of Some t \<Rightarrow> nxt s t | None \<Rightarrow> first l);
              s1 = set_nxt e t_next (set_prv f target s);
              (l2, s2) = (case target of
                  Some t \<Rightarrow> (l, set_nxt t (Some f) s1)
                | None \<Rightarrow> (l\<lparr>first := Some f\<rparr>, s1))
          in case t_next of
               Some n \<Rightarrow> (l2, set_prv n (Some e) s2)
             | None \<Rightarrow> (l2\<lparr>last_node := Some e\<rparr>, s2))
     | _ \<Rightarrow> (l, s))"

definition LinkedList1Node_Next :: "store \<Rightarrow> node \<Rightarrow> node option" where
  "LinkedList1Node_Next s x = nxt s x"

definition LinkedList1Node_Prev :: "store \<Rightarrow> node \<Rightarrow> node option" where
  "LinkedList1Node_Prev s x = prv s x"

section \<open>SLinkedList\<close>

text \<open>The pending-job lists are built without the \<open>last\<close> member, so the list is its \<open>first\<close>
  pointer; the \<open>prev\<close> member of the first node is never read.\<close>

type_synonym SLinkedList = "node option"

definition SLinkedListMarkRemoved :: "store \<Rightarrow> node \<Rightarrow> store" where
  "SLinkedListMarkRemoved s x = set_nxt x (Some x) s"

definition SLinkedListIsRemoved :: "store \<Rightarrow> node \<Rightarrow> bool" where
  "SLinkedListIsRemoved s x = (nxt s x = Some x)"

definition SLinkedList_Init :: SLinkedList where
  "SLinkedList_Init = None"

definition SLinkedList_Next :: "SLinkedList \<times> store \<Rightarrow> node \<Rightarrow> node option" where
  "SLinkedList_Next = (\<lambda>(l, s) x. nxt s x)"

definition SLinkedList_Prev :: "SLinkedList \<times> store \<Rightarrow> node \<Rightarrow> node option" where
  "SLinkedList_Prev = (\<lambda>(l, s) x. if l = Some x then None else prv s x)"

definition SLinkedList_Prepend :: "SLinkedList \<times> store \<Rightarrow> node \<Rightarrow> SLinkedList \<times> store" where
  "SLinkedList_Prepend = (\<lambda>(l, s) x.
     let s1 = set_nxt x l s in
     (Some x, case l of Some y \<Rightarrow> set_prv y (Some x) s1 | None \<Rightarrow> s1))"

definition SLinkedList_Remove :: "SLinkedList \<times> store \<Rightarrow> node \<Rightarrow> SLinkedList \<times> store" where
  "SLinkedList_Remove = (\<lambda>(l, s) x.
     if l \<noteq> Some x then
       (let s1 = (case prv s x of Some y \<Rightarrow> set_nxt y (nxt s x) s | None \<Rightarrow> s) in
        (l, case nxt s1 x of Some z \<Rightarrow> set_prv z (prv s1 x) s1 | None \<Rightarrow> s1))
     else (nxt s x, s))"

definition SLinkedList_RemoveFirst :: "SLinkedList \<times> store \<Rightarrow> SLinkedList \<times> store" where
  "SLinkedList_RemoveFirst = (\<lambda>(l, s). (case l of Some x \<Rightarrow> nxt s x | None \<Rightarrow> None, s))"

definition SLinkedList_First :: "SLinkedList \<times> store \<Rightarrow> node option" where
  "SLinkedList_First = (\<lambda>(l, s). l)"

definition SLinkedList_IsEmpty :: "SLinkedList \<times> store \<Rightarrow> bool" where
  "SLinkedList_IsEmpty = (\<lambda>(l, s). l = None)"

section \<open>Segments\<close>

text \<open>The node a nonempty list starts or ends with, else the given pointer.\<close>

fun hd_or :: "node option \<Rightarrow> node list \<Rightarrow> node option" where
  "hd_or n [] = n"
| "hd_or n (x # xs) = Some x"

definition last_or :: "node option \<Rightarrow> node list \<Rightarrow> node option" where
  "last_or p xs = (if xs = [] then p else Some (last xs))"

text \<open>The nodes \<open>xs\<close> are linked one after the other, entered from \<open>p\<close> and left to \<open>n\<close>.\<close>

fun seg :: "store \<Rightarrow> node option \<Rightarrow> node list \<Rightarrow> node option \<Rightarrow> bool" where
  "seg s p [] n = True"
| "seg s p (x # xs) n = (prv s x = p \<and> nxt s x = hd_or n xs \<and> seg s (Some x) xs n)"

definition LinkedList1_is :: "LinkedList1 \<times> store \<Rightarrow> node list \<Rightarrow> bool" where
  "LinkedList1_is = (\<lambda>(l, s) xs.
     distinct xs \<and> first l = hd_or None xs \<and> last_node l = last_or None xs \<and> seg s None xs None)"

definition SLinkedList_is :: "SLinkedList \<times> store \<Rightarrow> node list \<Rightarrow> bool" where
  "SLinkedList_is = (\<lambda>(l, s) xs. distinct xs \<and> l = hd_or None xs \<and>
     (case xs of [] \<Rightarrow> True | x # ys \<Rightarrow> nxt s x = hd_or None ys \<and> seg s (Some x) ys None))"

lemma set_simps [simp]:
  "nxt (set_nxt x v s) = (nxt s)(x := v)" "prv (set_nxt x v s) = prv s"
  "prv (set_prv x v s) = (prv s)(x := v)" "nxt (set_prv x v s) = nxt s"
  by (simp_all add: set_nxt_def set_prv_def)

lemma last_or_simps [simp]:
  "last_or p [] = p" "last_or p (x # xs) = last_or (Some x) xs" "last_or p (xs @ ys) = last_or (last_or p xs) ys"
  by (auto simp: last_or_def)

lemma hd_or_append [simp]: "hd_or n (xs @ ys) = hd_or (hd_or n ys) xs"
  by (cases xs) auto

lemma hd_or_None: "hd_or None xs = None \<longleftrightarrow> xs = []" "last_or None xs = None \<longleftrightarrow> xs = []"
  by (cases xs; simp) (simp add: last_or_def)

lemma seg_append [simp]:
  "seg s p (xs @ ys) n \<longleftrightarrow> seg s p xs (hd_or n ys) \<and> seg s (last_or p xs) ys n"
  by (induction xs arbitrary: p) auto

lemma seg_frame [simp]:
  "x \<notin> set xs \<Longrightarrow> seg (set_nxt x v s) p xs n = seg s p xs n"
  "x \<notin> set xs \<Longrightarrow> seg (set_prv x v s) p xs n = seg s p xs n"
  by (induction xs arbitrary: p) auto

text \<open>Redirecting the pointer out of a segment, and the pointer back out of it.\<close>

lemma seg_set_nxt:
  "distinct (xs @ [y]) \<Longrightarrow> seg (set_nxt y n' s) p (xs @ [y]) n' \<longleftrightarrow>
     seg s p xs (Some y) \<and> prv s y = last_or p xs"
  by auto

lemma seg_set_prv:
  "distinct (y # xs) \<Longrightarrow> seg (set_prv y p' s) p' (y # xs) n \<longleftrightarrow> nxt s y = hd_or n xs \<and> seg s (Some y) xs n"
  by auto

lemma last_or_cases: "last_or p xs = q \<longleftrightarrow> (xs = [] \<and> p = q \<or> (\<exists>ys y. xs = ys @ [y] \<and> q = Some y))"
  by (cases xs rule: rev_cases) auto

lemma hd_or_cases: "hd_or n xs = q \<longleftrightarrow> (xs = [] \<and> n = q \<or> (\<exists>y ys. xs = y # ys \<and> q = Some y))"
  by (cases xs) auto

section \<open>The operations on the list of nodes\<close>

lemma LinkedList1_Init_is: "LinkedList1_is (LinkedList1_Init, s) []"
  by (simp add: LinkedList1_is_def LinkedList1_Init_def)

lemma LinkedList1_IsEmpty_is: "LinkedList1_is (l, s) xs \<Longrightarrow> LinkedList1_IsEmpty l \<longleftrightarrow> xs = []"
  by (auto simp: LinkedList1_is_def LinkedList1_IsEmpty_def hd_or_None)

lemma LinkedList1_Get_is:
  assumes "LinkedList1_is (l, s) xs"
  shows "LinkedList1_GetFirst l = (if xs = [] then None else Some (hd xs))"
    "LinkedList1_GetLast l = (if xs = [] then None else Some (last xs))"
  using assms by (cases xs; simp add: LinkedList1_is_def LinkedList1_GetFirst_def LinkedList1_GetLast_def last_or_def)+

lemma LinkedList1_Prepend_is:
  assumes "LinkedList1_is (l, s) xs" "x \<notin> set xs"
  shows "LinkedList1_is (LinkedList1_Prepend (l, s) x) (x # xs)"
  using assms by (cases xs) (auto simp: LinkedList1_is_def LinkedList1_Prepend_def Let_def)

lemma LinkedList1_Append_is:
  assumes "LinkedList1_is (l, s) xs" "x \<notin> set xs"
  shows "LinkedList1_is (LinkedList1_Append (l, s) x) (xs @ [x])"
  using assms by (cases xs rule: rev_cases) (auto simp: LinkedList1_is_def LinkedList1_Append_def Let_def)

lemma LinkedList1_InsertBefore_is:
  assumes "LinkedList1_is (l, s) (ys @ t # zs)" "x \<notin> set (ys @ t # zs)"
  shows "LinkedList1_is (LinkedList1_InsertBefore (l, s) x t) (ys @ x # t # zs)"
  using assms by (cases ys rule: rev_cases) (auto simp: LinkedList1_is_def LinkedList1_InsertBefore_def Let_def)

lemma LinkedList1_InsertAfter_is:
  assumes "LinkedList1_is (l, s) (ys @ t # zs)" "x \<notin> set (ys @ t # zs)"
  shows "LinkedList1_is (LinkedList1_InsertAfter (l, s) x t) (ys @ t # x # zs)"
  using assms by (cases zs) (auto simp: LinkedList1_is_def LinkedList1_InsertAfter_def Let_def)

lemma LinkedList1_Remove_is:
  assumes "LinkedList1_is (l, s) (ys @ x # zs)"
  shows "LinkedList1_is (LinkedList1_Remove (l, s) x) (ys @ zs)"
  using assms
  by (cases ys rule: rev_cases; cases zs) (auto simp: LinkedList1_is_def LinkedList1_Remove_def Let_def)

lemma LinkedList1_InsertListAfter_is:
  assumes "LinkedList1_is (l, s) (ys @ zs)" "LinkedList1_is (ins, s) ws" "set ws \<inter> set (ys @ zs) = {}"
  shows "LinkedList1_is (LinkedList1_InsertListAfter (l, s) ins (last_or None ys)) (ys @ ws @ zs)"
proof (cases ws rule: rev_cases)
  case Nil
  with assms show ?thesis
    by (simp add: LinkedList1_is_def LinkedList1_InsertListAfter_def)
next
  case (snoc us e)
  show ?thesis
  proof (cases us)
    case Nil
    with assms snoc show ?thesis
      by (cases ys rule: rev_cases; cases zs)
        (auto simp: LinkedList1_is_def LinkedList1_InsertListAfter_def Let_def)
  next
    case (Cons f vs)
    with assms snoc show ?thesis
      by (cases ys rule: rev_cases; cases zs)
        (auto simp: LinkedList1_is_def LinkedList1_InsertListAfter_def Let_def)
  qed
qed

lemma SLinkedList_Init_is: "SLinkedList_is (SLinkedList_Init, s) []"
  by (simp add: SLinkedList_is_def SLinkedList_Init_def)

lemma SLinkedList_First_is: "SLinkedList_is ls xs \<Longrightarrow> SLinkedList_First ls = (if xs = [] then None else Some (hd xs))"
  by (cases xs) (auto simp: SLinkedList_is_def SLinkedList_First_def)

lemma SLinkedList_IsEmpty_is: "SLinkedList_is ls xs \<Longrightarrow> SLinkedList_IsEmpty ls \<longleftrightarrow> xs = []"
  by (auto simp: SLinkedList_is_def SLinkedList_IsEmpty_def hd_or_None split: prod.splits)

lemma SLinkedList_Prepend_is:
  assumes "SLinkedList_is (l, s) xs" "x \<notin> set xs"
  shows "SLinkedList_is (SLinkedList_Prepend (l, s) x) (x # xs)"
  using assms by (cases xs) (auto simp: SLinkedList_is_def SLinkedList_Prepend_def Let_def)

lemma SLinkedList_Remove_is:
  assumes "SLinkedList_is (l, s) (ys @ x # zs)"
  shows "SLinkedList_is (SLinkedList_Remove (l, s) x) (ys @ zs)"
proof (cases ys)
  case Nil
  with assms show ?thesis
    by (cases zs) (auto simp: SLinkedList_is_def SLinkedList_Remove_def)
next
  case (Cons y ys')
  with assms show ?thesis
    by (cases ys' rule: rev_cases; cases zs) (auto simp: SLinkedList_is_def SLinkedList_Remove_def Let_def)
qed

lemma SLinkedList_RemoveFirst_is:
  assumes "SLinkedList_is ls (x # xs)"
  shows "SLinkedList_is (SLinkedList_RemoveFirst ls) xs"
  using assms by (cases xs) (auto simp: SLinkedList_is_def SLinkedList_RemoveFirst_def split: prod.splits)

lemma SLinkedList_neighbours:
  assumes "SLinkedList_is ls (ys @ x # zs)"
  shows "SLinkedList_Next ls x = hd_or None zs" "SLinkedList_Prev ls x = last_or None ys"
  using assms
  by (cases ys; force simp: SLinkedList_is_def SLinkedList_Next_def SLinkedList_Prev_def split: prod.splits)+

section \<open>What the users of a node list rely on\<close>

locale node_list =
  fixes holds :: "'s \<Rightarrow> node list \<Rightarrow> bool"
    and prepend remove :: "'s \<Rightarrow> node \<Rightarrow> 's"
    and front :: "'s \<Rightarrow> node option"
  assumes holds_distinct: "holds s xs \<Longrightarrow> distinct xs"
    and prepend_holds: "holds s xs \<Longrightarrow> x \<notin> set xs \<Longrightarrow> holds (prepend s x) (x # xs)"
    and remove_holds: "holds s (ys @ x # zs) \<Longrightarrow> holds (remove s x) (ys @ zs)"
    and front_holds: "holds s xs \<Longrightarrow> front s = (if xs = [] then None else Some (hd xs))"
begin

lemma remove1_holds: "holds s xs \<Longrightarrow> x \<in> set xs \<Longrightarrow> holds (remove s x) (remove1 x xs)"
  by (metis in_set_conv_decomp_first remove1_split remove_holds)

lemma move_to_front:
  assumes "holds s xs" "x \<in> set xs"
  shows "holds (prepend (remove s x) x) (x # remove1 x xs)"
  using assms remove1_holds holds_distinct prepend_holds by simp

end

locale node_list_last = node_list +
  fixes append_last :: "'s \<Rightarrow> node \<Rightarrow> 's"
  assumes append_holds: "holds s xs \<Longrightarrow> x \<notin> set xs \<Longrightarrow> holds (append_last s x) (xs @ [x])"
begin

lemma move_to_back:
  assumes "holds s xs" "x \<in> set xs"
  shows "holds (append_last (remove s x) x) (remove1 x xs @ [x])"
  using assms remove1_holds holds_distinct append_holds by simp

text \<open>Moving each used node to the back keeps the least recently used one in front.\<close>

lemma front_after_move:
  assumes "holds s (x # y # xs)"
  shows "front (append_last (remove s x) x) = Some y"
  using move_to_back [OF assms, of x] front_holds by fastforce

end

interpretation LinkedList1: node_list_last LinkedList1_is LinkedList1_Prepend LinkedList1_Remove
  "\<lambda>(l, s). LinkedList1_GetFirst l" LinkedList1_Append
proof unfold_locales
  show "distinct xs" if "LinkedList1_is s xs" for s xs
    using that by (auto simp: LinkedList1_is_def)
qed (auto intro: LinkedList1_Prepend_is LinkedList1_Remove_is LinkedList1_Append_is simp: LinkedList1_Get_is)

interpretation SLinkedList: node_list SLinkedList_is SLinkedList_Prepend SLinkedList_Remove SLinkedList_First
proof unfold_locales
  show "distinct xs" if "SLinkedList_is s xs" for s xs
    using that by (auto simp: SLinkedList_is_def)
qed (auto intro: SLinkedList_Prepend_is SLinkedList_Remove_is simp: SLinkedList_First_is)

text \<open>C35. The pointer updates of \<open>LinkedList1\<close> implement lists of distinct nodes: unlinking a node
  that is anywhere in the list and appending it again moves it to the end and keeps the order of
  the others, and both ends of the list are what the getters return.\<close>

theorem LinkedList1_move_to_back:
  assumes "LinkedList1_is ls (ys @ x # zs)"
  shows "let (l', s') = LinkedList1_Append (LinkedList1_Remove ls x) x in
    LinkedList1_is (l', s') (ys @ zs @ [x]) \<and> LinkedList1_GetLast l' = Some x \<and>
    LinkedList1_GetFirst l' = Some (hd (ys @ zs @ [x]))"
proof -
  have "LinkedList1_is (LinkedList1_Append (LinkedList1_Remove ls x) x) (ys @ zs @ [x])"
    using LinkedList1.append_holds [OF LinkedList1.remove_holds [OF assms]] LinkedList1.holds_distinct [OF assms]
    by simp
  then show ?thesis
    using LinkedList1_Get_is by (auto simp: Let_def split: prod.splits)
qed

definition sample_list :: "LinkedList1 \<times> store" where
  "sample_list = LinkedList1_Append (LinkedList1_Append (LinkedList1_Append
     (LinkedList1_Init, \<lparr>nxt = \<lambda>_. None, prv = \<lambda>_. None\<rparr>) 4) 8) 15"

theorem LinkedList1_move_to_back_witness:
  "let (l', s') = LinkedList1_Append (LinkedList1_Remove sample_list 8) 8 in
    LinkedList1_is (l', s') [4, 15, 8] \<and> LinkedList1_GetLast l' = Some 8"
proof -
  have "LinkedList1_is sample_list ([4] @ 8 # [15])"
    unfolding sample_list_def
    by (simp add: LinkedList1_is_def LinkedList1_Append_def LinkedList1_Init_def Let_def)
  from LinkedList1_move_to_back [OF this] show ?thesis
    by (auto simp: Let_def)
qed

end
