(* ===== verification/Pending.thy ===== *)
theory Pending
  imports DList
begin

text \<open>
  The job queue of \<open>base/BPending.c\<close>, through which every interface of the program calls back.  A
  \<open>BSmallPending\<close> is the address of its list node; the group holds the \<open>first\<close> pointer, the node
  members of all jobs and, per job, the handler with its user pointer.  A job that is not
  pending has a \<open>next\<close> pointer to itself.  The queue is a stack: setting a job puts it in front,
  also when it is pending already, and the front job runs first.
\<close>

record 'h pending_group =
  jobs :: SLinkedList
  links :: store
  handler :: "node \<Rightarrow> 'h"

abbreviation job_list :: "'h pending_group \<Rightarrow> SLinkedList \<times> store" where
  "job_list g \<equiv> (jobs g, links g)"

definition with_list :: "SLinkedList \<times> store \<Rightarrow> 'h pending_group \<Rightarrow> 'h pending_group" where
  "with_list ls g = g\<lparr>jobs := fst ls, links := snd ls\<rparr>"

definition BPendingGroup_Init :: "'h pending_group \<Rightarrow> 'h pending_group" where
  "BPendingGroup_Init g = g\<lparr>jobs := SLinkedList_Init\<rparr>"

definition BPendingGroup_HasJobs :: "'h pending_group \<Rightarrow> bool" where
  "BPendingGroup_HasJobs g = (\<not> SLinkedList_IsEmpty (job_list g))"

text \<open>Executing a job gives the handler that is called; the list must not be empty.\<close>

definition BPendingGroup_ExecuteJob :: "'h pending_group \<Rightarrow> ('h \<times> 'h pending_group) option" where
  "BPendingGroup_ExecuteJob g =
     (case SLinkedList_First (job_list g) of
        None \<Rightarrow> None
      | Some p \<Rightarrow>
          (let g1 = with_list (SLinkedList_RemoveFirst (job_list g)) g;
               g2 = g1\<lparr>links := SLinkedListMarkRemoved (links g1) p\<rparr>
           in Some (handler g2 p, g2)))"

definition BPendingGroup_PeekJob :: "'h pending_group \<Rightarrow> node option" where
  "BPendingGroup_PeekJob g = SLinkedList_First (job_list g)"

definition BSmallPending_Init :: "node \<Rightarrow> 'h \<Rightarrow> 'h pending_group \<Rightarrow> 'h pending_group" where
  "BSmallPending_Init x h g =
     (let g1 = g\<lparr>handler := (handler g)(x := h)\<rparr> in g1\<lparr>links := SLinkedListMarkRemoved (links g1) x\<rparr>)"

definition BSmallPending_Free :: "node \<Rightarrow> 'h pending_group \<Rightarrow> 'h pending_group" where
  "BSmallPending_Free x g =
     (if \<not> SLinkedListIsRemoved (links g) x then with_list (SLinkedList_Remove (job_list g) x) g else g)"

definition BSmallPending_SetHandler :: "node \<Rightarrow> 'h \<Rightarrow> 'h pending_group \<Rightarrow> 'h pending_group" where
  "BSmallPending_SetHandler x h g = g\<lparr>handler := (handler g)(x := h)\<rparr>"

definition BSmallPending_Set :: "node \<Rightarrow> 'h pending_group \<Rightarrow> 'h pending_group" where
  "BSmallPending_Set x g =
     (let g1 = (if \<not> SLinkedListIsRemoved (links g) x then with_list (SLinkedList_Remove (job_list g) x) g
                else g)
      in with_list (SLinkedList_Prepend (job_list g1) x) g1)"

definition BSmallPending_Unset :: "node \<Rightarrow> 'h pending_group \<Rightarrow> 'h pending_group" where
  "BSmallPending_Unset x g =
     (if \<not> SLinkedListIsRemoved (links g) x then
        (let g1 = with_list (SLinkedList_Remove (job_list g) x) g
         in g1\<lparr>links := SLinkedListMarkRemoved (links g1) x\<rparr>)
      else g)"

definition BSmallPending_IsSet :: "node \<Rightarrow> 'h pending_group \<Rightarrow> bool" where
  "BSmallPending_IsSet x g = (\<not> SLinkedListIsRemoved (links g) x)"

section \<open>The stack of pending jobs\<close>

text \<open>The initialised jobs are \<open>I\<close>, those pending are \<open>xs\<close> with the next to run in front.\<close>

definition pending_is :: "'h pending_group \<Rightarrow> node set \<Rightarrow> node list \<Rightarrow> bool" where
  "pending_is g I xs = (SLinkedList_is (job_list g) xs \<and> set xs \<subseteq> I \<and>
     (\<forall>x\<in>I. x \<notin> set xs \<longrightarrow> SLinkedListIsRemoved (links g) x))"

lemma seg_not_self: "seg s p xs n \<Longrightarrow> distinct xs \<Longrightarrow> x \<in> set xs \<Longrightarrow> n \<noteq> Some x \<Longrightarrow> nxt s x \<noteq> Some x"
proof (induction xs arbitrary: p)
  case (Cons y ys)
  then show ?case by (cases ys) auto
qed simp

lemma listed_not_removed:
  "SLinkedList_is (l, s) xs \<Longrightarrow> x \<in> set xs \<Longrightarrow> \<not> SLinkedListIsRemoved s x"
  using seg_not_self [of s _ "tl xs" None x]
  by (cases xs; cases "tl xs") (auto simp: SLinkedList_is_def SLinkedListIsRemoved_def)

lemma removed_iff: "pending_is g I xs \<Longrightarrow> x \<in> I \<Longrightarrow> SLinkedListIsRemoved (links g) x \<longleftrightarrow> x \<notin> set xs"
  using listed_not_removed by (auto simp: pending_is_def)

text \<open>Marking a node that is not listed, and the nodes a removal leaves alone.\<close>

lemma SLinkedList_mark:
  "SLinkedList_is (l, s) xs \<Longrightarrow> x \<notin> set xs \<Longrightarrow> SLinkedList_is (l, SLinkedListMarkRemoved s x) xs"
  by (cases xs) (auto simp: SLinkedList_is_def SLinkedListMarkRemoved_def)

lemma SLinkedList_Remove_nxt:
  assumes "SLinkedList_is (l, s) xs" "x \<in> set xs" "y \<notin> set xs"
  shows "nxt (snd (SLinkedList_Remove (l, s) x)) y = nxt s y"
proof -
  obtain ys zs where xs: "xs = ys @ x # zs"
    using assms(2) by (auto simp: in_set_conv_decomp)
  with assms(1) have "l \<noteq> Some x \<Longrightarrow> prv s x = last_or None ys" "l \<noteq> Some x \<Longrightarrow> ys \<noteq> []"
    using SLinkedList_neighbours(2) [of "(l, s)" ys x zs] by (auto simp: SLinkedList_Prev_def SLinkedList_is_def)
  with assms(3) xs show ?thesis
    by (cases ys rule: rev_cases) (auto simp: SLinkedList_Remove_def Let_def split: option.splits)
qed

lemma SLinkedList_Prepend_nxt: "y \<noteq> x \<Longrightarrow> nxt (snd (SLinkedList_Prepend (l, s) x)) y = nxt s y"
  by (auto simp: SLinkedList_Prepend_def Let_def split: option.splits)

lemma remove_pending:
  assumes "pending_is g I xs" "x \<in> set xs"
  shows "SLinkedList_is (SLinkedList_Remove (job_list g) x) (remove1 x xs)"
    "\<forall>y\<in>I. y \<notin> set xs \<longrightarrow> SLinkedListIsRemoved (snd (SLinkedList_Remove (job_list g) x)) y"
  using assms SLinkedList.remove1_holds SLinkedList_Remove_nxt
  by (auto simp: pending_is_def SLinkedListIsRemoved_def)

lemma BSmallPending_IsSet_is: "pending_is g I xs \<Longrightarrow> x \<in> I \<Longrightarrow> BSmallPending_IsSet x g \<longleftrightarrow> x \<in> set xs"
  by (simp add: BSmallPending_IsSet_def removed_iff)

lemma BSmallPending_Init_is:
  assumes "pending_is g I xs" "x \<notin> I"
  shows "pending_is (BSmallPending_Init x h g) (insert x I) xs"
proof -
  have "x \<notin> set xs"
    using assms by (auto simp: pending_is_def)
  with assms show ?thesis
    by (auto simp: pending_is_def BSmallPending_Init_def SLinkedList_mark)
      (auto simp: SLinkedListMarkRemoved_def SLinkedListIsRemoved_def)
qed

lemma BSmallPending_Unset_is:
  assumes "pending_is g I xs" "x \<in> I"
  shows "pending_is (BSmallPending_Unset x g) I (remove1 x xs)"
proof (cases "x \<in> set xs")
  case True
  have "distinct xs"
    using assms(1) by (auto simp: pending_is_def SLinkedList_is_def)
  with True assms remove_pending [OF assms(1) True] removed_iff [OF assms] show ?thesis
    by (auto simp: pending_is_def BSmallPending_Unset_def with_list_def Let_def intro: SLinkedList_mark
        dest: set_remove1_subset [THEN subsetD])
      (auto simp: SLinkedListMarkRemoved_def SLinkedListIsRemoved_def)
next
  case False
  with assms removed_iff [OF assms] show ?thesis
    by (simp add: BSmallPending_Unset_def remove1_idem)
qed

lemma BSmallPending_Set_is:
  assumes "pending_is g I xs" "x \<in> I"
  shows "pending_is (BSmallPending_Set x g) I (x # remove1 x xs)"
proof -
  define ls where "ls = (if x \<in> set xs then SLinkedList_Remove (job_list g) x else job_list g)"
  have ls: "SLinkedList_is ls (remove1 x xs)" "\<forall>y\<in>I. y \<notin> set xs \<longrightarrow> SLinkedListIsRemoved (snd ls) y"
    using assms(1) remove_pending [OF assms(1)] by (auto simp: ls_def pending_is_def remove1_idem)
  have set: "job_list (BSmallPending_Set x g) = SLinkedList_Prepend ls x"
    using removed_iff [OF assms] by (simp add: BSmallPending_Set_def with_list_def ls_def)
  have "distinct xs" "set xs \<subseteq> I"
    using assms(1) by (auto simp: pending_is_def SLinkedList_is_def)
  with ls SLinkedList.prepend_holds [OF ls(1), of x] SLinkedList_Prepend_nxt [of _ x "fst ls" "snd ls"] assms(2)
  show ?thesis
    by (auto simp: pending_is_def set [symmetric] SLinkedListIsRemoved_def)
qed

lemma BPendingGroup_ExecuteJob_is:
  assumes "pending_is g I (x # xs)"
  shows "\<exists>g'. BPendingGroup_ExecuteJob g = Some (handler g x, g') \<and> pending_is g' I xs"
proof -
  have first: "SLinkedList_is (SLinkedList_RemoveFirst (job_list g)) xs"
    using assms SLinkedList_RemoveFirst_is by (auto simp: pending_is_def)
  have "x \<notin> set xs" "set xs \<subseteq> I"
    using assms by (auto simp: pending_is_def SLinkedList_is_def)
  with first assms SLinkedList_mark [of "fst (SLinkedList_RemoveFirst (job_list g))" "links g" xs x] show ?thesis
    by (auto simp: pending_is_def BPendingGroup_ExecuteJob_def SLinkedList_First_is with_list_def Let_def
        SLinkedList_RemoveFirst_def)
      (auto simp: SLinkedListMarkRemoved_def SLinkedListIsRemoved_def)
qed

lemma BSmallPending_Free_is:
  assumes "pending_is g I xs" "x \<in> I"
  shows "pending_is (BSmallPending_Free x g) (I - {x}) (remove1 x xs)"
proof (cases "x \<in> set xs")
  case True
  have "distinct xs"
    using assms(1) by (auto simp: pending_is_def SLinkedList_is_def)
  with True assms remove_pending [OF assms(1) True] removed_iff [OF assms] show ?thesis
    by (auto simp: pending_is_def BSmallPending_Free_def with_list_def)
next
  case False
  with assms removed_iff [OF assms] show ?thesis
    by (auto simp: BSmallPending_Free_def remove1_idem pending_is_def)
qed

lemma handler_kept [simp]:
  "handler (BSmallPending_Set x g) = handler g" "handler (BSmallPending_Unset x g) = handler g"
  by (simp_all add: BSmallPending_Set_def BSmallPending_Unset_def with_list_def Let_def)

text \<open>What the interfaces rely on: a stack of pending jobs in which each job is at most once.\<close>

locale job_stack =
  fixes holds :: "'g \<Rightarrow> node set \<Rightarrow> node list \<Rightarrow> bool"
    and set_job unset_job :: "node \<Rightarrow> 'g \<Rightarrow> 'g" and is_set :: "node \<Rightarrow> 'g \<Rightarrow> bool"
    and exec_job :: "'g \<Rightarrow> ('h \<times> 'g) option" and hof :: "'g \<Rightarrow> node \<Rightarrow> 'h"
  assumes holds_distinct: "holds g I xs \<Longrightarrow> distinct xs"
    and set_holds: "holds g I xs \<Longrightarrow> x \<in> I \<Longrightarrow> holds (set_job x g) I (x # remove1 x xs)"
    and unset_holds: "holds g I xs \<Longrightarrow> x \<in> I \<Longrightarrow> holds (unset_job x g) I (remove1 x xs)"
    and is_set_holds: "holds g I xs \<Longrightarrow> x \<in> I \<Longrightarrow> is_set x g \<longleftrightarrow> x \<in> set xs"
    and exec_holds: "holds g I (x # xs) \<Longrightarrow> \<exists>g'. exec_job g = Some (hof g x, g') \<and> holds g' I xs"
    and hof_set: "hof (set_job x g) = hof g"
begin

lemma set_twice: "holds g I xs \<Longrightarrow> x \<in> I \<Longrightarrow> holds (set_job x (set_job x g)) I (x # remove1 x xs)"
  using set_holds [OF set_holds, of g I xs x x] by simp

lemma set_then_run:
  assumes "holds g I xs" "x \<in> I"
  shows "\<exists>g'. exec_job (set_job x g) = Some (hof g x, g') \<and> holds g' I (remove1 x xs) \<and> \<not> is_set x g'"
  using exec_holds [OF set_holds [OF assms]] is_set_holds assms(2) holds_distinct [OF assms(1)]
  by (force simp: hof_set)

end

interpretation BPending: job_stack pending_is BSmallPending_Set BSmallPending_Unset BSmallPending_IsSet
  BPendingGroup_ExecuteJob handler
proof unfold_locales
  show "distinct xs" if "pending_is g I xs" for g :: "'a pending_group" and I xs
    using that by (auto simp: pending_is_def SLinkedList_is_def)
qed (auto intro: BSmallPending_Set_is BSmallPending_Unset_is BPendingGroup_ExecuteJob_is
  simp: BSmallPending_IsSet_is)

text \<open>C29. The linked list with self-pointing idle jobs implements a stack of distinct jobs: setting
  a job, pending or not, puts it in front once, unsetting takes it out, \<open>IsSet\<close> tells whether it
  is there, and executing calls the handler of the front job after taking it out.\<close>

theorem BPending_stack:
  assumes "pending_is g I xs" "x \<in> I"
  shows "pending_is (BSmallPending_Set x g) I (x # remove1 x xs) \<and>
    pending_is (BSmallPending_Unset x g) I (remove1 x xs) \<and>
    (BSmallPending_IsSet x g \<longleftrightarrow> x \<in> set xs) \<and>
    (\<exists>g'. BPendingGroup_ExecuteJob (BSmallPending_Set x g) = Some (handler g x, g') \<and>
       pending_is g' I (remove1 x xs) \<and> \<not> BSmallPending_IsSet x g')"
  using BPending.set_holds [OF assms] BPending.unset_holds [OF assms] BPending.is_set_holds [OF assms]
    BPending.set_then_run [OF assms] by blast

definition sample_group :: "nat pending_group" where
  "sample_group = BSmallPending_Set 1 (BSmallPending_Init 2 20 (BSmallPending_Init 1 10
     \<lparr>jobs = None, links = \<lparr>nxt = \<lambda>_. None, prv = \<lambda>_. None\<rparr>, handler = \<lambda>_. 0\<rparr>))"

theorem BPending_stack_witness:
  "pending_is (BSmallPending_Set 2 sample_group) {1, 2} [2, 1] \<and>
    (\<exists>g'. BPendingGroup_ExecuteJob (BSmallPending_Set 2 sample_group) = Some (20, g'))"
proof -
  have "pending_is sample_group {1, 2} [1]"
    unfolding sample_group_def
    by (simp add: pending_is_def SLinkedList_is_def BSmallPending_Set_def BSmallPending_Init_def with_list_def
      SLinkedListIsRemoved_def SLinkedListMarkRemoved_def SLinkedList_Prepend_def)
  moreover have "handler sample_group 2 = 20"
    by (simp add: sample_group_def BSmallPending_Init_def)
  ultimately show ?thesis
    using BPending_stack [of sample_group "{1, 2}" "[1]" 2] by auto
qed

end
