(* ===== verification/FlowIf.thy ===== *)
theory FlowIf
  imports Pending
begin

text \<open>
  The four interfaces of \<open>flow/\<close> over which the components pass data: \<open>PacketPassInterface\<close>,
  \<open>PacketRecvInterface\<close>, \<open>StreamPassInterface\<close> and \<open>StreamRecvInterface\<close>.  Each is a record with the
  members of its struct; the jobs of the interface that are pending are a list in the order in
  which the group runs them, changed by the stack operations of \<open>Pending\<close>.  Handlers are
  modelled by the call a job makes.  A step relation per interface lets the user and the provider
  call what the assertions permit and runs the pending jobs; the locale \<open>flow_interface\<close> states
  what the users rely on and is interpreted on each of them.
\<close>

datatype if_state = STATE_NONE | STATE_OPERATION_PENDING | STATE_BUSY | STATE_DONE_PENDING

definition job_set :: "'j \<Rightarrow> 'j list \<Rightarrow> 'j list" where
  "job_set j js = j # remove1 j js"

definition job_unset :: "'j \<Rightarrow> 'j list \<Rightarrow> 'j list" where
  "job_unset j js = remove1 j js"

section \<open>PacketPassInterface\<close>

datatype ppi_job = Job_operation | Job_requestcancel | Job_done

datatype ppi_call = Handler_operation bytes | Handler_requestcancel | Handler_done

record ppi =
  ppi_mtu :: nat
  has_requestcancel :: bool
  has_done :: bool
  ppi_data :: bytes
  ppi_jobs :: "ppi_job list"
  ppi_state :: if_state
  cancel_requested :: bool

definition PacketPassInterface_Init :: "nat \<Rightarrow> ppi" where
  "PacketPassInterface_Init m =
     \<lparr>ppi_mtu = m, has_requestcancel = False, has_done = False, ppi_data = [], ppi_jobs = [],
      ppi_state = STATE_NONE, cancel_requested = False\<rparr>"

definition PacketPassInterface_Free :: "ppi \<Rightarrow> ppi" where
  "PacketPassInterface_Free i =
     i\<lparr>ppi_jobs := job_unset Job_operation (job_unset Job_requestcancel (job_unset Job_done (ppi_jobs i)))\<rparr>"

definition PacketPassInterface_EnableCancel :: "ppi \<Rightarrow> ppi" where
  "PacketPassInterface_EnableCancel i = i\<lparr>has_requestcancel := True\<rparr>"

definition PacketPassInterface_Done :: "ppi \<Rightarrow> ppi" where
  "PacketPassInterface_Done i =
     i\<lparr>ppi_jobs := job_set Job_done (job_unset Job_requestcancel (ppi_jobs i)),
       ppi_state := STATE_DONE_PENDING\<rparr>"

definition PacketPassInterface_GetMTU :: "ppi \<Rightarrow> nat" where
  "PacketPassInterface_GetMTU i = ppi_mtu i"

definition PacketPassInterface_Sender_Init :: "ppi \<Rightarrow> ppi" where
  "PacketPassInterface_Sender_Init i = i\<lparr>has_done := True\<rparr>"

definition PacketPassInterface_Sender_Send :: "ppi \<Rightarrow> bytes \<Rightarrow> ppi" where
  "PacketPassInterface_Sender_Send i data =
     i\<lparr>ppi_data := data, ppi_jobs := job_set Job_operation (ppi_jobs i),
       ppi_state := STATE_OPERATION_PENDING, cancel_requested := False\<rparr>"

definition PacketPassInterface_Sender_RequestCancel :: "ppi \<Rightarrow> ppi" where
  "PacketPassInterface_Sender_RequestCancel i =
     (if cancel_requested i then i
      else let i = i\<lparr>cancel_requested := True\<rparr> in
        if ppi_state i = STATE_OPERATION_PENDING then
          i\<lparr>ppi_jobs := job_set Job_done (job_unset Job_operation (ppi_jobs i)),
            ppi_state := STATE_DONE_PENDING\<rparr>
        else if ppi_state i = STATE_BUSY then i\<lparr>ppi_jobs := job_set Job_requestcancel (ppi_jobs i)\<rparr>
        else i)"

definition PacketPassInterface_HasCancel :: "ppi \<Rightarrow> bool" where
  "PacketPassInterface_HasCancel i = has_requestcancel i"

definition PacketPassInterface_job_operation :: "ppi \<Rightarrow> ppi \<times> ppi_call" where
  "PacketPassInterface_job_operation i = (i\<lparr>ppi_state := STATE_BUSY\<rparr>, Handler_operation (ppi_data i))"

definition PacketPassInterface_job_requestcancel :: "ppi \<Rightarrow> ppi \<times> ppi_call" where
  "PacketPassInterface_job_requestcancel i = (i, Handler_requestcancel)"

definition PacketPassInterface_job_done :: "ppi \<Rightarrow> ppi \<times> ppi_call" where
  "PacketPassInterface_job_done i = (i\<lparr>ppi_state := STATE_NONE\<rparr>, Handler_done)"

text \<open>The job functions and the assertions they start with.\<close>

fun ppi_run :: "ppi_job \<Rightarrow> ppi \<Rightarrow> ppi \<times> ppi_call" where
  "ppi_run Job_operation i = PacketPassInterface_job_operation i"
| "ppi_run Job_requestcancel i = PacketPassInterface_job_requestcancel i"
| "ppi_run Job_done i = PacketPassInterface_job_done i"

fun ppi_asserts :: "ppi_job \<Rightarrow> ppi \<Rightarrow> bool" where
  "ppi_asserts Job_operation i = (ppi_state i = STATE_OPERATION_PENDING)"
| "ppi_asserts Job_requestcancel i = (ppi_state i = STATE_BUSY \<and> cancel_requested i \<and> has_requestcancel i)"
| "ppi_asserts Job_done i = (ppi_state i = STATE_DONE_PENDING)"

section \<open>StreamPassInterface and StreamRecvInterface\<close>

text \<open>The two have the same code, as their headers say; the data is a pointer with a length.\<close>

datatype spi_job = Sjob_operation | Sjob_done

datatype 'd spi_call = Shandler_operation 'd nat | Shandler_done nat

record 'd spi =
  has_sdone :: bool
  spi_data :: 'd
  spi_len :: nat
  spi_done_len :: nat
  spi_jobs :: "spi_job list"
  spi_state :: if_state

definition StreamPassInterface_Init :: "'d \<Rightarrow> 'd spi" where
  "StreamPassInterface_Init null =
     \<lparr>has_sdone = False, spi_data = null, spi_len = 0, spi_done_len = 0, spi_jobs = [], spi_state = STATE_NONE\<rparr>"

definition StreamPassInterface_Free :: "'d spi \<Rightarrow> 'd spi" where
  "StreamPassInterface_Free i = i\<lparr>spi_jobs := job_unset Sjob_operation (job_unset Sjob_done (spi_jobs i))\<rparr>"

definition StreamPassInterface_Done :: "'d spi \<Rightarrow> nat \<Rightarrow> 'd spi" where
  "StreamPassInterface_Done i data_len =
     i\<lparr>spi_done_len := data_len, spi_jobs := job_set Sjob_done (spi_jobs i), spi_state := STATE_DONE_PENDING\<rparr>"

definition StreamPassInterface_Sender_Init :: "'d spi \<Rightarrow> 'd spi" where
  "StreamPassInterface_Sender_Init i = i\<lparr>has_sdone := True\<rparr>"

definition StreamPassInterface_Sender_Send :: "'d spi \<Rightarrow> 'd \<Rightarrow> nat \<Rightarrow> 'd spi" where
  "StreamPassInterface_Sender_Send i data data_len =
     i\<lparr>spi_data := data, spi_len := data_len, spi_jobs := job_set Sjob_operation (spi_jobs i),
       spi_state := STATE_OPERATION_PENDING\<rparr>"

definition StreamPassInterface_job_operation :: "'d spi \<Rightarrow> 'd spi \<times> 'd spi_call" where
  "StreamPassInterface_job_operation i =
     (i\<lparr>spi_state := STATE_BUSY\<rparr>, Shandler_operation (spi_data i) (spi_len i))"

definition StreamPassInterface_job_done :: "'d spi \<Rightarrow> 'd spi \<times> 'd spi_call" where
  "StreamPassInterface_job_done i = (i\<lparr>spi_state := STATE_NONE\<rparr>, Shandler_done (spi_done_len i))"

fun spi_run :: "spi_job \<Rightarrow> 'd spi \<Rightarrow> 'd spi \<times> 'd spi_call" where
  "spi_run Sjob_operation i = StreamPassInterface_job_operation i"
| "spi_run Sjob_done i = StreamPassInterface_job_done i"

fun spi_asserts :: "spi_job \<Rightarrow> 'd spi \<Rightarrow> bool" where
  "spi_asserts Sjob_operation i = (spi_state i = STATE_OPERATION_PENDING)"
| "spi_asserts Sjob_done i = (spi_state i = STATE_DONE_PENDING)"

definition StreamRecvInterface_Init :: "'d \<Rightarrow> 'd spi" where
  "StreamRecvInterface_Init null =
     \<lparr>has_sdone = False, spi_data = null, spi_len = 0, spi_done_len = 0, spi_jobs = [], spi_state = STATE_NONE\<rparr>"

definition StreamRecvInterface_Free :: "'d spi \<Rightarrow> 'd spi" where
  "StreamRecvInterface_Free i = i\<lparr>spi_jobs := job_unset Sjob_operation (job_unset Sjob_done (spi_jobs i))\<rparr>"

definition StreamRecvInterface_Done :: "'d spi \<Rightarrow> nat \<Rightarrow> 'd spi" where
  "StreamRecvInterface_Done i data_len =
     i\<lparr>spi_done_len := data_len, spi_jobs := job_set Sjob_done (spi_jobs i), spi_state := STATE_DONE_PENDING\<rparr>"

definition StreamRecvInterface_Receiver_Init :: "'d spi \<Rightarrow> 'd spi" where
  "StreamRecvInterface_Receiver_Init i = i\<lparr>has_sdone := True\<rparr>"

definition StreamRecvInterface_Receiver_Recv :: "'d spi \<Rightarrow> 'd \<Rightarrow> nat \<Rightarrow> 'd spi" where
  "StreamRecvInterface_Receiver_Recv i data data_len =
     i\<lparr>spi_data := data, spi_len := data_len, spi_jobs := job_set Sjob_operation (spi_jobs i),
       spi_state := STATE_OPERATION_PENDING\<rparr>"

definition StreamRecvInterface_job_operation :: "'d spi \<Rightarrow> 'd spi \<times> 'd spi_call" where
  "StreamRecvInterface_job_operation i =
     (i\<lparr>spi_state := STATE_BUSY\<rparr>, Shandler_operation (spi_data i) (spi_len i))"

definition StreamRecvInterface_job_done :: "'d spi \<Rightarrow> 'd spi \<times> 'd spi_call" where
  "StreamRecvInterface_job_done i = (i\<lparr>spi_state := STATE_NONE\<rparr>, Shandler_done (spi_done_len i))"

section \<open>PacketRecvInterface\<close>

datatype 'd pri_call = Rhandler_operation 'd | Rhandler_done nat

record 'd pri =
  pri_mtu :: nat
  has_rdone :: bool
  pri_data :: 'd
  pri_done_len :: nat
  pri_jobs :: "spi_job list"
  pri_state :: if_state

definition PacketRecvInterface_Init :: "nat \<Rightarrow> 'd \<Rightarrow> 'd pri" where
  "PacketRecvInterface_Init m null =
     \<lparr>pri_mtu = m, has_rdone = False, pri_data = null, pri_done_len = 0, pri_jobs = [], pri_state = STATE_NONE\<rparr>"

definition PacketRecvInterface_Free :: "'d pri \<Rightarrow> 'd pri" where
  "PacketRecvInterface_Free i = i\<lparr>pri_jobs := job_unset Sjob_operation (job_unset Sjob_done (pri_jobs i))\<rparr>"

definition PacketRecvInterface_Done :: "'d pri \<Rightarrow> nat \<Rightarrow> 'd pri" where
  "PacketRecvInterface_Done i data_len =
     i\<lparr>pri_done_len := data_len, pri_jobs := job_set Sjob_done (pri_jobs i), pri_state := STATE_DONE_PENDING\<rparr>"

definition PacketRecvInterface_GetMTU :: "'d pri \<Rightarrow> nat" where
  "PacketRecvInterface_GetMTU i = pri_mtu i"

definition PacketRecvInterface_Receiver_Init :: "'d pri \<Rightarrow> 'd pri" where
  "PacketRecvInterface_Receiver_Init i = i\<lparr>has_rdone := True\<rparr>"

definition PacketRecvInterface_Receiver_Recv :: "'d pri \<Rightarrow> 'd \<Rightarrow> 'd pri" where
  "PacketRecvInterface_Receiver_Recv i data =
     i\<lparr>pri_data := data, pri_jobs := job_set Sjob_operation (pri_jobs i), pri_state := STATE_OPERATION_PENDING\<rparr>"

definition PacketRecvInterface_job_operation :: "'d pri \<Rightarrow> 'd pri \<times> 'd pri_call" where
  "PacketRecvInterface_job_operation i = (i\<lparr>pri_state := STATE_BUSY\<rparr>, Rhandler_operation (pri_data i))"

definition PacketRecvInterface_job_done :: "'d pri \<Rightarrow> 'd pri \<times> 'd pri_call" where
  "PacketRecvInterface_job_done i = (i\<lparr>pri_state := STATE_NONE\<rparr>, Rhandler_done (pri_done_len i))"

fun pri_run :: "spi_job \<Rightarrow> 'd pri \<Rightarrow> 'd pri \<times> 'd pri_call" where
  "pri_run Sjob_operation i = PacketRecvInterface_job_operation i"
| "pri_run Sjob_done i = PacketRecvInterface_job_done i"

fun pri_asserts :: "spi_job \<Rightarrow> 'd pri \<Rightarrow> bool" where
  "pri_asserts Sjob_operation i = (pri_state i = STATE_OPERATION_PENDING)"
| "pri_asserts Sjob_done i = (pri_state i = STATE_DONE_PENDING)"

lemmas ppi_defs = PacketPassInterface_Done_def PacketPassInterface_Sender_Send_def
  PacketPassInterface_Sender_RequestCancel_def PacketPassInterface_job_operation_def
  PacketPassInterface_job_requestcancel_def PacketPassInterface_job_done_def job_set_def job_unset_def

lemmas spi_defs = StreamPassInterface_Done_def StreamPassInterface_Sender_Send_def
  StreamPassInterface_job_operation_def StreamPassInterface_job_done_def job_set_def job_unset_def

lemmas pri_defs = PacketRecvInterface_Done_def PacketRecvInterface_Receiver_Recv_def
  PacketRecvInterface_job_operation_def PacketRecvInterface_job_done_def job_set_def job_unset_def

section \<open>Steps\<close>

text \<open>What happens at an interface: the user starts an operation or requests its cancellation,
  the provider completes it, and the jobs call the provider's operation and cancellation handlers
  and the user's completion handler.\<close>

datatype flow_event = Ev_start | Ev_cancel | Ev_complete | Ev_operation | Ev_requestcancel | Ev_done

fun ppi_event :: "ppi_call \<Rightarrow> flow_event" where
  "ppi_event (Handler_operation _) = Ev_operation"
| "ppi_event Handler_requestcancel = Ev_requestcancel"
| "ppi_event Handler_done = Ev_done"

inductive ppi_step :: "ppi \<Rightarrow> flow_event \<Rightarrow> ppi \<Rightarrow> bool" where
  ppi_send: "ppi_state i = STATE_NONE \<Longrightarrow> has_done i \<Longrightarrow> length data \<le> ppi_mtu i \<Longrightarrow>
    ppi_step i Ev_start (PacketPassInterface_Sender_Send i data)"
| ppi_cancel: "ppi_state i \<noteq> STATE_NONE \<Longrightarrow> has_requestcancel i \<Longrightarrow>
    ppi_step i Ev_cancel (PacketPassInterface_Sender_RequestCancel i)"
| ppi_complete: "ppi_state i = STATE_BUSY \<Longrightarrow> ppi_step i Ev_complete (PacketPassInterface_Done i)"
| ppi_job: "ppi_jobs i = j # js \<Longrightarrow> ppi_run j (i\<lparr>ppi_jobs := js\<rparr>) = (i', c) \<Longrightarrow> ppi_step i (ppi_event c) i'"

fun spi_event :: "'d spi_call \<Rightarrow> flow_event" where
  "spi_event (Shandler_operation _ _) = Ev_operation"
| "spi_event (Shandler_done _) = Ev_done"

inductive spi_step :: "'d spi \<Rightarrow> flow_event \<Rightarrow> 'd spi \<Rightarrow> bool" where
  spi_send: "spi_state i = STATE_NONE \<Longrightarrow> has_sdone i \<Longrightarrow> 0 < len \<Longrightarrow>
    spi_step i Ev_start (StreamPassInterface_Sender_Send i data len)"
| spi_complete: "spi_state i = STATE_BUSY \<Longrightarrow> 0 < len \<Longrightarrow> len \<le> spi_len i \<Longrightarrow>
    spi_step i Ev_complete (StreamPassInterface_Done i len)"
| spi_job: "spi_jobs i = j # js \<Longrightarrow> spi_run j (i\<lparr>spi_jobs := js\<rparr>) = (i', c) \<Longrightarrow> spi_step i (spi_event c) i'"

fun pri_event :: "'d pri_call \<Rightarrow> flow_event" where
  "pri_event (Rhandler_operation _) = Ev_operation"
| "pri_event (Rhandler_done _) = Ev_done"

inductive pri_step :: "'d pri \<Rightarrow> flow_event \<Rightarrow> 'd pri \<Rightarrow> bool" where
  pri_recv: "pri_state i = STATE_NONE \<Longrightarrow> has_rdone i \<Longrightarrow>
    pri_step i Ev_start (PacketRecvInterface_Receiver_Recv i data)"
| pri_complete: "pri_state i = STATE_BUSY \<Longrightarrow> len \<le> pri_mtu i \<Longrightarrow>
    pri_step i Ev_complete (PacketRecvInterface_Done i len)"
| pri_job: "pri_jobs i = j # js \<Longrightarrow> pri_run j (i\<lparr>pri_jobs := js\<rparr>) = (i', c) \<Longrightarrow> pri_step i (pri_event c) i'"

inductive trace :: "('i \<Rightarrow> flow_event \<Rightarrow> 'i \<Rightarrow> bool) \<Rightarrow> 'i \<Rightarrow> flow_event list \<Rightarrow> 'i \<Rightarrow> bool" for step where
  trace_nil: "trace step i [] i"
| trace_snoc: "trace step i evs i' \<Longrightarrow> step i' e i'' \<Longrightarrow> trace step i (evs @ [e]) i''"

inductive_cases ppi_stepE: "ppi_step i e i'"
inductive_cases spi_stepE: "spi_step i e i'"
inductive_cases pri_stepE: "pri_step i e i'"

section \<open>Invariants\<close>

text \<open>Which jobs are pending in which state.\<close>

fun ppi_inv :: "ppi \<Rightarrow> bool" where
  "ppi_inv i = (case ppi_state i of
     STATE_NONE \<Rightarrow> ppi_jobs i = []
   | STATE_OPERATION_PENDING \<Rightarrow> ppi_jobs i = [Job_operation] \<and> \<not> cancel_requested i
   | STATE_BUSY \<Rightarrow> ppi_jobs i = [] \<or> ppi_jobs i = [Job_requestcancel] \<and> cancel_requested i \<and> has_requestcancel i
   | STATE_DONE_PENDING \<Rightarrow> ppi_jobs i = [Job_done])"

fun spi_inv :: "'d spi \<Rightarrow> bool" where
  "spi_inv i = (case spi_state i of
     STATE_NONE \<Rightarrow> spi_jobs i = []
   | STATE_OPERATION_PENDING \<Rightarrow> spi_jobs i = [Sjob_operation] \<and> 0 < spi_len i
   | STATE_BUSY \<Rightarrow> spi_jobs i = [] \<and> 0 < spi_len i
   | STATE_DONE_PENDING \<Rightarrow> spi_jobs i = [Sjob_done] \<and> 0 < spi_done_len i \<and> spi_done_len i \<le> spi_len i)"

fun pri_inv :: "'d pri \<Rightarrow> bool" where
  "pri_inv i = (case pri_state i of
     STATE_NONE \<Rightarrow> pri_jobs i = []
   | STATE_OPERATION_PENDING \<Rightarrow> pri_jobs i = [Sjob_operation]
   | STATE_BUSY \<Rightarrow> pri_jobs i = []
   | STATE_DONE_PENDING \<Rightarrow> pri_jobs i = [Sjob_done] \<and> pri_done_len i \<le> pri_mtu i)"

text \<open>The transitions every interface makes.\<close>

fun phase_step :: "if_state \<Rightarrow> flow_event \<Rightarrow> if_state \<Rightarrow> bool" where
  "phase_step p Ev_start q = (p = STATE_NONE \<and> q = STATE_OPERATION_PENDING)"
| "phase_step p Ev_operation q = (p = STATE_OPERATION_PENDING \<and> q = STATE_BUSY)"
| "phase_step p Ev_complete q = (p = STATE_BUSY \<and> q = STATE_DONE_PENDING)"
| "phase_step p Ev_done q = (p = STATE_DONE_PENDING \<and> q = STATE_NONE)"
| "phase_step p Ev_cancel q =
     (p \<noteq> STATE_NONE \<and> (q = p \<or> p = STATE_OPERATION_PENDING \<and> q = STATE_DONE_PENDING))"
| "phase_step p Ev_requestcancel q = (p = STATE_BUSY \<and> q = STATE_BUSY)"

lemma ppi_step_inv: "ppi_step i e i' \<Longrightarrow> ppi_inv i \<Longrightarrow> ppi_inv i' \<and> phase_step (ppi_state i) e (ppi_state i')"
  by (erule ppi_stepE) (auto simp: ppi_defs Let_def split: if_state.splits)

lemma spi_step_inv: "spi_step i e i' \<Longrightarrow> spi_inv i \<Longrightarrow> spi_inv i' \<and> phase_step (spi_state i) e (spi_state i')"
  by (erule spi_stepE) (auto simp: spi_defs split: if_state.splits)

lemma pri_step_inv: "pri_step i e i' \<Longrightarrow> pri_inv i \<Longrightarrow> pri_inv i' \<and> phase_step (pri_state i) e (pri_state i')"
  by (erule pri_stepE) (auto simp: pri_defs split: if_state.splits)

text \<open>What the users of an interface rely on, whatever the kind of data it passes.\<close>

locale flow_interface =
  fixes step :: "'i \<Rightarrow> flow_event \<Rightarrow> 'i \<Rightarrow> bool" and inv :: "'i \<Rightarrow> bool" and phase :: "'i \<Rightarrow> if_state"
  assumes step_inv: "step i e i' \<Longrightarrow> inv i \<Longrightarrow> inv i' \<and> phase_step (phase i) e (phase i')"
begin

lemma trace_inv: "trace step i evs i' \<Longrightarrow> inv i \<Longrightarrow> inv i'"
  by (induction rule: trace.induct) (auto dest: step_inv)

lemma trace_counts:
  "trace step i evs i' \<Longrightarrow> inv i \<Longrightarrow> phase i = STATE_NONE \<Longrightarrow>
     count_list evs Ev_start = count_list evs Ev_done + of_bool (phase i' \<noteq> STATE_NONE) \<and>
     count_list evs Ev_operation = count_list evs Ev_complete + of_bool (phase i' = STATE_BUSY) \<and>
     count_list evs Ev_operation + of_bool (phase i' = STATE_OPERATION_PENDING) \<le> count_list evs Ev_start"
proof (induction rule: trace.induct)
  case (trace_snoc i evs i' e i'')
  then have "phase_step (phase i') e (phase i'')"
    using step_inv trace_inv by blast
  with trace_snoc show ?case
    by (cases e) (auto split: if_splits)
qed simp

text \<open>Without cancellation every operation that was started reaches the provider.\<close>

lemma trace_counts_plain:
  "trace step i evs i' \<Longrightarrow> inv i \<Longrightarrow> phase i = STATE_NONE \<Longrightarrow> Ev_cancel \<notin> set evs \<Longrightarrow>
     count_list evs Ev_start = count_list evs Ev_operation + of_bool (phase i' = STATE_OPERATION_PENDING)"
proof (induction rule: trace.induct)
  case (trace_snoc i evs i' e i'')
  then have "phase_step (phase i') e (phase i'')"
    using step_inv trace_inv by blast
  with trace_snoc show ?case
    by (cases e) (auto split: if_splits)
qed simp

end

interpretation ppi: flow_interface ppi_step ppi_inv ppi_state
  by unfold_locales (rule ppi_step_inv)

interpretation spi: flow_interface spi_step spi_inv spi_state
  by unfold_locales (rule spi_step_inv)

interpretation pri: flow_interface pri_step pri_inv pri_state
  by unfold_locales (rule pri_step_inv)

lemma ppi_inv_asserts: "ppi_inv i \<Longrightarrow> ppi_jobs i = j # js \<Longrightarrow> ppi_asserts j (i\<lparr>ppi_jobs := js\<rparr>)"
  by (cases j) (auto split: if_state.splits)

lemma spi_inv_asserts: "spi_inv i \<Longrightarrow> spi_jobs i = j # js \<Longrightarrow> spi_asserts j (i\<lparr>spi_jobs := js\<rparr>)"
  by (cases j) (auto split: if_state.splits)

lemma pri_inv_asserts: "pri_inv i \<Longrightarrow> pri_jobs i = j # js \<Longrightarrow> pri_asserts j (i\<lparr>pri_jobs := js\<rparr>)"
  by (cases j) (auto split: if_state.splits)

definition ppi_start :: "nat \<Rightarrow> bool \<Rightarrow> ppi" where
  "ppi_start m cancel =
     PacketPassInterface_Sender_Init
       (if cancel then PacketPassInterface_EnableCancel (PacketPassInterface_Init m) else PacketPassInterface_Init m)"

lemma ppi_start_inv: "ppi_inv (ppi_start m cancel)" "ppi_state (ppi_start m cancel) = STATE_NONE"
  by (simp_all add: ppi_start_def PacketPassInterface_Init_def PacketPassInterface_Sender_Init_def
    PacketPassInterface_EnableCancel_def)

text \<open>C28. However the sender, the provider and the job queue interleave, with cancellations at any
  time: at most one job of a packet interface is pending, the assertions of that job hold when it
  runs, and every packet sent is completed exactly once, the packet in flight excepted, while
  the provider sees no packet twice.\<close>

theorem PacketPassInterface_protocol:
  assumes "trace ppi_step (ppi_start m cancel) evs i"
  shows "length (ppi_jobs i) \<le> 1 \<and>
    (\<forall>j js. ppi_jobs i = j # js \<longrightarrow> ppi_asserts j (i\<lparr>ppi_jobs := js\<rparr>)) \<and>
    count_list evs Ev_start = count_list evs Ev_done + of_bool (ppi_state i \<noteq> STATE_NONE) \<and>
    count_list evs Ev_operation = count_list evs Ev_complete + of_bool (ppi_state i = STATE_BUSY) \<and>
    count_list evs Ev_operation \<le> count_list evs Ev_start"
proof -
  have inv: "ppi_inv i"
    using ppi.trace_inv [OF assms] ppi_start_inv by blast
  then have "length (ppi_jobs i) \<le> 1"
    by (auto split: if_state.splits)
  with inv ppi_inv_asserts ppi.trace_counts [OF assms ppi_start_inv] show ?thesis
    by (metis add_leE)
qed

lemma sample_ppi_trace:
  "trace ppi_step (ppi_start 10 True) [Ev_start, Ev_cancel, Ev_done]
     ((ppi_start 10 True)\<lparr>ppi_data := [1, 2], cancel_requested := True\<rparr>)"
proof -
  let ?i1 = "PacketPassInterface_Sender_Send (ppi_start 10 True) [1, 2]"
  let ?i2 = "PacketPassInterface_Sender_RequestCancel ?i1"
  have "trace ppi_step (ppi_start 10 True) ([] @ [Ev_start]) ?i1"
    by (intro trace_snoc [OF trace_nil] ppi_send)
      (simp_all add: ppi_start_def PacketPassInterface_Init_def PacketPassInterface_Sender_Init_def
        PacketPassInterface_EnableCancel_def)
  then have "trace ppi_step (ppi_start 10 True) (([] @ [Ev_start]) @ [Ev_cancel]) ?i2"
    by (rule trace_snoc) (rule ppi_cancel; simp add: ppi_start_def PacketPassInterface_Init_def
      PacketPassInterface_Sender_Init_def PacketPassInterface_EnableCancel_def ppi_defs)
  moreover have "ppi_step ?i2 (ppi_event Handler_done) ((ppi_start 10 True)\<lparr>ppi_data := [1, 2], cancel_requested := True\<rparr>)"
    by (rule ppi_job [of _ Job_done "[]"]) (simp_all add: ppi_start_def PacketPassInterface_Init_def
      PacketPassInterface_Sender_Init_def PacketPassInterface_EnableCancel_def ppi_defs)
  ultimately show ?thesis
    using trace_snoc by fastforce
qed

theorem PacketPassInterface_protocol_witness:
  "count_list [Ev_start, Ev_cancel, Ev_done] Ev_start = count_list [Ev_start, Ev_cancel, Ev_done] Ev_done +
    of_bool (ppi_state ((ppi_start 10 True)\<lparr>ppi_data := [1, 2], cancel_requested := True\<rparr>) \<noteq> STATE_NONE)"
  using PacketPassInterface_protocol [OF sample_ppi_trace] by blast

text \<open>A stream interface whose user and provider keep to the assertions never completes an
  operation with nothing or with more than was asked for, the assertions of its jobs hold, and
  each operation reaches the provider once and is completed once.\<close>

theorem StreamPassInterface_protocol:
  assumes "trace spi_step (StreamPassInterface_Sender_Init (StreamPassInterface_Init null)) evs i"
  shows "(\<forall>j js. spi_jobs i = j # js \<longrightarrow> js = [] \<and> spi_asserts j (i\<lparr>spi_jobs := js\<rparr>)) \<and>
    (Sjob_done \<in> set (spi_jobs i) \<longrightarrow> 0 < spi_done_len i \<and> spi_done_len i \<le> spi_len i) \<and>
    count_list evs Ev_start = count_list evs Ev_done + of_bool (spi_state i \<noteq> STATE_NONE) \<and>
    count_list evs Ev_operation = count_list evs Ev_complete + of_bool (spi_state i = STATE_BUSY) \<and>
    count_list evs Ev_start = count_list evs Ev_operation + of_bool (spi_state i = STATE_OPERATION_PENDING)"
proof -
  have start: "spi_inv (StreamPassInterface_Sender_Init (StreamPassInterface_Init null))"
    "spi_state (StreamPassInterface_Sender_Init (StreamPassInterface_Init null)) = STATE_NONE"
    by (simp_all add: StreamPassInterface_Sender_Init_def StreamPassInterface_Init_def)
  have inv: "spi_inv i"
    using spi.trace_inv [OF assms] start by blast
  have "Ev_cancel \<notin> set evs"
    using assms by (induction rule: trace.induct) (auto elim!: spi_stepE, metis flow_event.distinct spi_event.elims)
  moreover have "spi_jobs i = j # js \<Longrightarrow> js = []" for j js
    using inv by (auto split: if_state.splits)
  moreover have "Sjob_done \<in> set (spi_jobs i) \<Longrightarrow> 0 < spi_done_len i \<and> spi_done_len i \<le> spi_len i"
    using inv by (auto split: if_state.splits)
  ultimately show ?thesis
    using spi_inv_asserts [OF inv] spi.trace_counts [OF assms start] spi.trace_counts_plain [OF assms start] by blast
qed

theorem StreamPassInterface_protocol_witness:
  "count_list [Ev_start] Ev_start = count_list [Ev_start] Ev_operation + of_bool (spi_state
    (StreamPassInterface_Sender_Send (StreamPassInterface_Sender_Init (StreamPassInterface_Init (0 :: nat))) 7 3)
      = STATE_OPERATION_PENDING)"
proof -
  have "trace spi_step (StreamPassInterface_Sender_Init (StreamPassInterface_Init (0 :: nat))) ([] @ [Ev_start])
    (StreamPassInterface_Sender_Send (StreamPassInterface_Sender_Init (StreamPassInterface_Init 0)) 7 3)"
    by (intro trace_snoc [OF trace_nil] spi_send)
      (simp_all add: StreamPassInterface_Sender_Init_def StreamPassInterface_Init_def)
  from StreamPassInterface_protocol [OF this] show ?thesis
    by simp
qed

end
