(* ===== verification/ChunkBuffer.thy ===== *)
theory ChunkBuffer
  imports Bsize ByteOrder
begin

text \<open>
  The circular packet buffer of \<open>structure/ChunkBuffer2.h\<close>.  The buffer is the array of 4-byte
  blocks as its bytes; a packet occupies a block with its length and the blocks of its data.
  Indices and counters are C \<open>int\<close>s, kept as integers; the conversion of the \<open>size_t\<close> product in
  \<open>_ChunkBuffer2_update_input\<close> to \<open>int\<close> is written out.  A data pointer is the byte offset it
  points to, \<open>None\<close> for \<open>NULL\<close>.
\<close>

record ChunkBuffer2 =
  buffer :: bytes
  csize :: int
  wrap :: int
  start :: int
  used :: int
  cmtu :: int
  input_dest :: "int option"
  input_avail :: int
  output_dest :: "int option"
  output_avail :: int

definition to_int :: "int \<Rightarrow> int" where
  "to_int x = signed_take_bit 31 x"

text \<open>Reading and writing the array.\<close>

definition mslice :: "nat \<Rightarrow> nat \<Rightarrow> bytes \<Rightarrow> bytes" where
  "mslice a n m = take n (drop a m)"

definition put :: "bytes \<Rightarrow> nat \<Rightarrow> bytes \<Rightarrow> bytes" where
  "put xs a m = take a m @ xs @ drop (a + length xs) m"

definition block_len :: "bytes \<Rightarrow> int \<Rightarrow> int" where
  "block_len m i = sint (badvpn_read_le32 (drop (nat (4 * i)) m))"

definition set_block_len :: "int \<Rightarrow> int \<Rightarrow> bytes \<Rightarrow> bytes" where
  "set_block_len i len m = put (mem32 (word_of_int len)) (nat (4 * i)) m"

definition ChunkBuffer2_end :: "ChunkBuffer2 \<Rightarrow> int" where
  "ChunkBuffer2_end b =
     (if used b \<ge> wrap b - start b then used b - (wrap b - start b) else start b + used b)"

definition ChunkBuffer2_assert_buffer :: "ChunkBuffer2 \<Rightarrow> bool" where
  "ChunkBuffer2_assert_buffer b =
     (csize b > 0 \<and> wrap b > 0 \<and> wrap b \<le> csize b \<and> start b \<ge> 0 \<and> start b < wrap b \<and>
      used b \<ge> 0 \<and> used b \<le> wrap b \<and> (wrap b = csize b \<or> used b \<ge> wrap b - start b) \<and> cmtu b \<ge> 0)"

definition ChunkBuffer2_update_input :: "ChunkBuffer2 \<Rightarrow> ChunkBuffer2" where
  "ChunkBuffer2_update_input b =
     (let end = ChunkBuffer2_end b in
      if csize b - end - 1 < cmtu b then b\<lparr>input_dest := None, input_avail := - 1\<rparr>
      else let free = (if used b \<ge> wrap b - start b then start b - end else csize b - end) in
        if free > 0 then b\<lparr>input_dest := Some (4 * (end + 1)), input_avail := to_int ((free - 1) * 4)\<rparr>
        else b\<lparr>input_dest := None, input_avail := - 1\<rparr>)"

definition ChunkBuffer2_update_output :: "ChunkBuffer2 \<Rightarrow> ChunkBuffer2" where
  "ChunkBuffer2_update_output b =
     (if used b > 0 then
        b\<lparr>output_dest := Some (4 * (start b + 1)), output_avail := block_len (buffer b) (start b)\<rparr>
      else b\<lparr>output_dest := None, output_avail := - 1\<rparr>)"

text \<open>The two halves of \<open>_ChunkBuffer2_assert_io\<close>.\<close>

definition ChunkBuffer2_assert_input :: "ChunkBuffer2 \<Rightarrow> bool" where
  "ChunkBuffer2_assert_input b =
     (let end = ChunkBuffer2_end b in
      if csize b - end - 1 < cmtu b then input_dest b = None \<and> input_avail b = - 1
      else let free = (if used b \<ge> wrap b - start b then start b - end else csize b - end) in
        if free > 0 then input_dest b = Some (4 * (end + 1)) \<and> input_avail b = (free - 1) * 4
        else input_dest b = None \<and> input_avail b = - 1)"

definition ChunkBuffer2_assert_output :: "ChunkBuffer2 \<Rightarrow> bool" where
  "ChunkBuffer2_assert_output b =
     (if used b > 0 then
        (let datalen = block_len (buffer b) (start b);
             blocklen = int (bdivide_up (nat datalen) 4)
         in datalen \<ge> 0 \<and> blocklen \<le> used b - 1 \<and> blocklen \<le> wrap b - start b - 1 \<and>
            output_dest b = Some (4 * (start b + 1)) \<and> output_avail b = datalen)
      else output_dest b = None \<and> output_avail b = - 1)"

definition ChunkBuffer2_calc_blocks :: "int \<Rightarrow> int \<Rightarrow> int" where
  "ChunkBuffer2_calc_blocks chunk_len num =
     (let chunk_data_blocks = int (bdivide_up (nat chunk_len) 4) in
      if chunk_data_blocks > INT_MAX - 1 then - 1
      else let chunk_blocks = 1 + chunk_data_blocks in
        if num > INT_MAX - 1 then - 1
        else let num_chunks = num + 1 in
          if chunk_blocks > INT_MAX div num_chunks then - 1
          else chunk_blocks * num_chunks)"

definition ChunkBuffer2_Init :: "bytes \<Rightarrow> int \<Rightarrow> int \<Rightarrow> ChunkBuffer2" where
  "ChunkBuffer2_Init array blocks mtu =
     (let b = \<lparr>buffer = array, csize = blocks, wrap = blocks, start = 0, used = 0,
               cmtu = int (bdivide_up (nat mtu) 4),
               input_dest = None, input_avail = 0, output_dest = None, output_avail = 0\<rparr>
      in ChunkBuffer2_update_output (ChunkBuffer2_update_input b))"

definition ChunkBuffer2_SubmitPacket :: "ChunkBuffer2 \<Rightarrow> int \<Rightarrow> ChunkBuffer2" where
  "ChunkBuffer2_SubmitPacket b len =
     (let end = ChunkBuffer2_end b;
          blocklen = int (bdivide_up (nat len) 4);
          b1 = b\<lparr>buffer := set_block_len end len (buffer b), used := used b + (1 + blocklen)\<rparr>;
          b2 = (if used b1 \<le> wrap b1 - start b1 \<and> cmtu b1 > csize b1 - (end + 1 + blocklen) - 1
                then b1\<lparr>wrap := end + 1 + blocklen\<rparr> else b1);
          b3 = ChunkBuffer2_update_input b2
      in if used b3 = 1 + blocklen then ChunkBuffer2_update_output b3 else b3)"

definition ChunkBuffer2_ConsumePacket :: "ChunkBuffer2 \<Rightarrow> ChunkBuffer2" where
  "ChunkBuffer2_ConsumePacket b =
     (let blocklen = int (bdivide_up (nat (block_len (buffer b) (start b))) 4);
          data_wrapped = (used b \<ge> wrap b - start b);
          b1 = b\<lparr>start := start b + (1 + blocklen), used := used b - (1 + blocklen)\<rparr>;
          b2 = (if start b1 = wrap b1 then b1\<lparr>start := 0, wrap := csize b1\<rparr> else b1);
          b3 = (if data_wrapped then ChunkBuffer2_update_input b2 else b2)
      in ChunkBuffer2_update_output b3)"

text \<open>What fills a packet's data before it is submitted: a write at \<open>input_dest\<close>.\<close>

definition ChunkBuffer2_fill :: "ChunkBuffer2 \<Rightarrow> bytes \<Rightarrow> ChunkBuffer2" where
  "ChunkBuffer2_fill b data =
     (case input_dest b of None \<Rightarrow> b | Some d \<Rightarrow> b\<lparr>buffer := put data (nat d) (buffer b)\<rparr>)"

section \<open>Memory\<close>

lemma length_put [simp]: "a + length xs \<le> length m \<Longrightarrow> length (put xs a m) = length m"
  by (simp add: put_def)

lemma length_slice: "a + n \<le> length m \<Longrightarrow> length (mslice a n m) = n"
  by (simp add: mslice_def)

lemma slice_put_same: "a \<le> length m \<Longrightarrow> mslice a (length xs) (put xs a m) = xs"
  by (simp add: mslice_def put_def)

lemma put_nth:
  "a + length xs \<le> length m \<Longrightarrow> i < length m \<Longrightarrow>
     put xs a m ! i = (if a \<le> i \<and> i < a + length xs then xs ! (i - a) else m ! i)"
  by (auto simp: put_def nth_append min_def)

lemma slice_put_other:
  assumes "a + length xs \<le> length m" "b + n \<le> a \<or> a + length xs \<le> b" "b + n \<le> length m"
  shows "mslice b n (put xs a m) = mslice b n m"
  by (rule nth_equalityI) (use assms in \<open>auto simp: mslice_def put_nth\<close>)

lemma slice_sub:
  assumes "mslice a n m = mslice a n m'" "a \<le> b" "b + k \<le> a + n"
  shows "mslice b k m = mslice b k m'"
proof -
  have *: "mslice b k x = take k (drop (b - a) (mslice a n x))" for x
    using assms(2,3) by (simp only: mslice_def drop_take take_take drop_drop) (simp add: min_absorb1)
  show ?thesis
    by (simp only: * [of m] * [of m'] assms(1))
qed

lemma read_le32_slice: "a + 4 \<le> length m \<Longrightarrow> badvpn_read_le32 (drop a m) = badvpn_read_le32 (mslice a 4 m)"
  by (simp add: badvpn_read_le32_def mslice_def)

section \<open>Packets in the array\<close>

definition blocks :: "bytes \<Rightarrow> nat" where
  "blocks p = 1 + bdivide_up (length p) 4"

text \<open>The packets \<open>ps\<close> lie one after the other from block \<open>s\<close> to block \<open>e\<close>, none starting after
  block \<open>lim\<close>.\<close>

fun chain :: "bytes \<Rightarrow> nat \<Rightarrow> nat \<Rightarrow> bytes list \<Rightarrow> nat \<Rightarrow> bool" where
  "chain m lim s [] e = (s = e)"
| "chain m lim s (p # ps) e =
     (s \<le> lim \<and> int (length p) \<le> INT_MAX \<and> mslice (4 * s) 4 m = mem32 (of_nat (length p)) \<and>
      mslice (4 * s + 4) (length p) m = p \<and> chain m lim (s + blocks p) ps e)"

lemma blocks_bound: "4 + length p \<le> 4 * blocks p" "blocks p \<ge> 1"
  by (simp_all add: blocks_def bdivide_up_ge)

lemma chain_le: "chain m lim s ps e \<Longrightarrow> e = s + sum_list (map blocks ps)"
  by (induction ps arbitrary: s) fastforce+

lemma chain_append:
  "chain m lim s (ps @ qs) e \<longleftrightarrow>
     (\<exists>k. chain m lim s ps k \<and> chain m lim k qs e)"
  by (induction ps arbitrary: s) auto

lemma chain_frame:
  assumes "chain m lim s ps e" "mslice (4 * s) (4 * (e - s)) m = mslice (4 * s) (4 * (e - s)) m'"
  shows "chain m' lim s ps e"
  using assms
proof (induction ps arbitrary: s)
  case (Cons p ps)
  have e: "e = s + blocks p + sum_list (map blocks ps)"
    using chain_le [OF Cons.prems(1)] by simp
  have sub: "mslice b k m' = mslice b k m" if "4 * s \<le> b" "b + k \<le> 4 * e" for b k
    using slice_sub [OF Cons.prems(2), of b k] that by auto
  have "4 * s + 4 + length p \<le> 4 * e"
    using e blocks_bound [of p] by linarith
  then have "mslice (4 * s) 4 m' = mslice (4 * s) 4 m" "mslice (4 * s + 4) (length p) m' = mslice (4 * s + 4) (length p) m"
    by (auto intro: sub)
  moreover have "chain m' lim (s + blocks p) ps e"
    using Cons.prems e by (intro Cons.IH) (auto intro!: sub [symmetric])
  ultimately show ?case
    using Cons.prems(1) by simp
qed simp

lemma chain_put:
  assumes "chain m lim s ps e" "a + length xs \<le> length m" "4 * e \<le> a \<or> a + length xs \<le> 4 * s" "4 * e \<le> length m"
  shows "chain (put xs a m) lim s ps e"
proof (rule chain_frame [OF assms(1)])
  have "s \<le> e"
    using chain_le [OF assms(1)] by simp
  then show "mslice (4 * s) (4 * (e - s)) m = mslice (4 * s) (4 * (e - s)) (put xs a m)"
    by (intro slice_put_other [symmetric]) (use assms in auto)
qed

lemma block_len_slice:
  assumes "mslice (nat (4 * i)) 4 m = mem32 (of_nat n)" "int n \<le> INT_MAX" "nat (4 * i) + 4 \<le> length m"
  shows "block_len m i = int n"
proof -
  have "badvpn_read_le32 (drop (nat (4 * i)) m) = of_nat n"
    using assms(1,3) load_mem(2) [of "of_nat n" "[]"] by (simp add: read_le32_slice)
  moreover have "sint (of_nat n :: u32) = int n"
    using assms(2) by (simp add: signed_of_nat signed_take_bit_int_eq_self)
  ultimately show ?thesis
    by (simp add: block_len_def)
qed

section \<open>The ring\<close>

text \<open>How the packets \<open>ps\<close> lie in \<open>z\<close> blocks with \<open>start\<close>, \<open>used\<close>, \<open>wrap\<close> and \<open>mtu\<close> being \<open>s\<close>, \<open>u\<close>, \<open>w\<close>
  and \<open>t\<close>: in one piece, with room for a packet of the largest size behind it, or in two pieces,
  the first ending at \<open>w\<close> and the second starting at block 0.\<close>

definition ring :: "bytes \<Rightarrow> nat \<Rightarrow> nat \<Rightarrow> nat \<Rightarrow> nat \<Rightarrow> nat \<Rightarrow> bytes list \<Rightarrow> bool" where
  "ring m s u w z t ps =
     (if s + u < w then w = z \<and> s + u + 1 + t \<le> z \<and> chain m (z - t - 1) s ps (s + u)
      else \<exists>ps1 ps2. ps = ps1 @ ps2 \<and> ps1 \<noteq> [] \<and> z \<le> w + t \<and> u \<le> w \<and>
        chain m (z - t - 1) s ps1 w \<and> chain m (z - t - 1) 0 ps2 (s + u - w))"

definition ring_end :: "nat \<Rightarrow> nat \<Rightarrow> nat \<Rightarrow> nat" where
  "ring_end s u w = (if s + u < w then s + u else s + u - w)"

definition ring_free :: "nat \<Rightarrow> nat \<Rightarrow> nat \<Rightarrow> nat \<Rightarrow> nat" where
  "ring_free s u w z = (if s + u < w then z - ring_end s u w else s - ring_end s u w)"

lemma ring_start: "ring m s u w z t ps \<Longrightarrow> s < w \<Longrightarrow> w \<le> z \<Longrightarrow> t < z \<Longrightarrow> s + 1 + t \<le> z"
proof (cases "s + u < w")
  case False
  assume "ring m s u w z t ps" "t < z"
  with False obtain ps1 where "ps1 \<noteq> []" "chain m (z - t - 1) s ps1 w"
    by (auto simp: ring_def)
  then have "s \<le> z - t - 1"
    by (cases ps1) auto
  with \<open>t < z\<close> show ?thesis by linarith
qed (auto simp: ring_def)

lemma ring_end_room: "ring m s u w z t ps \<Longrightarrow> s < w \<Longrightarrow> w \<le> z \<Longrightarrow> t < z \<Longrightarrow> ring_end s u w + 1 + t \<le> z"
  using ring_start [of m s u w z t ps] by (auto simp: ring_def ring_end_def split: if_splits)

lemma ring_one:
  "s + u + 1 + t \<le> z \<Longrightarrow> chain m (z - t - 1) s ps (s + u) \<Longrightarrow> ring m s u z z t ps"
  by (simp add: ring_def)

lemma ring_two:
  "w \<le> s + u \<Longrightarrow> u \<le> w \<Longrightarrow> z \<le> w + t \<Longrightarrow> ps1 \<noteq> [] \<Longrightarrow> chain m (z - t - 1) s ps1 w \<Longrightarrow>
     chain m (z - t - 1) 0 ps2 (s + u - w) \<Longrightarrow> ring m s u w z t (ps1 @ ps2)"
  by (auto simp: ring_def)

text \<open>A packet written behind the last one.\<close>

lemma chain_snoc_put:
  assumes "chain m lim s ps e" "e \<le> lim" "4 * (e + blocks p) \<le> length m" "int (length p) \<le> INT_MAX"
  shows "chain (put (mem32 (of_nat (length p))) (4 * e) (put p (4 * e + 4) m)) lim s (ps @ [p]) (e + blocks p)"
proof -
  have len: "4 * e + 4 + length p \<le> length m"
    using assms(3) blocks_bound(1) [of p] by (simp add: distrib_left)
  let ?m1 = "put p (4 * e + 4) m" and ?m2 = "put (mem32 (of_nat (length p))) (4 * e) (put p (4 * e + 4) m)"
  have "chain ?m1 lim s ps e"
    using assms(1) len by (intro chain_put) auto
  then have "chain ?m2 lim s ps e"
    by (rule chain_put) (use len in \<open>auto simp: length_mem\<close>)
  moreover have "mslice (4 * e) 4 ?m2 = mem32 (of_nat (length p))"
    using slice_put_same [of "4 * e" ?m1 "mem32 (of_nat (length p))"] len by (simp add: length_mem)
  moreover have "mslice (4 * e + 4) (length p) ?m2 = mslice (4 * e + 4) (length p) ?m1"
    using len by (intro slice_put_other) (auto simp: length_mem)
  moreover have "mslice (4 * e + 4) (length p) ?m1 = p"
    using len by (intro slice_put_same) auto
  ultimately show ?thesis
    using assms(2,4) by (auto simp: chain_append)
qed

lemma chain_other_put:
  assumes "chain m lim s ps e" "4 * e \<le> length m" "4 * (k + blocks p) \<le> length m" "k + blocks p \<le> s"
  shows "chain (put (mem32 v) (4 * k) (put p (4 * k + 4) m)) lim s ps e"
proof -
  have "4 * k + 4 + length p \<le> 4 * (k + blocks p)"
    using blocks_bound(1) [of p] by (simp add: distrib_left)
  then show ?thesis
    using assms by (intro chain_put) (auto simp: length_mem)
qed

lemma ring_submit:
  assumes "ring m s u w z t ps" "s < w" "w \<le> z" "t < z" "length m = 4 * z" "int (length p) \<le> INT_MAX"
    "blocks p \<le> ring_free s u w z"
  defines "e \<equiv> ring_end s u w"
  shows "ring (put (mem32 (of_nat (length p))) (4 * e) (put p (4 * e + 4) m)) s (u + blocks p)
    (if u + blocks p + s \<le> w \<and> z < e + blocks p + 1 + t then e + blocks p else w) z t (ps @ [p])"
    (is "ring ?m _ _ ?w _ _ _")
proof -
  have e: "e + 1 + t \<le> z" "e \<le> z - t - 1"
    using ring_end_room [OF assms(1-4)] by (auto simp: e_def)
  show ?thesis
  proof (cases "s + u < w")
    case True
    with assms have ch: "chain m (z - t - 1) s ps (s + u)" and we: "w = z" "e = s + u" "blocks p \<le> z - e"
      by (auto simp: ring_def e_def ring_end_def ring_free_def)
    have "chain ?m (z - t - 1) s (ps @ [p]) (e + blocks p)"
      by (rule chain_snoc_put) (use ch we e assms in auto)
    then show ?thesis
      using ring_two [of "e + blocks p" s "u + blocks p" z t "ps @ [p]" ?m "[]"] ring_one [of s "u + blocks p" t z ?m]
        True we by (auto simp: add.commute add.left_commute)
  next
    case False
    with assms obtain ps1 ps2 where ch: "ps = ps1 @ ps2" "ps1 \<noteq> []" "z \<le> w + t" "u \<le> w"
      "chain m (z - t - 1) s ps1 w" "chain m (z - t - 1) 0 ps2 e" and free: "blocks p \<le> s - e" "e = s + u - w"
      by (auto simp: ring_def e_def ring_end_def ring_free_def)
    have "chain ?m (z - t - 1) 0 (ps2 @ [p]) (e + blocks p)"
      by (rule chain_snoc_put) (use ch free e assms in auto)
    moreover have "chain ?m (z - t - 1) s ps1 w"
      by (rule chain_other_put) (use ch free e assms blocks_bound(2) [of p] in auto)
    moreover have "e + blocks p \<le> s"
      using free blocks_bound(2) [of p] by linarith
    ultimately show ?thesis
      using ring_two [of w s "u + blocks p" z t ps1 ?m "ps2 @ [p]"] False ch free blocks_bound(2) [of p]
      by (auto simp: add.commute add.left_commute)
  qed
qed

lemma ring_consume:
  assumes "ring m s u w z t (p # ps)" "s < w" "w \<le> z" "t < z"
  shows "blocks p \<le> u" "s + blocks p \<le> w"
    "mslice (4 * s) 4 m = mem32 (of_nat (length p)) \<and> mslice (4 * s + 4) (length p) m = p \<and> int (length p) \<le> INT_MAX"
    "if s + blocks p = w then ring m 0 (u - blocks p) z z t ps else ring m (s + blocks p) (u - blocks p) w z t ps"
    "s + blocks p = w \<Longrightarrow> w \<le> s + u"
proof -
  have s: "s + 1 + t \<le> z"
    using ring_start [OF assms] .
  have "blocks p \<le> u \<and> s + blocks p \<le> w \<and>
    mslice (4 * s) 4 m = mem32 (of_nat (length p)) \<and> mslice (4 * s + 4) (length p) m = p \<and> int (length p) \<le> INT_MAX \<and>
    (if s + blocks p = w then ring m 0 (u - blocks p) z z t ps else ring m (s + blocks p) (u - blocks p) w z t ps) \<and>
    (s + blocks p = w \<longrightarrow> w \<le> s + u)"
  proof (cases "s + u < w")
    case True
    with assms(1) have "chain m (z - t - 1) s (p # ps) (s + u)" "s + u + 1 + t \<le> z" "w = z"
      by (auto simp: ring_def)
    with True show ?thesis
      using chain_le [of m "z - t - 1" s "p # ps" "s + u"] ring_one [of "s + blocks p" "u - blocks p" t z m ps]
      by (auto simp: add.assoc)
  next
    case False
    with assms(1) obtain ps1 ps2 where ch: "p # ps = ps1 @ ps2" "ps1 \<noteq> []" "z \<le> w + t" "u \<le> w"
      "chain m (z - t - 1) s ps1 w" "chain m (z - t - 1) 0 ps2 (s + u - w)"
      by (auto simp: ring_def)
    then obtain qs where qs: "ps1 = p # qs" "ps = qs @ ps2"
      by (cases ps1) auto
    have w: "w = s + blocks p + sum_list (map blocks qs)"
      using chain_le [OF ch(5)] qs by simp
    show ?thesis
    proof (cases "qs = []")
      case True
      with w ch qs False s show ?thesis
        using ring_one [of 0 "u - blocks p" t z m ps2] by auto
    next
      case rest: False
      then have "s + blocks p < w"
        using w blocks_bound(2) [of "hd qs"] by (cases qs) auto
      moreover have "blocks p \<le> u" "s + blocks p + (u - blocks p) = s + u"
        using w False by linarith+
      ultimately show ?thesis
        using ring_two [of w "s + blocks p" "u - blocks p" z t qs m ps2] ch qs False rest
        by (auto simp: not_less)
    qed
  qed
  then show "blocks p \<le> u" "s + blocks p \<le> w"
    "mslice (4 * s) 4 m = mem32 (of_nat (length p)) \<and> mslice (4 * s + 4) (length p) m = p \<and> int (length p) \<le> INT_MAX"
    "if s + blocks p = w then ring m 0 (u - blocks p) z z t ps else ring m (s + blocks p) (u - blocks p) w z t ps"
    "s + blocks p = w \<Longrightarrow> w \<le> s + u"
    by blast+
qed

section \<open>The buffer holds a queue of packets\<close>

definition cb_ring :: "ChunkBuffer2 \<Rightarrow> bytes list \<Rightarrow> bool" where
  "cb_ring b ps = (\<exists>s u w z t. start b = int s \<and> used b = int u \<and> wrap b = int w \<and> csize b = int z \<and>
     cmtu b = int t \<and> s < w \<and> w \<le> z \<and> t < z \<and> 4 * int z \<le> INT_MAX \<and> length (buffer b) = 4 * z \<and>
     ring (buffer b) s u w z t ps)"

definition cb_holds :: "ChunkBuffer2 \<Rightarrow> bytes list \<Rightarrow> bool" where
  "cb_holds b ps = (cb_ring b ps \<and> ChunkBuffer2_assert_input b \<and> ChunkBuffer2_assert_output b)"

lemma to_int_self: "0 \<le> x \<Longrightarrow> x \<le> INT_MAX \<Longrightarrow> to_int x = x"
  by (simp add: to_int_def signed_take_bit_int_eq_self)

lemma cb_ringE:
  assumes "cb_ring b ps"
  obtains s u w z t where "start b = int s" "used b = int u" "wrap b = int w" "csize b = int z" "cmtu b = int t"
    "s < w" "w \<le> z" "t < z" "4 * int z \<le> INT_MAX" "length (buffer b) = 4 * z" "ring (buffer b) s u w z t ps"
  using assms by (auto simp: cb_ring_def)

lemma cb_ring_assert_buffer: "cb_ring b ps \<Longrightarrow> ChunkBuffer2_assert_buffer b"
  by (erule cb_ringE) (auto simp: ChunkBuffer2_assert_buffer_def ring_def split: if_splits)

lemma end_eq: "start b = int s \<Longrightarrow> used b = int u \<Longrightarrow> wrap b = int w \<Longrightarrow> s < w \<Longrightarrow> ChunkBuffer2_end b = int (ring_end s u w)"
  by (auto simp: ChunkBuffer2_end_def ring_end_def)

lemma end_buffer [simp]: "ChunkBuffer2_end (b\<lparr>buffer := m\<rparr>) = ChunkBuffer2_end b"
  by (simp add: ChunkBuffer2_end_def)

text \<open>The pointer for the next packet: the branch for a place that can never hold a packet of
  the largest size is never taken.\<close>

lemma cb_ring_input:
  assumes "cb_ring b ps"
  shows "ChunkBuffer2_assert_input (ChunkBuffer2_update_input b)"
proof -
  from assms obtain s u w z t where b: "start b = int s" "used b = int u" "wrap b = int w" "csize b = int z"
    "cmtu b = int t" "s < w" "w \<le> z" "t < z" "4 * int z \<le> INT_MAX" "ring (buffer b) s u w z t ps"
    by (auto elim: cb_ringE)
  have room: "ring_end s u w + 1 + t \<le> z"
    using ring_end_room b by blast
  define free where "free = (if used b \<ge> wrap b - start b then start b - ChunkBuffer2_end b else csize b - ChunkBuffer2_end b)"
  have "free \<le> csize b" and "ChunkBuffer2_end (ChunkBuffer2_update_input b) = ChunkBuffer2_end b"
    using b room end_eq [OF b(1,2,3,6)]
    by (auto simp: free_def ChunkBuffer2_update_input_def ChunkBuffer2_end_def Let_def)
  moreover have "to_int ((free - 1) * 4) = (free - 1) * 4" if "free > 0"
    using that \<open>free \<le> csize b\<close> b by (intro to_int_self) auto
  ultimately show ?thesis
    unfolding ChunkBuffer2_assert_input_def ChunkBuffer2_update_input_def free_def
    by (auto simp: Let_def ChunkBuffer2_end_def)
qed

lemma cb_ring_first:
  assumes "cb_ring b (p # ps)"
  shows "used b > 0" "block_len (buffer b) (start b) = int (length p)"
    "mslice (nat (4 * (start b + 1))) (length p) (buffer b) = p"
    "int (blocks p) \<le> used b" "start b + int (blocks p) \<le> wrap b"
proof -
  from assms obtain s u w z t where b: "start b = int s" "used b = int u" "wrap b = int w" "csize b = int z"
    "cmtu b = int t" "s < w" "w \<le> z" "t < z" "length (buffer b) = 4 * z" "ring (buffer b) s u w z t (p # ps)"
    by (auto elim: cb_ringE)
  note c = ring_consume [OF b(10,6,7,8)]
  have s4: "nat (4 * start b) = 4 * s" "nat (4 * (start b + 1)) = 4 * s + 4"
    using b(1) by auto
  show "used b > 0" "int (blocks p) \<le> used b" "start b + int (blocks p) \<le> wrap b"
    using c(1,2) b blocks_bound(2) [of p] by auto
  show "mslice (nat (4 * (start b + 1))) (length p) (buffer b) = p"
    using c(3) s4 by simp
  show "block_len (buffer b) (start b) = int (length p)"
    by (rule block_len_slice) (use c(3) s4 b in auto)
qed

lemma cb_ring_empty: "cb_ring b [] \<Longrightarrow> used b = 0"
  by (erule cb_ringE) (auto simp: ring_def split: if_splits)

lemma cb_ring_output:
  assumes "cb_ring b ps"
  shows "ChunkBuffer2_assert_output (ChunkBuffer2_update_output b)"
proof (cases ps)
  case Nil
  with assms show ?thesis
    by (simp add: ChunkBuffer2_assert_output_def ChunkBuffer2_update_output_def cb_ring_empty)
next
  case (Cons p qs)
  note f = cb_ring_first [OF assms [unfolded Cons]]
  then show ?thesis
    by (simp add: ChunkBuffer2_assert_output_def ChunkBuffer2_update_output_def Let_def blocks_def)
qed

text \<open>The updates leave the ring alone, and each keeps what the other computed.\<close>

lemma update_fields [simp]:
  "cb_ring (ChunkBuffer2_update_input b) ps = cb_ring b ps"
  "cb_ring (ChunkBuffer2_update_output b) ps = cb_ring b ps"
  "ChunkBuffer2_assert_output (ChunkBuffer2_update_input b) = ChunkBuffer2_assert_output b"
  "ChunkBuffer2_assert_input (ChunkBuffer2_update_output b) = ChunkBuffer2_assert_input b"
  by (simp_all add: ChunkBuffer2_update_input_def ChunkBuffer2_update_output_def cb_ring_def Let_def
    ChunkBuffer2_assert_output_def ChunkBuffer2_assert_input_def ChunkBuffer2_end_def)

lemma used_update_input [simp]: "used (ChunkBuffer2_update_input b) = used b"
  by (simp add: ChunkBuffer2_update_input_def Let_def)

text \<open>Once the first packet is known the output pointer depends on the start alone.\<close>

lemma assert_output_first:
  assumes "cb_ring b (p # ps)"
  shows "ChunkBuffer2_assert_output b \<longleftrightarrow>
    output_dest b = Some (4 * (start b + 1)) \<and> output_avail b = int (length p)"
  using cb_ring_first [OF assms] by (simp add: ChunkBuffer2_assert_output_def Let_def blocks_def)

lemma free_eq:
  assumes "start b = int s" "used b = int u" "wrap b = int w" "csize b = int z" "s < w"
    "ring_end s u w \<le> z" "s + u < w \<or> ring_end s u w \<le> s"
  shows "(if used b \<ge> wrap b - start b then start b - ChunkBuffer2_end b else csize b - ChunkBuffer2_end b) =
    int (ring_free s u w z)"
  using assms end_eq [OF assms(1,2,3,5)] by (auto simp: ring_free_def ring_end_def)

lemma assert_input_some:
  assumes "ChunkBuffer2_assert_input b" "input_dest b \<noteq> None" "start b = int s" "used b = int u" "wrap b = int w"
    "csize b = int z" "s < w" "ring_end s u w \<le> z" "s + u < w \<or> ring_end s u w \<le> s"
  shows "input_dest b = Some (4 * (int (ring_end s u w) + 1))" "0 < ring_free s u w z"
    "input_avail b = 4 * (int (ring_free s u w z) - 1)"
proof -
  note e = end_eq [OF assms(3,4,5,7)]
  with free_eq [OF assms(3-9)] assms(1,2) show "input_dest b = Some (4 * (int (ring_end s u w) + 1))" "0 < ring_free s u w z"
    "input_avail b = 4 * (int (ring_free s u w z) - 1)"
    by (auto simp: ChunkBuffer2_assert_input_def Let_def split: if_splits)
qed

lemma input_of_ring:
  assumes "ChunkBuffer2_assert_input b" "ring (buffer b) s u w z t ps" "start b = int s" "used b = int u"
    "wrap b = int w" "csize b = int z" "cmtu b = int t" "s < w" "w \<le> z" "t < z"
  shows "input_dest b = (if 0 < ring_free s u w z then Some (4 * (int (ring_end s u w) + 1)) else None)"
    "input_avail b = 4 * (int (ring_free s u w z) - 1) \<or> ring_free s u w z = 0 \<and> input_avail b = - 1"
proof -
  have room: "ring_end s u w + 1 + t \<le> z" "s + u < w \<or> ring_end s u w \<le> s"
    using ring_end_room [OF assms(2,8-10)] assms(2) by (auto simp: ring_def ring_end_def)
  then have le: "ring_end s u w \<le> z" by simp
  show "input_dest b = (if 0 < ring_free s u w z then Some (4 * (int (ring_end s u w) + 1)) else None)"
    "input_avail b = 4 * (int (ring_free s u w z) - 1) \<or> ring_free s u w z = 0 \<and> input_avail b = - 1"
    using assms(1) room(1) assms(6,7) end_eq [OF assms(3-5,8)]
    unfolding ChunkBuffer2_assert_input_def Let_def free_eq [OF assms(3-6,8) le room(2)]
    by (auto split: if_splits)
qed

lemma blocks_le_free: "int (length p) \<le> 4 * (int n - 1) \<Longrightarrow> 0 < n \<Longrightarrow> blocks p \<le> n"
  using bdivide_up_le_iff [of 4 "length p" "n - 1"] by (simp add: blocks_def) linarith

text \<open>The state of \<open>ChunkBuffer2_SubmitPacket\<close> before the pointers are updated.\<close>

definition submitted :: "ChunkBuffer2 \<Rightarrow> int \<Rightarrow> ChunkBuffer2" where
  "submitted b len =
     (let end = ChunkBuffer2_end b;
          blocklen = int (bdivide_up (nat len) 4);
          b1 = b\<lparr>buffer := set_block_len end len (buffer b), used := used b + (1 + blocklen)\<rparr>
      in if used b1 \<le> wrap b1 - start b1 \<and> cmtu b1 > csize b1 - (end + 1 + blocklen) - 1
         then b1\<lparr>wrap := end + 1 + blocklen\<rparr> else b1)"

lemma submit_eq:
  "ChunkBuffer2_SubmitPacket b len =
     (let b3 = ChunkBuffer2_update_input (submitted b len)
      in if used b3 = 1 + int (bdivide_up (nat len) 4) then ChunkBuffer2_update_output b3 else b3)"
  by (simp add: ChunkBuffer2_SubmitPacket_def submitted_def Let_def)

lemma submitted_ring:
  assumes "cb_ring b ps" "ChunkBuffer2_assert_input b" "input_dest b \<noteq> None" "int (length data) \<le> input_avail b"
  shows "cb_ring (submitted (ChunkBuffer2_fill b data) (int (length data))) (ps @ [data])"
proof -
  from assms(1) obtain s u w z t where b: "start b = int s" "used b = int u" "wrap b = int w" "csize b = int z"
    "cmtu b = int t" "s < w" "w \<le> z" "t < z" "4 * int z \<le> INT_MAX" "length (buffer b) = 4 * z"
    "ring (buffer b) s u w z t ps"
    by (elim cb_ringE)
  define e where "e = ring_end s u w"
  have e: "e + 1 + t \<le> z" and le: "s + u < w \<or> e \<le> s"
    using ring_end_room [OF b(11,6,7,8)] b(11) by (auto simp: e_def ring_def ring_end_def)
  have d: "input_dest b = Some (4 * (int e + 1))" and free: "0 < ring_free s u w z"
    and av: "input_avail b = 4 * (int (ring_free s u w z) - 1)"
    using assert_input_some [OF assms(2,3) b(1-4,6)] e le by (simp_all add: e_def)
  have fits: "blocks data \<le> ring_free s u w z"
    using blocks_le_free assms(4) free av by simp
  have len: "int (length data) \<le> INT_MAX"
    using assms(4) av b(6,7,9) by (auto simp: ring_free_def split: if_splits)
  let ?m = "put (mem32 (of_nat (length data))) (4 * e) (put data (4 * e + 4) (buffer b))"
  let ?w = "if u + blocks data + s \<le> w \<and> z < e + blocks data + 1 + t then e + blocks data else w"
  have ring: "ring ?m s (u + blocks data) ?w z t (ps @ [data])"
    unfolding e_def by (rule ring_submit [OF b(11,6,7,8,10) len fits])
  have ez: "e + blocks data \<le> z"
    using fits le b(6,7) by (auto simp: ring_free_def e_def ring_end_def split: if_splits)
  have lens: "4 * e + 4 + length data \<le> 4 * z"
    using ez blocks_bound(1) [of data] by linarith
  have E: "ChunkBuffer2_end b = int e"
    using end_eq [OF b(1,2,3,6)] by (simp add: e_def)
  have fill: "ChunkBuffer2_fill b data = b\<lparr>buffer := put data (4 * e + 4) (buffer b)\<rparr>"
    using d by (simp add: ChunkBuffer2_fill_def nat_add_distrib nat_mult_distrib add.commute)
  have fields: "start (submitted (ChunkBuffer2_fill b data) (int (length data))) = int s"
    "used (submitted (ChunkBuffer2_fill b data) (int (length data))) = int (u + blocks data)"
    "wrap (submitted (ChunkBuffer2_fill b data) (int (length data))) = int ?w"
    "csize (submitted (ChunkBuffer2_fill b data) (int (length data))) = int z"
    "cmtu (submitted (ChunkBuffer2_fill b data) (int (length data))) = int t"
    "buffer (submitted (ChunkBuffer2_fill b data) (int (length data))) = ?m"
    using b(1-5) by (auto simp: submitted_def fill E Let_def blocks_def set_block_len_def nat_mult_distrib)
  have "s < ?w" "?w \<le> z"
    using b(6,7) ez blocks_bound(2) [of data] by (auto simp: e_def ring_end_def split: if_splits)
  moreover have "length ?m = 4 * z"
    using b(10) lens by (simp add: length_mem)
  ultimately show ?thesis
    unfolding cb_ring_def using fields ring b(8,9) by metis
qed

lemma fill_output:
  "output_dest (submitted (ChunkBuffer2_fill b data) n) = output_dest b"
  "output_avail (submitted (ChunkBuffer2_fill b data) n) = output_avail b"
  "start (submitted (ChunkBuffer2_fill b data) n) = start b"
  "used (submitted (ChunkBuffer2_fill b data) n) = used b + (1 + int (bdivide_up (nat n) 4))"
  by (auto simp: submitted_def ChunkBuffer2_fill_def Let_def split: option.splits)

lemma submit_holds:
  assumes "cb_holds b ps" "input_dest b \<noteq> None" "int (length data) \<le> input_avail b"
  shows "cb_holds (ChunkBuffer2_SubmitPacket (ChunkBuffer2_fill b data) (int (length data))) (ps @ [data])"
proof -
  let ?b = "submitted (ChunkBuffer2_fill b data) (int (length data))"
  have b: "cb_ring b ps" "ChunkBuffer2_assert_input b" "ChunkBuffer2_assert_output b"
    using assms(1) by (simp_all add: cb_holds_def)
  have ring: "cb_ring ?b (ps @ [data])"
    by (rule submitted_ring [OF b(1,2) assms(2,3)])
  note out = fill_output [of b data "int (length data)"]
  show ?thesis
  proof (cases ps)
    case Nil
    then have "used b = 0"
      using b(1) cb_ring_empty by simp
    with out ring show ?thesis
      by (simp add: submit_eq Let_def cb_holds_def cb_ring_input cb_ring_output)
  next
    case (Cons p qs)
    then have "used b > 0" "ChunkBuffer2_assert_output ?b"
      using b(1,3) ring out assert_output_first [of b p qs] assert_output_first [of ?b p "qs @ [data]"]
        cb_ring_first(1) [of b p qs] by auto
    with out ring show ?thesis
      by (simp add: submit_eq Let_def cb_holds_def cb_ring_input cb_ring_output)
  qed
qed

text \<open>The state of \<open>ChunkBuffer2_ConsumePacket\<close> before the pointers are updated.\<close>

definition consumed :: "ChunkBuffer2 \<Rightarrow> ChunkBuffer2" where
  "consumed b =
     (let blocklen = int (bdivide_up (nat (block_len (buffer b) (start b))) 4);
          b1 = b\<lparr>start := start b + (1 + blocklen), used := used b - (1 + blocklen)\<rparr>
      in if start b1 = wrap b1 then b1\<lparr>start := 0, wrap := csize b1\<rparr> else b1)"

lemma consume_eq:
  "ChunkBuffer2_ConsumePacket b =
     ChunkBuffer2_update_output
       (if used b \<ge> wrap b - start b then ChunkBuffer2_update_input (consumed b) else consumed b)"
  by (simp add: ChunkBuffer2_ConsumePacket_def consumed_def Let_def)

lemma consumed_eq:
  assumes "cb_ring b (p # ps)" "start b = int s" "used b = int u" "wrap b = int w" "csize b = int z" "blocks p \<le> u"
  shows "consumed b = (if s + blocks p = w then b\<lparr>start := 0, used := int (u - blocks p), wrap := int z\<rparr>
     else b\<lparr>start := int (s + blocks p), used := int (u - blocks p)\<rparr>)"
proof -
  have bl: "1 + int (bdivide_up (nat (block_len (buffer b) (start b))) 4) = int (blocks p)"
    using cb_ring_first(2) [OF assms(1)] by (simp only: blocks_def nat_int)
  show ?thesis
    unfolding consumed_def Let_def bl using assms(2-6) by (auto simp: of_nat_diff)
qed

lemma consumed_ring:
  assumes "cb_ring b (p # ps)"
  shows "cb_ring (consumed b) ps"
    "used b < wrap b - start b \<Longrightarrow> ChunkBuffer2_assert_input b \<Longrightarrow> ChunkBuffer2_assert_input (consumed b)"
proof -
  from assms obtain s u w z t where b: "start b = int s" "used b = int u" "wrap b = int w" "csize b = int z"
    "cmtu b = int t" "s < w" "w \<le> z" "t < z" "4 * int z \<le> INT_MAX" "length (buffer b) = 4 * z"
    "ring (buffer b) s u w z t (p # ps)"
    by (elim cb_ringE)
  note c = ring_consume [OF b(11,6,7,8)]
  note con = consumed_eq [OF assms b(1-4) c(1)]
  show "cb_ring (consumed b) ps"
  proof (cases "s + blocks p = w")
    case True
    with c(4) b con show ?thesis
      by (auto simp: cb_ring_def intro!: exI [of _ "0 :: nat"] exI [of _ "u - blocks p"] exI [of _ z] exI [of _ t])
  next
    case False
    with c(2,4) b con show ?thesis
      unfolding cb_ring_def
      by (intro exI [of _ "s + blocks p"] exI [of _ "u - blocks p"] exI [of _ w] exI [of _ z] exI [of _ t]) auto
  qed
  show "ChunkBuffer2_assert_input (consumed b)" if "used b < wrap b - start b" "ChunkBuffer2_assert_input b"
  proof -
    have "s + blocks p \<noteq> w"
      using c(5) that(1) b by auto
    with b that c(1) con show ?thesis
      by (auto simp: ChunkBuffer2_assert_input_def ChunkBuffer2_end_def Let_def split: if_splits)
  qed
qed

lemma consume_holds:
  assumes "cb_holds b (p # ps)"
  shows "cb_holds (ChunkBuffer2_ConsumePacket b) ps"
  using assms consumed_ring [of b p ps]
  by (auto simp: cb_holds_def consume_eq cb_ring_input cb_ring_output)

text \<open>The packet at the output pointer.\<close>

definition ChunkBuffer2_output :: "ChunkBuffer2 \<Rightarrow> bytes option" where
  "ChunkBuffer2_output b =
     (case output_dest b of
        None \<Rightarrow> None
      | Some d \<Rightarrow> Some (mslice (nat d) (nat (output_avail b)) (buffer b)))"

lemma output_holds:
  assumes "cb_holds b ps"
  shows "ChunkBuffer2_output b = (case ps of [] \<Rightarrow> None | p # _ \<Rightarrow> Some p)" "output_avail b < 0 \<longleftrightarrow> ps = []"
proof -
  have "ChunkBuffer2_output b = (case ps of [] \<Rightarrow> None | p # _ \<Rightarrow> Some p) \<and> (output_avail b < 0 \<longleftrightarrow> ps = [])"
  proof (cases ps)
    case Nil
    with assms show ?thesis
      by (simp add: cb_holds_def ChunkBuffer2_output_def ChunkBuffer2_assert_output_def cb_ring_empty)
  next
    case (Cons p qs)
    with assms have "cb_ring b (p # qs)" "ChunkBuffer2_assert_output b"
      by (simp_all add: cb_holds_def)
    with assert_output_first [of b p qs] cb_ring_first(3) [of b p qs] Cons show ?thesis
      by (simp add: ChunkBuffer2_output_def)
  qed
  then show "ChunkBuffer2_output b = (case ps of [] \<Rightarrow> None | p # _ \<Rightarrow> Some p)" "output_avail b < 0 \<longleftrightarrow> ps = []"
    by blast+
qed

lemma input_avail_dest: "ChunkBuffer2_assert_input b \<Longrightarrow> 0 \<le> input_avail b \<Longrightarrow> input_dest b \<noteq> None"
  by (auto simp: ChunkBuffer2_assert_input_def Let_def split: if_splits)

lemma cb_input_fits:
  assumes "cb_holds b ps" "input_dest b = Some d"
  shows "d + input_avail b \<le> int (length (buffer b)) \<and> 0 \<le> d"
proof -
  from assms(1) obtain s u w z t where b: "start b = int s" "used b = int u" "wrap b = int w" "csize b = int z"
    "cmtu b = int t" "s < w" "w \<le> z" "t < z" "length (buffer b) = 4 * z" "ring (buffer b) s u w z t ps"
    by (auto simp: cb_holds_def elim: cb_ringE)
  have inp: "ChunkBuffer2_assert_input b"
    using assms(1) by (simp add: cb_holds_def)
  note i = input_of_ring [OF inp b(10,1-8)]
  have "ring_end s u w + ring_free s u w z \<le> z"
    using ring_end_room [OF b(10,6-8)] b(6,7) by (auto simp: ring_free_def ring_end_def)
  with i assms(2) b(9) show ?thesis
    by (auto split: if_splits)
qed

definition ChunkBuffer2_submit_data :: "ChunkBuffer2 \<Rightarrow> bytes \<Rightarrow> ChunkBuffer2" where
  "ChunkBuffer2_submit_data b data = ChunkBuffer2_SubmitPacket (ChunkBuffer2_fill b data) (int (length data))"

lemma submit_data_holds:
  "cb_holds b ps \<Longrightarrow> int (length data) \<le> input_avail b \<Longrightarrow> cb_holds (ChunkBuffer2_submit_data b data) (ps @ [data])"
  using submit_holds [of b ps data] input_avail_dest [of b]
  by (auto simp: ChunkBuffer2_submit_data_def cb_holds_def)

section \<open>Queues of packets\<close>

text \<open>What a component that buffers packets relies on.\<close>

datatype queue_op = Enq bytes | Deq

fun enqueued :: "queue_op list \<Rightarrow> bytes list" where
  "enqueued [] = []"
| "enqueued (Enq p # ops) = p # enqueued ops"
| "enqueued (Deq # ops) = enqueued ops"

text \<open>Uses of a buffer: a packet is submitted when it fits; the first packet is read, then
  removed.\<close>

inductive queue_run :: "('b \<Rightarrow> int) \<Rightarrow> ('b \<Rightarrow> bytes \<Rightarrow> 'b) \<Rightarrow> ('b \<Rightarrow> 'b) \<Rightarrow> ('b \<Rightarrow> bytes option) \<Rightarrow>
    'b \<Rightarrow> queue_op list \<Rightarrow> bytes list \<Rightarrow> 'b \<Rightarrow> bool" for avail enq deq out b where
  run_nil: "queue_run avail enq deq out b [] [] b"
| run_enq: "queue_run avail enq deq out b ops outs b' \<Longrightarrow> int (length p) \<le> avail b' \<Longrightarrow>
    queue_run avail enq deq out b (ops @ [Enq p]) outs (enq b' p)"
| run_deq: "queue_run avail enq deq out b ops outs b' \<Longrightarrow> out b' = Some p \<Longrightarrow>
    queue_run avail enq deq out b (ops @ [Deq]) (outs @ [p]) (deq b')"

lemma enqueued_append [simp]: "enqueued (ops @ ops') = enqueued ops @ enqueued ops'"
  by (induction ops rule: enqueued.induct) auto

locale packet_queue =
  fixes holds :: "'b \<Rightarrow> bytes list \<Rightarrow> bool" and avail :: "'b \<Rightarrow> int"
    and enq :: "'b \<Rightarrow> bytes \<Rightarrow> 'b" and deq :: "'b \<Rightarrow> 'b" and out :: "'b \<Rightarrow> bytes option"
  assumes enq_holds: "holds b ps \<Longrightarrow> int (length p) \<le> avail b \<Longrightarrow> holds (enq b p) (ps @ [p])"
    and deq_holds: "holds b (p # ps) \<Longrightarrow> holds (deq b) ps"
    and out_holds: "holds b ps \<Longrightarrow> out b = (case ps of [] \<Rightarrow> None | p # _ \<Rightarrow> Some p)"
begin

lemma out_Some: "holds b ps \<Longrightarrow> out b = Some p \<longleftrightarrow> (\<exists>qs. ps = p # qs)"
  using out_holds by (cases ps) auto

lemma fifo:
  assumes "queue_run avail enq deq out b ops outs b'" "holds b ps"
  shows "\<exists>rest. holds b' rest \<and> ps @ enqueued ops = outs @ rest"
  using assms
proof (induction rule: queue_run.induct)
  case (run_enq ops outs b' p)
  then show ?case
    using enq_holds by (metis append.assoc enqueued.simps(1,2) enqueued_append)
next
  case (run_deq ops outs b' p)
  then obtain rest where rest: "holds b' rest" "ps @ enqueued ops = outs @ rest"
    by blast
  with run_deq.hyps(2) out_Some obtain qs where "rest = p # qs"
    by blast
  with rest deq_holds show ?case
    by auto
qed auto

end

interpretation ChunkBuffer2: packet_queue cb_holds input_avail ChunkBuffer2_submit_data ChunkBuffer2_ConsumePacket
  ChunkBuffer2_output
  by unfold_locales (auto intro: submit_data_holds consume_holds simp: output_holds)

abbreviation cb_run :: "ChunkBuffer2 \<Rightarrow> queue_op list \<Rightarrow> bytes list \<Rightarrow> ChunkBuffer2 \<Rightarrow> bool" where
  "cb_run \<equiv> queue_run input_avail ChunkBuffer2_submit_data ChunkBuffer2_ConsumePacket ChunkBuffer2_output"

lemma Init_holds:
  assumes "0 < n" "4 * n \<le> INT_MAX" "int (length array) = 4 * n" "int (bdivide_up (nat mtu) 4) < n"
  shows "cb_holds (ChunkBuffer2_Init array n mtu) []"
proof -
  let ?b = "\<lparr>buffer = array, csize = n, wrap = n, start = 0, used = 0, cmtu = int (bdivide_up (nat mtu) 4),
    input_dest = None, input_avail = 0, output_dest = None, output_avail = 0\<rparr>"
  have "cb_ring ?b []"
    unfolding cb_ring_def using assms
    by (intro exI [of _ "0 :: nat"] exI [of _ "nat n"] exI [of _ "bdivide_up (nat mtu) 4"]) (auto simp: ring_def)
  then show ?thesis
    by (simp add: cb_holds_def ChunkBuffer2_Init_def cb_ring_input cb_ring_output)
qed

section \<open>Capacity\<close>

lemma sum_blocks_le: "\<forall>p\<in>set ps. blocks p \<le> k \<Longrightarrow> sum_list (map blocks ps) \<le> length ps * k"
  by (induction ps) fastforce+

lemma ring_capacity:
  assumes "ring m s u w z t ps" "s < w" "w \<le> z" "t < z" "z = (1 + t) * (n + 1)" "length ps < n"
    "\<forall>p\<in>set ps. blocks p \<le> 1 + t"
  shows "1 + t \<le> ring_free s u w z"
proof (cases "s + u < w")
  case True
  with assms show ?thesis
    by (auto simp: ring_def ring_free_def ring_end_def)
next
  case False
  with assms(1) obtain ps1 ps2 where ch: "ps = ps1 @ ps2" "z \<le> w + t" "u \<le> w"
    "chain m (z - t - 1) s ps1 w" "chain m (z - t - 1) 0 ps2 (s + u - w)"
    by (auto simp: ring_def)
  have "u = sum_list (map blocks ps)"
    using chain_le [OF ch(4)] chain_le [OF ch(5)] False ch(1) by simp
  also have "\<dots> \<le> length ps * (1 + t)"
    using assms(7) by (rule sum_blocks_le)
  also have "\<dots> \<le> (n - 1) * (1 + t)"
    using assms(6) by (intro mult_le_mono1) simp
  finally have "u + 2 * (1 + t) \<le> z"
    using assms(5,6) by (cases n) (auto simp: algebra_simps)
  with ch(2,3) False show ?thesis
    by (auto simp: ring_free_def ring_end_def)
qed

lemma calc_blocks_eq:
  assumes "ChunkBuffer2_calc_blocks mtu num = n" "0 \<le> n" "0 \<le> num"
  shows "n = (1 + int (bdivide_up (nat mtu) 4)) * (num + 1)" "n \<le> INT_MAX"
proof -
  have n: "n = (1 + int (bdivide_up (nat mtu) 4)) * (num + 1)"
    and "1 + int (bdivide_up (nat mtu) 4) \<le> INT_MAX div (num + 1)"
    using assms by (auto simp: ChunkBuffer2_calc_blocks_def Let_def split: if_splits)
  then have "(1 + int (bdivide_up (nat mtu) 4)) * (num + 1) \<le> INT_MAX div (num + 1) * (num + 1)"
    using assms(3) by (intro mult_right_mono) auto
  also have "\<dots> \<le> INT_MAX"
    using assms(3) by (metis add_increasing2 div_mult_mod_eq le_add_same_cancel1 pos_mod_sign zle_add1_eq_le add.commute)
  finally show "n = (1 + int (bdivide_up (nat mtu) 4)) * (num + 1)" "n \<le> INT_MAX"
    using n by simp_all
qed

lemma holds_capacity:
  assumes "cb_holds b ps" "csize b = (1 + cmtu b) * (int n + 1)" "length ps < n"
    "\<forall>p\<in>set ps. int (bdivide_up (length p) 4) \<le> cmtu b"
  shows "4 * cmtu b \<le> input_avail b"
proof -
  from assms(1) obtain s u w z t where b: "start b = int s" "used b = int u" "wrap b = int w" "csize b = int z"
    "cmtu b = int t" "s < w" "w \<le> z" "t < z" "ring (buffer b) s u w z t ps"
    by (auto simp: cb_holds_def elim: cb_ringE)
  have inp: "ChunkBuffer2_assert_input b"
    using assms(1) by (simp add: cb_holds_def)
  have "int z = int ((1 + t) * (n + 1))"
    using assms(2) b(4,5) by (simp add: algebra_simps)
  then have "z = (1 + t) * (n + 1)"
    by (simp only: of_nat_eq_iff)
  then have free: "1 + t \<le> ring_free s u w z"
    using ring_capacity [OF b(9,6,7,8)] assms(3,4) b(5) by (auto simp: blocks_def)
  show ?thesis
    using input_of_ring(2) [OF inp b(9,1-5,6-8)] free b(5) by auto
qed

lemma run_params:
  assumes "cb_run b0 ops outs b"
  shows "csize b = csize b0 \<and> cmtu b = cmtu b0"
  using assms
proof (induction rule: queue_run.induct)
  case (run_enq ops outs b' p)
  then show ?case
    by (auto simp: ChunkBuffer2_submit_data_def ChunkBuffer2_SubmitPacket_def ChunkBuffer2_fill_def Let_def
      ChunkBuffer2_update_input_def ChunkBuffer2_update_output_def split: option.splits)
next
  case (run_deq ops outs b' p)
  then show ?case
    by (auto simp: ChunkBuffer2_ConsumePacket_def Let_def ChunkBuffer2_update_input_def ChunkBuffer2_update_output_def)
qed auto

text \<open>C9. Whatever packets are submitted when they fit and consumed when there are any, the ring
  hands them out complete and in order, and its self-checks hold at every moment.\<close>

theorem ChunkBuffer2_fifo:
  assumes "0 < n" "4 * n \<le> INT_MAX" "int (length array) = 4 * n" "int (bdivide_up (nat mtu) 4) < n"
    "cb_run (ChunkBuffer2_Init array n mtu) ops outs b"
  shows "\<exists>rest. enqueued ops = outs @ rest \<and>
    ChunkBuffer2_output b = (case rest of [] \<Rightarrow> None | p # _ \<Rightarrow> Some p) \<and>
    ChunkBuffer2_assert_buffer b \<and> ChunkBuffer2_assert_input b \<and> ChunkBuffer2_assert_output b"
proof -
  obtain rest where "cb_holds b rest" "enqueued ops = outs @ rest"
    using ChunkBuffer2.fifo [OF assms(5) Init_holds [OF assms(1-4)]] by auto
  then show ?thesis
    using output_holds(1) cb_ring_assert_buffer by (auto simp: cb_holds_def)
qed

definition sample_chunks :: ChunkBuffer2 where
  "sample_chunks = ChunkBuffer2_Init (replicate 16 0) 4 4"

lemma sample_run:
  "cb_run sample_chunks [Enq [1, 2, 3], Deq] [[1, 2, 3]]
     (ChunkBuffer2_ConsumePacket (ChunkBuffer2_submit_data sample_chunks [1, 2, 3]))"
proof -
  have avail: "int (length ([1, 2, 3] :: bytes)) \<le> input_avail sample_chunks"
    and holds: "cb_holds sample_chunks []"
    by (simp add: sample_chunks_def ChunkBuffer2_Init_def ChunkBuffer2_update_input_def ChunkBuffer2_update_output_def
        ChunkBuffer2_end_def bdivide_up_def to_int_def signed_take_bit_int_eq_self Let_def)
      (simp add: sample_chunks_def Init_holds bdivide_up_def)
  have "cb_run sample_chunks ([] @ [Enq [1, 2, 3]]) [] (ChunkBuffer2_submit_data sample_chunks [1, 2, 3])"
    using run_nil avail by (rule run_enq)
  moreover have "ChunkBuffer2_output (ChunkBuffer2_submit_data sample_chunks [1, 2, 3]) = Some [1, 2, 3]"
    using ChunkBuffer2.out_Some [OF ChunkBuffer2.enq_holds [OF holds avail]] by simp
  ultimately show ?thesis
    using run_deq by fastforce
qed

theorem ChunkBuffer2_fifo_witness:
  "ChunkBuffer2_output (ChunkBuffer2_ConsumePacket (ChunkBuffer2_submit_data sample_chunks [1, 2, 3])) = None"
  using ChunkBuffer2_fifo [of 4 "replicate 16 0" 4, OF _ _ _ _ sample_run [unfolded sample_chunks_def]]
  by (simp add: bdivide_up_def sample_chunks_def)

text \<open>C32. The size \<open>ChunkBuffer2_calc_blocks\<close> gives is enough, provided that the blocks' bytes can be counted in an
  \<open>int\<close> (\<open>4 * n \<le> INT_MAX\<close>): as long as fewer than \<open>num\<close> packets of at most \<open>mtu\<close> bytes wait, there is room for another
  one, wherever the ring has wrapped.\<close>

theorem ChunkBuffer2_capacity:
  assumes "ChunkBuffer2_calc_blocks mtu num = n" "0 < n" "4 * n \<le> INT_MAX" "0 < num" "0 \<le> mtu"
    "int (length array) = 4 * n" "cb_run (ChunkBuffer2_Init array n mtu) ops outs b"
    "\<forall>p\<in>set (enqueued ops). int (length p) \<le> mtu" "int (length (enqueued ops)) - int (length outs) < num"
  shows "mtu \<le> input_avail b"
proof -
  define t where "t = bdivide_up (nat mtu) 4"
  have n: "n = (1 + int t) * (num + 1)"
    using calc_blocks_eq [OF assms(1)] assms(2,4) by (simp add: t_def)
  have "int t < (1 + int t) * 1"
    by simp
  also have "\<dots> \<le> (1 + int t) * (num + 1)"
    using assms(4) by (intro mult_left_mono) auto
  finally have "int t < n"
    by (simp only: n)
  then have "cb_holds (ChunkBuffer2_Init array n mtu) []"
    using assms by (intro Init_holds) (auto simp: t_def)
  from ChunkBuffer2.fifo [OF assms(7) this] obtain rest where rest: "cb_holds b rest" "enqueued ops = outs @ rest"
    by auto
  have params: "csize b = n" "cmtu b = int t"
    using run_params [OF assms(7)]
    by (simp_all add: ChunkBuffer2_Init_def ChunkBuffer2_update_input_def ChunkBuffer2_update_output_def Let_def t_def)
  have small: "\<forall>p\<in>set rest. int (bdivide_up (length p) 4) \<le> int t"
  proof
    fix p assume "p \<in> set rest"
    then have "int (length p) \<le> mtu"
      using assms(8) rest(2) by simp
    then have "length p \<le> 4 * t"
      using bdivide_up_ge [of 4 "nat mtu"] by (simp add: t_def)
    then show "int (bdivide_up (length p) 4) \<le> int t"
      by (simp add: bdivide_up_le_iff)
  qed
  have "4 * int t \<le> input_avail b"
    using holds_capacity [OF rest(1), of "nat num"] params n small rest(2) assms(4,9) by auto
  moreover have "mtu \<le> 4 * int t"
    using bdivide_up_ge [of 4 "nat mtu"] assms(5) by (simp add: t_def)
  ultimately show ?thesis by linarith
qed

theorem ChunkBuffer2_capacity_witness:
  "4 \<le> input_avail (ChunkBuffer2_ConsumePacket (ChunkBuffer2_submit_data sample_chunks [1, 2, 3]))"
  using ChunkBuffer2_capacity [of 4 1 4 "replicate 16 0", OF _ _ _ _ _ _ sample_run [unfolded sample_chunks_def]]
  by (simp add: ChunkBuffer2_calc_blocks_def bdivide_up_def sample_chunks_def)

text \<open>C39. A buffer whose bytes cannot be counted in an \<open>int\<close> is made, but misreports its space: an empty buffer with the number of
  blocks that \<open>ChunkBuffer2_calc_blocks\<close> gives reports the bytes of all blocks but the length block exactly if there are at most
  \<open>2 ^ 29\<close> blocks, and with more, up to \<open>2 ^ 30\<close>, a negative space, so that no packet can be written.\<close>

theorem ChunkBuffer2_avail_overflow:
  assumes "ChunkBuffer2_calc_blocks mtu num = n" "0 < n" "0 < num" "0 \<le> mtu"
  shows "(input_avail (ChunkBuffer2_Init array n mtu) = 4 * (n - 1) \<longleftrightarrow> n \<le> 2 ^ 29) \<and>
    (2 ^ 29 < n \<and> n \<le> 2 ^ 30 \<longrightarrow> input_avail (ChunkBuffer2_Init array n mtu) < 0)"
proof -
  have "n = (1 + int (bdivide_up (nat mtu) 4)) * (num + 1)"
    using calc_blocks_eq [OF assms(1)] assms(2,3) by simp
  then have "int (bdivide_up (nat mtu) 4) \<le> n - 1"
    using assms(3) by (simp add: algebra_simps)
  then have avail: "input_avail (ChunkBuffer2_Init array n mtu) = signed_take_bit 31 (4 * (n - 1))"
    using assms(2) by (simp add: ChunkBuffer2_Init_def ChunkBuffer2_update_input_def ChunkBuffer2_update_output_def ChunkBuffer2_end_def
      to_int_def Let_def mult.commute)
  have "signed_take_bit 31 (4 * (n - 1)) = 4 * (n - 1) \<longleftrightarrow> n \<le> 2 ^ 29"
    using assms(2) by (auto simp: signed_take_bit_int_eq_self_iff)
  moreover have "signed_take_bit 31 (4 * (n - 1)) < 0" if "2 ^ 29 < n" "n \<le> 2 ^ 30"
  proof -
    have "4 * (n - 1) div 2 ^ 31 = 1"
      using that by (intro int_div_pos_eq [where r = "4 * (n - 1) - 2 ^ 31"]) simp_all
    then show ?thesis
      by (simp add: signed_take_bit_negative_iff bit_iff_odd)
  qed
  ultimately show ?thesis
    unfolding avail by blast
qed

theorem ChunkBuffer2_avail_overflow_witness:
  "ChunkBuffer2_calc_blocks 0 (2 ^ 29) = 2 ^ 29 + 1 \<and> input_avail (ChunkBuffer2_Init [] (2 ^ 29 + 1) 0) < 0"
proof -
  have "ChunkBuffer2_calc_blocks 0 (2 ^ 29) = 2 ^ 29 + 1"
    by (simp add: ChunkBuffer2_calc_blocks_def bdivide_up_def Let_def)
  with ChunkBuffer2_avail_overflow [OF this, of "[]"] show ?thesis
    by simp
qed

end
