(* ===== verification/PacketProto.thy ===== *)
theory PacketProto
  imports FlowIf ChunkBuffer
begin

text \<open>
  PacketProto, which carries packets over a stream as a 16-bit little-endian length followed by
  the payload: \<open>flow/PacketProtoEncoder.c\<close> and \<open>flow/PacketProtoDecoder.c\<close>.

  The decoder's buffer is its array; what the stream provider writes at the requested place
  is the argument of the step that reports it.  A handler returns the new state and the calls it
  makes: sending a packet, requesting stream data at an offset with a length, reporting an
  error.  The counters are natural numbers; the invariant \<open>dec_ok\<close> shows that the subtractions of
  the code do not go below zero.
\<close>

abbreviation PACKETPROTO_MAXPAYLOAD :: nat where
  "PACKETPROTO_MAXPAYLOAD \<equiv> UINT16_MAX"

definition PACKETPROTO_ENCLEN :: "nat \<Rightarrow> nat" where
  "PACKETPROTO_ENCLEN len = 2 + len"

section \<open>Encoder\<close>

record PacketProtoEncoder =
  output_packet :: "bytes option"
  enc_input_mtu :: nat
  enc_output :: "int pri"

datatype enc_action = Enc_recv nat | Enc_done nat

definition PacketProtoEncoder_Init :: "nat \<Rightarrow> PacketProtoEncoder" where
  "PacketProtoEncoder_Init input_mtu =
     \<lparr>output_packet = None, enc_input_mtu = input_mtu,
      enc_output = PacketRecvInterface_Init (PACKETPROTO_ENCLEN input_mtu) 0\<rparr>"

definition PacketProtoEncoder_Free :: "PacketProtoEncoder \<Rightarrow> PacketProtoEncoder" where
  "PacketProtoEncoder_Free enc = enc\<lparr>enc_output := PacketRecvInterface_Free (enc_output enc)\<rparr>"

text \<open>The user of the encoder asks for a packet in its buffer; the payload is requested behind the
  place of the header.\<close>

definition encoder_output_handler_recv ::
  "PacketProtoEncoder \<Rightarrow> bytes \<Rightarrow> PacketProtoEncoder \<times> enc_action" where
  "encoder_output_handler_recv enc data = (enc\<lparr>output_packet := Some data\<rparr>, Enc_recv 2)"

definition encoder_input_handler_done ::
  "PacketProtoEncoder \<Rightarrow> nat \<Rightarrow> (PacketProtoEncoder \<times> bytes \<times> enc_action) option" where
  "encoder_input_handler_done enc in_len =
     (case output_packet enc of
        None \<Rightarrow> None
      | Some data \<Rightarrow>
          Some (enc\<lparr>output_packet := None,
                    enc_output := PacketRecvInterface_Done (enc_output enc) (PACKETPROTO_ENCLEN in_len)\<rparr>,
                put (mem16 (htol16 (of_nat in_len))) 0 data, Enc_done (PACKETPROTO_ENCLEN in_len)))"

text \<open>One packet through the encoder: the request, the payload written by the provider, the
  completion.\<close>

definition encode_packet :: "PacketProtoEncoder \<Rightarrow> bytes \<Rightarrow> bytes \<Rightarrow> bytes option" where
  "encode_packet enc dest payload =
     (let (enc1, act) = encoder_output_handler_recv enc dest in
      case (output_packet enc1, act) of
        (Some data, Enc_recv off) \<Rightarrow>
          (case encoder_input_handler_done (enc1\<lparr>output_packet := Some (put payload off data)\<rparr>) (length payload) of
             Some (enc2, data', Enc_done n) \<Rightarrow> Some (take n data')
           | _ \<Rightarrow> None)
      | _ \<Rightarrow> None)"

section \<open>Decoder\<close>

record PacketProtoDecoder =
  output_mtu :: nat
  buf_size :: nat
  buf_start :: nat
  buf_used :: nat
  buf :: bytes

datatype dec_action = Dec_send bytes | Dec_recv nat nat | Dec_error

text \<open>\<open>malloc\<close> gives the array or fails.\<close>

definition PacketProtoDecoder_Init ::
  "nat \<Rightarrow> (nat \<Rightarrow> bytes option) \<Rightarrow> (PacketProtoDecoder \<times> dec_action list) option" where
  "PacketProtoDecoder_Init mtu malloc =
     (let output_mtu = min mtu PACKETPROTO_MAXPAYLOAD; buf_size = PACKETPROTO_ENCLEN output_mtu in
      case malloc buf_size of
        None \<Rightarrow> None
      | Some a \<Rightarrow> Some (\<lparr>output_mtu = output_mtu, buf_size = buf_size, buf_start = 0, buf_used = 0, buf = a\<rparr>,
          [Dec_recv 0 buf_size]))"

definition decoder_receive :: "PacketProtoDecoder \<Rightarrow> dec_action" where
  "decoder_receive enc =
     Dec_recv (buf_start enc + buf_used enc) (buf_size enc - (buf_start enc + buf_used enc))"

definition decoder_wrap :: "PacketProtoDecoder \<Rightarrow> PacketProtoDecoder" where
  "decoder_wrap enc =
     (if buf_start enc + buf_used enc = buf_size enc then
        enc\<lparr>buf := put (mslice (buf_start enc) (buf_used enc) (buf enc)) 0 (buf enc), buf_start := 0\<rparr>
      else enc)"

definition process_data :: "PacketProtoDecoder \<Rightarrow> PacketProtoDecoder \<times> dec_action list" where
  "process_data enc =
     (let left = buf_used enc in
      if left < 2 then (decoder_wrap enc, [decoder_receive (decoder_wrap enc)])
      else
        let data_len = unat (ltoh16 (badvpn_read_le16 (drop (buf_start enc) (buf enc)))); left = left - 2 in
        if data_len > output_mtu enc then
          (let enc1 = enc\<lparr>buf_start := 0, buf_used := 0\<rparr> in (enc1, [decoder_receive enc1, Dec_error]))
        else if left < data_len then (decoder_wrap enc, [decoder_receive (decoder_wrap enc)])
        else
          (enc\<lparr>buf_start := buf_start enc + (2 + data_len), buf_used := buf_used enc - (2 + data_len)\<rparr>,
           [Dec_send (mslice (buf_start enc + 2) data_len (buf enc))]))"

definition decoder_input_handler_done ::
  "PacketProtoDecoder \<Rightarrow> nat \<Rightarrow> PacketProtoDecoder \<times> dec_action list" where
  "decoder_input_handler_done enc data_len = process_data (enc\<lparr>buf_used := buf_used enc + data_len\<rparr>)"

definition decoder_output_handler_done :: "PacketProtoDecoder \<Rightarrow> PacketProtoDecoder \<times> dec_action list" where
  "decoder_output_handler_done enc = process_data enc"

definition PacketProtoDecoder_Reset :: "PacketProtoDecoder \<Rightarrow> PacketProtoDecoder" where
  "PacketProtoDecoder_Reset enc = enc\<lparr>buf_start := buf_start enc + buf_used enc, buf_used := 0\<rparr>"

text \<open>Stream data arrives at the place of the last request.\<close>

definition decoder_stream :: "PacketProtoDecoder \<Rightarrow> bytes \<Rightarrow> PacketProtoDecoder \<times> dec_action list" where
  "decoder_stream enc data =
     decoder_input_handler_done (enc\<lparr>buf := put data (buf_start enc + buf_used enc) (buf enc)\<rparr>) (length data)"

section \<open>Framing\<close>

definition frame :: "bytes \<Rightarrow> bytes" where
  "frame p = mem16 (of_nat (length p)) @ p"

definition unread :: "PacketProtoDecoder \<Rightarrow> bytes" where
  "unread enc = mslice (buf_start enc) (buf_used enc) (buf enc)"

definition dec_ok :: "PacketProtoDecoder \<Rightarrow> bool" where
  "dec_ok enc = (output_mtu enc \<le> UINT16_MAX \<and> buf_size enc = 2 + output_mtu enc \<and>
     length (buf enc) = buf_size enc \<and> buf_start enc + buf_used enc \<le> buf_size enc)"

text \<open>The bytes at hand hold no whole packet, and none that is too large.\<close>

definition partial :: "nat \<Rightarrow> bytes \<Rightarrow> bool" where
  "partial mtu xs = (length xs < 2 \<or>
     unat (badvpn_read_le16 xs) \<le> mtu \<and> length xs < 2 + unat (badvpn_read_le16 xs))"

lemma length_frame [simp]: "length (frame p) = 2 + length p"
  by (simp add: frame_def length_mem)

lemma read_frame: "length p \<le> UINT16_MAX \<Longrightarrow> unat (badvpn_read_le16 (frame p @ q)) = length p"
  by (simp add: frame_def load_mem unat_of_nat_u16)

lemma not_partial_frame: "length p \<le> UINT16_MAX \<Longrightarrow> \<not> partial mtu (frame p @ q)"
  by (simp add: partial_def read_frame)

lemma frame_inject:
  assumes "frame p @ xs = frame q @ ys" "length p \<le> UINT16_MAX" "length q \<le> UINT16_MAX"
  shows "p = q \<and> xs = ys"
proof -
  have "length p = length q"
    using read_frame [OF assms(2), of xs] read_frame [OF assms(3), of ys] assms(1) by simp
  with assms(1) show ?thesis
    by (simp add: frame_def)
qed

text \<open>A stream of frames followed by a partial one can be cut in one way only.\<close>

lemma frames_unique:
  assumes "concat (map frame ps) @ r = concat (map frame qs) @ s" "partial mtu r" "partial mtu' s"
    "\<forall>p\<in>set ps \<union> set qs. length p \<le> UINT16_MAX"
  shows "ps = qs \<and> r = s"
  using assms
proof (induction ps arbitrary: qs)
  case Nil
  then show ?case
    using not_partial_frame by (cases qs) auto
next
  case (Cons p ps)
  show ?case
  proof (cases qs)
    case Nil
    with Cons.prems show ?thesis
      using not_partial_frame [of p mtu' "concat (map frame ps) @ r"] by auto
  next
    case (Cons q qs')
    with Cons.prems frame_inject [of p "concat (map frame ps) @ r" q "concat (map frame qs') @ s"] Cons.IH [of qs']
    show ?thesis by auto
  qed
qed

lemma partial_Nil [simp]: "partial mtu []"
  by (simp add: partial_def)

section \<open>One round of the decoder\<close>

lemma length_unread [simp]: "dec_ok enc \<Longrightarrow> length (unread enc) = buf_used enc"
  by (simp add: unread_def dec_ok_def length_slice)

lemma read_unread:
  "dec_ok enc \<Longrightarrow> 2 \<le> buf_used enc \<Longrightarrow>
     badvpn_read_le16 (drop (buf_start enc) (buf enc)) = badvpn_read_le16 (unread enc)"
  by (simp add: badvpn_read_le16_def unread_def mslice_def dec_ok_def)

lemma decoder_wrap_ok:
  assumes "dec_ok enc" "buf_used enc < buf_size enc"
  shows "dec_ok (decoder_wrap enc)" "unread (decoder_wrap enc) = unread enc"
    "output_mtu (decoder_wrap enc) = output_mtu enc" "buf_used (decoder_wrap enc) = buf_used enc"
    "buf_start (decoder_wrap enc) + buf_used (decoder_wrap enc) < buf_size (decoder_wrap enc)"
  using assms slice_put_same [of 0 "buf enc" "unread enc"] length_unread [OF assms(1)]
  by (auto simp: decoder_wrap_def dec_ok_def unread_def)

lemma process_partial:
  assumes "dec_ok enc" "partial (output_mtu enc) (unread enc)"
  shows "process_data enc = (decoder_wrap enc, [decoder_receive (decoder_wrap enc)])" "buf_used enc < buf_size enc"
proof -
  have "buf_used enc < 2 \<or> 2 \<le> buf_used enc \<and> unat (badvpn_read_le16 (unread enc)) \<le> output_mtu enc \<and>
      buf_used enc - 2 < unat (badvpn_read_le16 (unread enc))"
    using assms by (auto simp: partial_def)
  then show "process_data enc = (decoder_wrap enc, [decoder_receive (decoder_wrap enc)])" "buf_used enc < buf_size enc"
    using assms(1) by (auto simp: process_data_def Let_def ltoh16_def htol16_def read_unread dec_ok_def)
qed

lemma process_large:
  assumes "dec_ok enc" "2 \<le> length (unread enc)" "output_mtu enc < unat (badvpn_read_le16 (unread enc))"
  shows "process_data enc = (enc\<lparr>buf_start := 0, buf_used := 0\<rparr>, [Dec_recv 0 (buf_size enc), Dec_error])"
  using assms by (simp add: process_data_def Let_def ltoh16_def htol16_def read_unread decoder_receive_def)

lemma process_whole:
  assumes "dec_ok enc" "unread enc = frame p @ rest" "length p \<le> output_mtu enc"
  shows "\<exists>enc'. process_data enc = (enc', [Dec_send p]) \<and> dec_ok enc' \<and> output_mtu enc' = output_mtu enc \<and>
    unread enc' = rest"
proof -
  have len: "length p \<le> UINT16_MAX"
    using assms(1,3) by (simp add: dec_ok_def)
  have used: "buf_used enc = 2 + length p + length rest"
    using length_unread [OF assms(1)] assms(2) by simp
  have read: "unat (badvpn_read_le16 (drop (buf_start enc) (buf enc))) = length p"
    using read_unread [OF assms(1)] used read_frame [OF len] assms(2) by simp
  have fit: "buf_start enc + (2 + length p + length rest) \<le> length (buf enc)"
    using assms(1) used by (simp add: dec_ok_def)
  have whole: "mslice (buf_start enc) (2 + length p + length rest) (buf enc) = frame p @ rest"
    using assms(2) used by (simp add: unread_def)
  have "mslice (buf_start enc + 2) (length p) (buf enc) = p"
  proof -
    have "mslice (buf_start enc + 2) (length p) (buf enc) = take (length p) (drop 2 (frame p @ rest))"
      unfolding whole [symmetric] mslice_def by (simp add: drop_take add.commute min_absorb1)
    then show ?thesis
      by (simp add: frame_def length_mem)
  qed
  moreover have "mslice (buf_start enc + (2 + length p)) (length rest) (buf enc) = rest"
  proof -
    have "mslice (buf_start enc + (2 + length p)) (length rest) (buf enc) =
        take (length rest) (drop (2 + length p) (frame p @ rest))"
      unfolding whole [symmetric] mslice_def by (simp add: drop_take add.commute)
    then show ?thesis
      by simp
  qed
  ultimately show ?thesis
    using assms(1,3) used read
    by (auto simp: process_data_def Let_def ltoh16_def htol16_def dec_ok_def unread_def)
qed

text \<open>Every state is in one of the three situations.\<close>

lemma unread_cases:
  assumes "dec_ok enc"
  obtains "partial (output_mtu enc) (unread enc)"
    | "2 \<le> length (unread enc)" "output_mtu enc < unat (badvpn_read_le16 (unread enc))"
    | p rest where "unread enc = frame p @ rest" "length p \<le> output_mtu enc"
proof (cases "partial (output_mtu enc) (unread enc) \<or>
    2 \<le> length (unread enc) \<and> output_mtu enc < unat (badvpn_read_le16 (unread enc))")
  case False
  define r where "r = unread enc"
  define n where "n = unat (badvpn_read_le16 r)"
  have r: "2 \<le> length r" "n \<le> output_mtu enc" "2 + n \<le> length r"
    using False by (auto simp: partial_def r_def n_def)
  obtain a b q where rq: "r = a # b # q"
    using r(1) by (cases r rule: remdups_adj.cases) auto
  have "mem16 (of_nat n) = [a, b]"
    using mem_load(1) [of "[a, b]"] by (simp add: n_def rq badvpn_read_le16_def)
  then have "r = frame (take n q) @ drop n q"
    using r(3) rq by (simp add: frame_def min_absorb2)
  then show ?thesis
    using that(3) [of "take n q" "drop n q"] r(2) by (simp add: r_def)
qed (use that(1,2) in blast)

section \<open>Runs of the decoder\<close>

fun dec_sends :: "dec_action list \<Rightarrow> bytes list" where
  "dec_sends [] = []"
| "dec_sends (Dec_send p # acts) = p # dec_sends acts"
| "dec_sends (_ # acts) = dec_sends acts"

text \<open>A decoder that has sent a packet waits for its completion, else for stream data.  The stream
  \<open>xs\<close> arrives in pieces of any size up to what was requested; \<open>outs\<close> are the packets sent.\<close>

inductive dec_run :: "PacketProtoDecoder \<Rightarrow> bytes \<Rightarrow> bytes list \<Rightarrow> PacketProtoDecoder \<Rightarrow> bool \<Rightarrow> bool" for enc0 where
  dec_start: "dec_run enc0 [] [] enc0 False"
| dec_stream: "dec_run enc0 xs outs enc False \<Longrightarrow> d \<noteq> [] \<Longrightarrow>
    length d \<le> buf_size enc - (buf_start enc + buf_used enc) \<Longrightarrow>
    decoder_stream enc d = (enc', acts) \<Longrightarrow> Dec_error \<notin> set acts \<Longrightarrow>
    dec_run enc0 (xs @ d) (outs @ dec_sends acts) enc' (dec_sends acts \<noteq> [])"
| dec_done: "dec_run enc0 xs outs enc True \<Longrightarrow>
    decoder_output_handler_done enc = (enc', acts) \<Longrightarrow> Dec_error \<notin> set acts \<Longrightarrow>
    dec_run enc0 xs (outs @ dec_sends acts) enc' (dec_sends acts \<noteq> [])"

lemma Init_ok:
  assumes "PacketProtoDecoder_Init mtu malloc = Some (enc, acts)" "\<forall>n a. malloc n = Some a \<longrightarrow> length a = n"
  shows "dec_ok enc" "unread enc = []" "output_mtu enc = min mtu UINT16_MAX"
  using assms by (auto simp: PacketProtoDecoder_Init_def PACKETPROTO_ENCLEN_def dec_ok_def unread_def mslice_def
    Let_def split: option.splits)

lemma slice_add: "mslice a (n + k) m = mslice a n m @ mslice (a + n) k m"
  by (simp only: mslice_def take_add drop_drop add.commute [of a n])

lemma stream_unread:
  assumes "dec_ok enc" "length d \<le> buf_size enc - (buf_start enc + buf_used enc)"
  defines "enc1 \<equiv> enc\<lparr>buf := put d (buf_start enc + buf_used enc) (buf enc), buf_used := buf_used enc + length d\<rparr>"
  shows "dec_ok enc1" "unread enc1 = unread enc @ d" "decoder_stream enc d = process_data enc1" "output_mtu enc1 = output_mtu enc"
proof -
  have fit: "buf_start enc + buf_used enc + length d \<le> length (buf enc)"
    using assms(1,2) by (auto simp: dec_ok_def)
  then show "dec_ok enc1"
    using assms(1) by (auto simp: dec_ok_def enc1_def)
  have "mslice (buf_start enc) (buf_used enc) (put d (buf_start enc + buf_used enc) (buf enc)) = unread enc"
    using fit by (simp add: unread_def slice_put_other)
  moreover have "mslice (buf_start enc + buf_used enc) (length d) (put d (buf_start enc + buf_used enc) (buf enc)) = d"
    using fit by (intro slice_put_same) simp
  ultimately show "unread enc1 = unread enc @ d"
    by (simp add: unread_def enc1_def slice_add)
  show "decoder_stream enc d = process_data enc1" "output_mtu enc1 = output_mtu enc"
    by (simp_all add: decoder_stream_def decoder_input_handler_done_def enc1_def)
qed

lemma process_step:
  assumes "dec_ok enc" "process_data enc = (enc', acts)" "Dec_error \<notin> set acts"
  shows "dec_ok enc' \<and> output_mtu enc' = output_mtu enc \<and>
    unread enc = concat (map frame (dec_sends acts)) @ unread enc' \<and>
    (\<forall>p\<in>set (dec_sends acts). length p \<le> output_mtu enc) \<and>
    (dec_sends acts = [] \<longrightarrow> partial (output_mtu enc) (unread enc') \<and>
      (\<exists>off n. acts = [Dec_recv off n] \<and> 0 < n \<and> off = buf_start enc' + buf_used enc' \<and>
         off + n = buf_size enc'))"
  using assms(1)
proof (cases enc rule: unread_cases)
  case 1
  with process_partial [OF assms(1)] decoder_wrap_ok [OF assms(1)] assms(2) show ?thesis
    by (auto simp: decoder_receive_def)
next
  case 2
  with process_large [OF assms(1)] assms(2,3) show ?thesis by auto
next
  case (3 p rest)
  with process_whole [OF assms(1) 3] assms(2) show ?thesis by auto
qed

lemma dec_run_ok:
  assumes "dec_run enc0 xs outs enc sending" "dec_ok enc0" "unread enc0 = []"
  shows "dec_ok enc \<and> output_mtu enc = output_mtu enc0 \<and> xs = concat (map frame outs) @ unread enc \<and>
    (\<forall>p\<in>set outs. length p \<le> output_mtu enc0) \<and> (\<not> sending \<longrightarrow> partial (output_mtu enc0) (unread enc))"
  using assms
proof (induction rule: dec_run.induct)
  case (dec_stream xs outs enc d enc' acts)
  then have ok: "dec_ok enc" "output_mtu enc = output_mtu enc0" "xs = concat (map frame outs) @ unread enc"
    "\<forall>p\<in>set outs. length p \<le> output_mtu enc0"
    by auto
  note st = stream_unread [OF ok(1) dec_stream.hyps(3)]
  note p = process_step [OF st(1) dec_stream.hyps(4) [unfolded st(3)] dec_stream.hyps(5)]
  have "unread enc @ d = concat (map frame (dec_sends acts)) @ unread enc'"
    using p st(2) by simp
  then show ?case
    using p st(4) ok by auto
next
  case (dec_done xs outs enc enc' acts)
  then have ok: "dec_ok enc" "output_mtu enc = output_mtu enc0" "xs = concat (map frame outs) @ unread enc"
    "\<forall>p\<in>set outs. length p \<le> output_mtu enc0"
    by auto
  have "process_data enc = (enc', acts)"
    using dec_done.hyps(2) by (simp add: decoder_output_handler_done_def)
  from process_step [OF ok(1) this dec_done.hyps(3)] ok show ?case
    by auto
qed auto

lemma frames_prefix:
  assumes "concat (map frame outs) @ r = concat (map frame ps)" "\<forall>p\<in>set outs \<union> set ps. length p \<le> UINT16_MAX"
    "\<forall>p\<in>set ps. length p \<le> mtu"
  shows "\<exists>qs. ps = outs @ qs \<and> r = concat (map frame qs)"
  using assms
proof (induction outs arbitrary: ps)
  case (Cons p outs)
  then obtain q ps' where ps: "ps = q # ps'"
    by (cases ps) (auto simp: frame_def mem16_eq)
  with Cons.prems frame_inject [of p "concat (map frame outs) @ r" q "concat (map frame ps')"]
  have "p = q" "concat (map frame outs) @ r = concat (map frame ps')"
    by auto
  with Cons.IH [of ps'] Cons.prems ps show ?case
    by auto
qed simp

lemma frames_no_error:
  assumes "dec_ok enc" "unread enc @ ys = concat (map frame qs)" "\<forall>p\<in>set qs. length p \<le> output_mtu enc"
  shows "Dec_error \<notin> set (snd (process_data enc))"
  using assms(1)
proof (cases enc rule: unread_cases)
  case 1
  with process_partial [OF assms(1)] show ?thesis
    by (simp add: decoder_receive_def)
next
  case 2
  then have "unread enc \<noteq> []" by auto
  then obtain q qs' where qs: "qs = q # qs'"
    using assms(2) by (cases qs) auto
  have "length q \<le> UINT16_MAX" "length q \<le> output_mtu enc"
    using assms(1,3) qs by (auto simp: dec_ok_def)
  moreover have "badvpn_read_le16 (unread enc) = badvpn_read_le16 (unread enc @ ys)"
    using 2(1) \<open>unread enc \<noteq> []\<close> by (simp add: badvpn_read_le16_def nth_append)
  ultimately have "unat (badvpn_read_le16 (unread enc)) \<le> output_mtu enc"
    using read_frame [of q "concat (map frame qs')"] assms(2) qs by simp
  with 2 show ?thesis by simp
next
  case (3 p rest)
  with process_whole [OF assms(1) 3] show ?thesis by auto
qed

text \<open>C8. However a stream of encoded packets is cut into pieces, the decoder sends exactly those
  packets, in order: none is lost, changed or made up, once all of the stream is in nothing is left
  over, and no error is reported.\<close>

theorem decoder_delivers:
  assumes "PacketProtoDecoder_Init mtu malloc = Some (enc0, acts0)" "\<forall>n a. malloc n = Some a \<longrightarrow> length a = n"
    "dec_run enc0 xs outs enc sending" "xs @ ys = concat (map frame ps)" "\<forall>p\<in>set ps. length p \<le> min mtu UINT16_MAX"
  shows "(\<exists>qs. ps = outs @ qs) \<and> (\<not> sending \<and> ys = [] \<longrightarrow> outs = ps \<and> unread enc = []) \<and>
    (\<forall>d zs. \<not> sending \<and> ys = d @ zs \<and> length d \<le> buf_size enc - (buf_start enc + buf_used enc) \<longrightarrow>
       Dec_error \<notin> set (snd (decoder_stream enc d))) \<and>
    Dec_error \<notin> set (snd (decoder_output_handler_done enc))"
proof -
  note init = Init_ok [OF assms(1,2)]
  have run: "dec_ok enc" "output_mtu enc = min mtu UINT16_MAX" "xs = concat (map frame outs) @ unread enc"
    "\<forall>p\<in>set outs. length p \<le> min mtu UINT16_MAX" "\<not> sending \<Longrightarrow> partial (min mtu UINT16_MAX) (unread enc)"
    using dec_run_ok [OF assms(3) init(1,2)] init(3) by auto
  obtain qs where qs: "ps = outs @ qs" "unread enc @ ys = concat (map frame qs)"
    using frames_prefix [of outs "unread enc @ ys" ps] run(3,4) assms(4,5) by auto
  have "outs = ps \<and> unread enc = []" if "\<not> sending" "ys = []"
    using frames_unique [of outs "unread enc" ps "[]"] run(3,4,5) assms(4,5) that by auto
  moreover have "Dec_error \<notin> set (snd (decoder_output_handler_done enc))"
    unfolding decoder_output_handler_done_def
    by (rule frames_no_error [OF run(1) qs(2)]) (use run(2) assms(5) qs in auto)
  moreover have "Dec_error \<notin> set (snd (decoder_stream enc d))"
    if "ys = d @ zs" "length d \<le> buf_size enc - (buf_start enc + buf_used enc)" for d zs
  proof -
    note st = stream_unread [OF run(1) that(2)]
    show ?thesis
      unfolding st(3) by (rule frames_no_error [OF st(1)]) (use st(2,4) qs that(1) run(2) assms(5) in auto)
  qed
  ultimately show ?thesis
    using qs(1) by blast
qed

lemma sample_decoder_run:
  assumes "PacketProtoDecoder_Init 5 (\<lambda>n. Some (replicate n 0)) = Some (enc0, acts0)"
  shows "dec_run enc0 (frame [7, 8]) [[7, 8]] (fst (decoder_stream enc0 (frame [7, 8]))) True"
proof -
  note init = Init_ok [OF assms]
  have m: "output_mtu enc0 = 5" "buf_size enc0 = 7" "buf_start enc0 = 0" "buf_used enc0 = 0"
    using assms by (auto simp: PacketProtoDecoder_Init_def PACKETPROTO_ENCLEN_def Let_def)
  then have fit: "length (frame [7, 8]) \<le> buf_size enc0 - (buf_start enc0 + buf_used enc0)"
    by simp
  have ok: "dec_ok enc0" "unread enc0 = []"
    using init by auto
  note st = stream_unread [OF ok(1) fit]
  obtain enc' where "decoder_stream enc0 (frame [7, 8]) = (enc', [Dec_send [7, 8]])"
    using process_whole [OF st(1), of "[7, 8]" "[]"] st(2,3,4) ok m by auto
  then show ?thesis
    using dec_stream [OF dec_start _ fit] by (fastforce simp: frame_def mem16_eq)
qed

theorem decoder_delivers_witness:
  "let malloc = (\<lambda>n. Some (replicate n 0)); enc0 = fst (the (PacketProtoDecoder_Init 5 malloc));
       enc = fst (decoder_stream enc0 (frame [7, 8]))
   in (\<exists>qs. [[7, 8]] = [[7, 8]] @ qs) \<and> Dec_error \<notin> set (snd (decoder_output_handler_done enc))"
proof -
  let ?malloc = "\<lambda>n. Some (replicate n 0)"
  obtain enc0 acts0 where init: "PacketProtoDecoder_Init 5 ?malloc = Some (enc0, acts0)"
    by (simp add: PacketProtoDecoder_Init_def Let_def)
  show ?thesis
    using decoder_delivers [OF init _ sample_decoder_run [OF init], of "[]" "[[7, 8]]"] init
    by (simp add: Let_def)
qed

text \<open>The decoder never asks the stream for nothing or for data beyond its buffer, and hands the
  packet interface only packets within its limit.\<close>

theorem decoder_requests:
  assumes "dec_ok enc" "process_data enc = (enc', acts)"
  shows "dec_ok enc' \<and> (\<forall>off n. Dec_recv off n \<in> set acts \<longrightarrow> 0 < n \<and> off + n \<le> length (buf enc')) \<and>
    (\<forall>p. Dec_send p \<in> set acts \<longrightarrow> length p \<le> output_mtu enc)"
  using assms(1)
proof (cases enc rule: unread_cases)
  case 1
  with process_partial [OF assms(1)] decoder_wrap_ok [OF assms(1)] assms(2) show ?thesis
    by (auto simp: decoder_receive_def dec_ok_def)
next
  case 2
  with process_large [OF assms(1)] assms show ?thesis
    by (auto simp: dec_ok_def)
next
  case (3 p rest)
  with process_whole [OF assms(1) 3] assms(2) show ?thesis by auto
qed

theorem decoder_requests_witness:
  "dec_ok (fst (process_data \<lparr>output_mtu = 2, buf_size = 4, buf_start = 3, buf_used = 1, buf = [0, 0, 0, 9]\<rparr>))"
proof -
  have "dec_ok \<lparr>output_mtu = 2, buf_size = 4, buf_start = 3, buf_used = 1, buf = [0, 0, 0, 9]\<rparr>"
    by (simp add: dec_ok_def)
  from decoder_requests [OF this prod.collapse [symmetric]] show ?thesis
    by (rule conjunct1)
qed

text \<open>What the encoder puts into its user's buffer is the frame of the payload: the length in
  little-endian order and the payload, so that the decoder's theorem applies to it.\<close>

theorem encoder_frames:
  assumes "length payload \<le> UINT16_MAX" "2 + length payload \<le> length dest"
  shows "encode_packet enc dest payload = Some (frame payload)"
  using assms
  by (simp add: encode_packet_def encoder_output_handler_recv_def encoder_input_handler_done_def
    PACKETPROTO_ENCLEN_def put_def frame_def htol16_def length_mem)

theorem encoder_frames_witness:
  "encode_packet (PacketProtoEncoder_Init 5) (replicate 7 0) [1, 2, 3] = Some [3, 0, 1, 2, 3]"
  using encoder_frames [of "[1, 2, 3]" "replicate 7 0" "PacketProtoEncoder_Init 5"]
  by (simp add: frame_def mem16_eq)

end
