(* ===== verification/FlowBuffers.thy ===== *)
theory FlowBuffers
  imports PacketProto
begin

text \<open>
  The buffering components of \<open>flow/\<close>: \<open>PacketBuffer\<close> (a ring of packets between a receiving and a
  sending interface), \<open>BufferWriter\<close> (packets written by a caller), \<open>SinglePacketBuffer\<close>,
  \<open>PacketStreamSender\<close> (a packet over a stream), \<open>PacketPassConnector\<close> (an output that comes and goes)
  and \<open>PacketProtoFlow\<close>, which chains a writer, the encoder and a buffer.  Each handler returns the
  new state and the calls it makes on the neighbouring interfaces.
\<close>

section \<open>PacketBuffer\<close>

record PacketBuffer =
  pb_buf :: ChunkBuffer2
  input_mtu :: int

datatype pb_action = PB_recv "int option" | PB_send "int option" int

definition packetbuffer_input_handler_done :: "PacketBuffer \<Rightarrow> int \<Rightarrow> PacketBuffer \<times> pb_action list" where
  "packetbuffer_input_handler_done b in_len =
     (let was_empty = (output_avail (pb_buf b) < 0);
          b1 = b\<lparr>pb_buf := ChunkBuffer2_SubmitPacket (pb_buf b) in_len\<rparr>
      in (b1, (if input_avail (pb_buf b1) \<ge> input_mtu b1 then [PB_recv (input_dest (pb_buf b1))] else []) @
              (if was_empty then [PB_send (output_dest (pb_buf b1)) (output_avail (pb_buf b1))] else [])))"

definition packetbuffer_output_handler_done :: "PacketBuffer \<Rightarrow> PacketBuffer \<times> pb_action list" where
  "packetbuffer_output_handler_done b =
     (let was_full = (input_avail (pb_buf b) < input_mtu b);
          b1 = b\<lparr>pb_buf := ChunkBuffer2_ConsumePacket (pb_buf b)\<rparr>
      in (b1, (if was_full \<and> input_avail (pb_buf b1) \<ge> input_mtu b1 then [PB_recv (input_dest (pb_buf b1))] else []) @
              (if output_avail (pb_buf b1) \<ge> 0
               then [PB_send (output_dest (pb_buf b1)) (output_avail (pb_buf b1))] else [])))"

text \<open>\<open>BAllocArray\<close> gives the array of blocks or fails.\<close>

definition PacketBuffer_Init ::
  "int \<Rightarrow> int \<Rightarrow> (int \<Rightarrow> bytes option) \<Rightarrow> (PacketBuffer \<times> pb_action list) option" where
  "PacketBuffer_Init mtu num_packets alloc_blocks =
     (let num_blocks = ChunkBuffer2_calc_blocks mtu num_packets in
      if num_blocks < 0 then None
      else case alloc_blocks num_blocks of
        None \<Rightarrow> None
      | Some buf_data \<Rightarrow>
          (let b = \<lparr>pb_buf = ChunkBuffer2_Init buf_data num_blocks mtu, input_mtu = mtu\<rparr>
           in Some (b, [PB_recv (input_dest (pb_buf b))])))"

section \<open>BufferWriter\<close>

record BufferWriter =
  bw_interface :: "int pri"
  out_have :: bool
  bw_out :: int

definition BufferWriter_Init :: "nat \<Rightarrow> BufferWriter" where
  "BufferWriter_Init mtu = \<lparr>bw_interface = PacketRecvInterface_Init mtu 0, out_have = False, bw_out = 0\<rparr>"

definition BufferWriter_Free :: "BufferWriter \<Rightarrow> BufferWriter" where
  "BufferWriter_Free w = w\<lparr>bw_interface := PacketRecvInterface_Free (bw_interface w)\<rparr>"

definition bufferwriter_output_handler_recv :: "BufferWriter \<Rightarrow> int \<Rightarrow> BufferWriter" where
  "bufferwriter_output_handler_recv w data = w\<lparr>out_have := True, bw_out := data\<rparr>"

definition BufferWriter_StartPacket :: "BufferWriter \<Rightarrow> int option" where
  "BufferWriter_StartPacket w = (if \<not> out_have w then None else Some (bw_out w))"

definition BufferWriter_EndPacket :: "BufferWriter \<Rightarrow> nat \<Rightarrow> BufferWriter" where
  "BufferWriter_EndPacket w len =
     w\<lparr>out_have := False, bw_interface := PacketRecvInterface_Done (bw_interface w) len\<rparr>"

section \<open>SinglePacketBuffer\<close>

record SinglePacketBuffer =
  spb_buf :: bytes

datatype spb_action = SPB_recv | SPB_send nat

definition SinglePacketBuffer_Init ::
  "nat \<Rightarrow> (nat \<Rightarrow> bytes option) \<Rightarrow> (SinglePacketBuffer \<times> spb_action) option" where
  "SinglePacketBuffer_Init mtu alloc =
     (case alloc mtu of None \<Rightarrow> None | Some a \<Rightarrow> Some (\<lparr>spb_buf = a\<rparr>, SPB_recv))"

definition spb_input_handler_done :: "SinglePacketBuffer \<Rightarrow> nat \<Rightarrow> SinglePacketBuffer \<times> spb_action" where
  "spb_input_handler_done b in_len = (b, SPB_send in_len)"

definition spb_output_handler_done :: "SinglePacketBuffer \<Rightarrow> SinglePacketBuffer \<times> spb_action" where
  "spb_output_handler_done b = (b, SPB_recv)"

section \<open>PacketStreamSender\<close>

record PacketStreamSender =
  in_len :: int
  in_data :: bytes
  in_used :: int

datatype pss_action = PSS_send bytes | PSS_done

definition pss_send_data :: "PacketStreamSender \<Rightarrow> PacketStreamSender \<times> pss_action" where
  "pss_send_data s =
     (if in_used s < in_len s then (s, PSS_send (take (nat (in_len s - in_used s)) (drop (nat (in_used s)) (in_data s))))
      else (s\<lparr>in_len := - 1\<rparr>, PSS_done))"

definition pss_input_handler_send :: "PacketStreamSender \<Rightarrow> bytes \<Rightarrow> PacketStreamSender \<times> pss_action" where
  "pss_input_handler_send s data =
     pss_send_data (s\<lparr>in_len := int (length data), in_data := data, in_used := 0\<rparr>)"

definition pss_output_handler_done :: "PacketStreamSender \<Rightarrow> int \<Rightarrow> PacketStreamSender \<times> pss_action" where
  "pss_output_handler_done s data_len = pss_send_data (s\<lparr>in_used := in_used s + data_len\<rparr>)"

definition PacketStreamSender_Init :: PacketStreamSender where
  "PacketStreamSender_Init = \<lparr>in_len = - 1, in_data = [], in_used = 0\<rparr>"

section \<open>PacketPassConnector\<close>

record PacketPassConnector =
  con_mtu :: nat
  con_in :: "bytes option"
  con_output :: bool

datatype con_action = Con_send bytes | Con_done

definition connector_input_handler_send :: "PacketPassConnector \<Rightarrow> bytes \<Rightarrow> PacketPassConnector \<times> con_action list" where
  "connector_input_handler_send c data =
     (c\<lparr>con_in := Some data\<rparr>, if con_output c then [Con_send data] else [])"

definition connector_output_handler_done :: "PacketPassConnector \<Rightarrow> PacketPassConnector \<times> con_action list" where
  "connector_output_handler_done c = (c\<lparr>con_in := None\<rparr>, [Con_done])"

definition PacketPassConnector_Init :: "nat \<Rightarrow> PacketPassConnector" where
  "PacketPassConnector_Init mtu = \<lparr>con_mtu = mtu, con_in = None, con_output = False\<rparr>"

definition PacketPassConnector_ConnectOutput :: "PacketPassConnector \<Rightarrow> PacketPassConnector \<times> con_action list" where
  "PacketPassConnector_ConnectOutput c =
     (c\<lparr>con_output := True\<rparr>, case con_in c of None \<Rightarrow> [] | Some data \<Rightarrow> [Con_send data])"

definition PacketPassConnector_DisconnectOutput :: "PacketPassConnector \<Rightarrow> PacketPassConnector" where
  "PacketPassConnector_DisconnectOutput c = c\<lparr>con_output := False\<rparr>"

section \<open>The ring under a buffer in use\<close>

text \<open>While a receive is outstanding its provider holds the input pointer, while a send is
  outstanding its provider holds the output pointer: neither is moved by the other side.\<close>

lemma submitted_first:
  assumes "cb_holds b (p # ps)" "int (length data) \<le> input_avail b"
  shows "output_dest (ChunkBuffer2_submit_data b data) = output_dest b"
    "output_avail (ChunkBuffer2_submit_data b data) = output_avail b"
    "ChunkBuffer2_output (ChunkBuffer2_submit_data b data) = Some p"
proof -
  let ?b = "ChunkBuffer2_submit_data b data"
  have h: "cb_holds ?b (p # ps @ [data])"
    using submit_data_holds [OF assms] by simp
  have "start ?b = start b"
    by (simp add: ChunkBuffer2_submit_data_def submit_eq Let_def fill_output ChunkBuffer2_update_output_def
      ChunkBuffer2_update_input_def)
  with h assms(1) assert_output_first [of b p ps] assert_output_first [of ?b p "ps @ [data]"]
  show "output_dest ?b = output_dest b" "output_avail ?b = output_avail b"
    by (simp_all add: cb_holds_def)
  show "ChunkBuffer2_output ?b = Some p"
    using output_holds(1) [OF h] by simp
qed

lemma consume_keeps_input:
  assumes "cb_holds b (p # ps)" "input_dest b = Some d"
  shows "input_dest (ChunkBuffer2_ConsumePacket b) = Some d" "input_avail b \<le> input_avail (ChunkBuffer2_ConsumePacket b)"
proof -
  let ?b = "ChunkBuffer2_ConsumePacket b"
  have b0: "cb_ring b (p # ps)" "ChunkBuffer2_assert_input b"
    using assms(1) by (simp_all add: cb_holds_def)
  from b0(1) obtain s u w z t where b: "start b = int s" "used b = int u" "wrap b = int w" "csize b = int z"
    "cmtu b = int t" "s < w" "w \<le> z" "t < z" "ring (buffer b) s u w z t (p # ps)"
    by (auto elim: cb_ringE)
  note c = ring_consume [OF b(9,6,7,8)]
  define s' u' w' where "s' = (if s + blocks p = w then 0 else s + blocks p)" and "u' = u - blocks p"
    and "w' = (if s + blocks p = w then z else w)"
  have fields: "start ?b = int s'" "used ?b = int u'" "wrap ?b = int w'" "csize ?b = int z" "cmtu ?b = int t"
    "buffer ?b = buffer b"
    using consumed_eq [OF b0(1) b(1-4) c(1)] b
    by (auto simp: consume_eq s'_def u'_def w'_def ChunkBuffer2_update_output_def ChunkBuffer2_update_input_def Let_def)
  have ring': "ring (buffer ?b) s' u' w' z t ps" "s' < w'" "w' \<le> z"
    using c(2,4) b(6,7,8) fields(6) by (auto simp: s'_def u'_def w'_def)
  have inp': "ChunkBuffer2_assert_input ?b"
    using consume_holds [OF assms(1)] by (simp add: cb_holds_def)
  have same: "ring_end s' u' w' = ring_end s u w" "ring_free s u w z \<le> ring_free s' u' w' z"
    using c(1,2,5) b(6,7,8) ring_end_room [OF b(9,6,7,8)] b(9)
    by (auto simp: ring_end_def ring_free_def s'_def u'_def w'_def ring_def split: if_splits)
  note i = input_of_ring [OF b0(2) b(9,1-8)]
  note i' = input_of_ring [OF inp' ring'(1) fields(1-5) ring'(2,3) b(8)]
  show "input_dest ?b = Some d"
    using i(1) i'(1) same assms(2) by (auto split: if_splits)
  show "input_avail b \<le> input_avail ?b"
    using i i'(2) same assms(2) by (auto split: if_splits)
qed

section \<open>PacketBuffer in use\<close>

text \<open>The buffer with the flags of its two interfaces: a receive is outstanding, a send is
  outstanding.\<close>

record pb_state =
  pbuf :: PacketBuffer
  rx :: bool
  tx :: bool

fun is_recv :: "pb_action \<Rightarrow> bool" where
  "is_recv (PB_recv _) = True"
| "is_recv (PB_send _ _) = False"

definition pb_apply :: "pb_state \<Rightarrow> PacketBuffer \<times> pb_action list \<Rightarrow> pb_state" where
  "pb_apply s = (\<lambda>(b, acts). s\<lparr>pbuf := b, rx := rx s \<or> list_ex is_recv acts,
     tx := tx s \<or> list_ex (Not \<circ> is_recv) acts\<rparr>)"

text \<open>A packet arrives: the provider has written it at the input pointer.\<close>

definition pb_receive :: "pb_state \<Rightarrow> bytes \<Rightarrow> pb_state" where
  "pb_receive s data =
     pb_apply (s\<lparr>rx := False\<rparr>) (packetbuffer_input_handler_done
       ((pbuf s)\<lparr>pb_buf := ChunkBuffer2_fill (pb_buf (pbuf s)) data\<rparr>) (int (length data)))"

definition pb_sent :: "pb_state \<Rightarrow> pb_state" where
  "pb_sent s = pb_apply (s\<lparr>tx := False\<rparr>) (packetbuffer_output_handler_done (pbuf s))"

inductive pb_run :: "pb_state \<Rightarrow> bytes list \<Rightarrow> bytes list \<Rightarrow> pb_state \<Rightarrow> bool" for s0 where
  pb_start: "pb_run s0 [] [] s0"
| pb_in: "pb_run s0 ins outs s \<Longrightarrow> rx s \<Longrightarrow> int (length data) \<le> input_mtu (pbuf s) \<Longrightarrow>
    pb_run s0 (ins @ [data]) outs (pb_receive s data)"
| pb_out: "pb_run s0 ins outs s \<Longrightarrow> tx s \<Longrightarrow> ChunkBuffer2_output (pb_buf (pbuf s)) = Some p \<Longrightarrow>
    pb_run s0 ins (outs @ [p]) (pb_sent s)"

definition pb_inv :: "int \<Rightarrow> pb_state \<Rightarrow> bytes list \<Rightarrow> bool" where
  "pb_inv num s ps =
     (let b = pb_buf (pbuf s); mtu = input_mtu (pbuf s) in
      cb_holds b ps \<and> 0 \<le> mtu \<and> 0 < num \<and> cmtu b = int (bdivide_up (nat mtu) 4) \<and> csize b = (1 + cmtu b) * (num + 1) \<and>
      (rx s \<longleftrightarrow> mtu \<le> input_avail b) \<and> (tx s \<longleftrightarrow> ps \<noteq> []) \<and> (\<forall>p\<in>set ps. int (length p) \<le> mtu))"

lemma submit_params [simp]:
  "csize (ChunkBuffer2_submit_data b data) = csize b" "cmtu (ChunkBuffer2_submit_data b data) = cmtu b"
  by (auto simp: ChunkBuffer2_submit_data_def ChunkBuffer2_SubmitPacket_def ChunkBuffer2_fill_def Let_def
    ChunkBuffer2_update_input_def ChunkBuffer2_update_output_def split: option.splits)

lemma consume_params [simp]:
  "csize (ChunkBuffer2_ConsumePacket b) = csize b" "cmtu (ChunkBuffer2_ConsumePacket b) = cmtu b"
  by (auto simp: ChunkBuffer2_ConsumePacket_def Let_def ChunkBuffer2_update_input_def ChunkBuffer2_update_output_def)

lemma fill_output_avail [simp]: "output_avail (ChunkBuffer2_fill b data) = output_avail b"
  by (simp add: ChunkBuffer2_fill_def split: option.splits)

lemma pb_receive_inv:
  assumes "pb_inv num s ps" "rx s" "int (length data) \<le> input_mtu (pbuf s)"
  shows "pb_inv num (pb_receive s data) (ps @ [data])"
proof -
  let ?b = "pb_buf (pbuf s)"
  have h: "cb_holds ?b ps" "int (length data) \<le> input_avail ?b"
    using assms by (auto simp: pb_inv_def Let_def)
  have "cb_holds (ChunkBuffer2_submit_data ?b data) (ps @ [data])"
    by (rule submit_data_holds [OF h])
  moreover have "output_avail ?b < 0 \<longleftrightarrow> ps = []"
    by (rule output_holds(2) [OF h(1)])
  ultimately show ?thesis
    using assms
    by (auto simp: pb_inv_def pb_receive_def pb_apply_def packetbuffer_input_handler_done_def Let_def
      ChunkBuffer2_submit_data_def [symmetric])
qed

lemma pb_sent_inv:
  assumes "pb_inv num s (p # ps)"
  shows "pb_inv num (pb_sent s) ps"
proof -
  let ?b = "pb_buf (pbuf s)"
  have h: "cb_holds ?b (p # ps)" "ChunkBuffer2_assert_input ?b"
    using assms by (auto simp: pb_inv_def cb_holds_def Let_def)
  have h': "cb_holds (ChunkBuffer2_ConsumePacket ?b) ps"
    by (rule consume_holds [OF h(1)])
  then have out: "output_avail (ChunkBuffer2_ConsumePacket ?b) < 0 \<longleftrightarrow> ps = []"
    by (rule output_holds(2))
  have keep: "input_mtu (pbuf s) \<le> input_avail (ChunkBuffer2_ConsumePacket ?b)" if "input_mtu (pbuf s) \<le> input_avail ?b"
  proof -
    have "0 \<le> input_avail ?b"
      using that assms by (auto simp: pb_inv_def Let_def)
    then obtain d where "input_dest ?b = Some d"
      using input_avail_dest [OF h(2)] by auto
    with consume_keeps_input(2) [OF h(1)] that show ?thesis
      by force
  qed
  show ?thesis
    using assms h' out keep
    by (auto simp: pb_inv_def pb_sent_def pb_apply_def packetbuffer_output_handler_done_def Let_def)
qed

lemma pb_run_inv:
  assumes "pb_run s0 ins outs s" "pb_inv num s0 []"
  shows "\<exists>ps. pb_inv num s ps \<and> ins = outs @ ps"
  using assms
proof (induction rule: pb_run.induct)
  case (pb_in ins outs s data)
  then show ?case
    using pb_receive_inv by fastforce
next
  case (pb_out ins outs s p)
  then obtain ps where ps: "pb_inv num s ps" "ins = outs @ ps"
    by blast
  then have "cb_holds (pb_buf (pbuf s)) ps"
    by (simp add: pb_inv_def Let_def)
  then obtain qs where "ps = p # qs"
    using pb_out.hyps(3) ChunkBuffer2.out_Some by blast
  with ps pb_sent_inv show ?case
    by auto
qed auto

definition pb_initial :: "PacketBuffer \<Rightarrow> pb_state" where
  "pb_initial b = \<lparr>pbuf = b, rx = True, tx = False\<rparr>"

lemma pb_initial_inv:
  assumes "PacketBuffer_Init mtu num alloc = Some (b, acts)" "0 \<le> mtu" "0 < num"
    "4 * ChunkBuffer2_calc_blocks mtu num \<le> INT_MAX" "\<forall>n a. alloc n = Some a \<longrightarrow> int (length a) = 4 * n"
  shows "pb_inv num (pb_initial b) []"
proof -
  define n where "n = ChunkBuffer2_calc_blocks mtu num"
  define t where "t = bdivide_up (nat mtu) 4"
  obtain a where a: "0 \<le> n" "alloc n = Some a" "b = \<lparr>pb_buf = ChunkBuffer2_Init a n mtu, input_mtu = mtu\<rparr>"
    using assms(1) by (auto simp: PacketBuffer_Init_def n_def Let_def split: option.splits if_splits)
  have n: "n = (1 + int t) * (num + 1)"
    using calc_blocks_eq [of mtu num n] a(1) assms(3) by (simp add: n_def t_def)
  have "int t < (1 + int t) * 1"
    by simp
  also have "\<dots> \<le> (1 + int t) * (num + 1)"
    using assms(3) by (intro mult_left_mono) auto
  finally have tn: "int t < n"
    by (simp only: n)
  have h: "cb_holds (ChunkBuffer2_Init a n mtu) []"
    using tn a assms by (intro Init_holds) (auto simp: n_def t_def)
  have params: "csize (ChunkBuffer2_Init a n mtu) = n" "cmtu (ChunkBuffer2_Init a n mtu) = int t"
    by (simp_all add: ChunkBuffer2_Init_def ChunkBuffer2_update_input_def ChunkBuffer2_update_output_def Let_def t_def)
  have "4 * int t \<le> input_avail (ChunkBuffer2_Init a n mtu)"
    using holds_capacity [OF h, of "nat num"] params n assms(3) by auto
  moreover have "mtu \<le> 4 * int t"
    using bdivide_up_ge [of 4 "nat mtu"] assms(2) by (simp add: t_def)
  ultimately show ?thesis
    using h params n a(3) assms(2,3) by (auto simp: pb_inv_def pb_initial_def t_def)
qed

lemma pb_capacity:
  assumes "pb_inv num s ps" "int (length ps) < num"
  shows "rx s"
proof -
  let ?b = "pb_buf (pbuf s)" and ?mtu = "input_mtu (pbuf s)"
  have h: "cb_holds ?b ps" and inv: "0 \<le> ?mtu" "cmtu ?b = int (bdivide_up (nat ?mtu) 4)"
    "csize ?b = (1 + cmtu ?b) * (num + 1)" "rx s \<longleftrightarrow> ?mtu \<le> input_avail ?b" "\<forall>p\<in>set ps. int (length p) \<le> ?mtu"
    using assms(1) by (auto simp: pb_inv_def Let_def)
  have "\<forall>p\<in>set ps. int (bdivide_up (length p) 4) \<le> cmtu ?b"
  proof
    fix p assume "p \<in> set ps"
    then have "length p \<le> 4 * bdivide_up (nat ?mtu) 4"
      using inv(5) bdivide_up_ge [of 4 "nat ?mtu"] by fastforce
    then show "int (bdivide_up (length p) 4) \<le> cmtu ?b"
      using inv(2) by (simp add: bdivide_up_le_iff)
  qed
  then have "4 * cmtu ?b \<le> input_avail ?b"
    using holds_capacity [OF h, of "nat num"] inv(3) assms(2) by auto
  moreover have "?mtu \<le> 4 * cmtu ?b"
    using bdivide_up_ge [of 4 "nat ?mtu"] inv(1,2) by simp
  ultimately show ?thesis
    using inv(4) by linarith
qed

text \<open>C27. A packet buffer whose bytes can be counted in an \<open>int\<close> (\<open>4 * blocks \<le> INT_MAX\<close>) forwards every packet it
  received, unchanged and in order; it is never
  stuck: a receive or a send is always outstanding, a receive whenever fewer than the
  requested number of packets wait, and a send whenever one waits.\<close>

theorem PacketBuffer_forwards:
  assumes "PacketBuffer_Init mtu num alloc = Some (b, acts)" "0 \<le> mtu" "0 < num"
    "4 * ChunkBuffer2_calc_blocks mtu num \<le> INT_MAX" "\<forall>n a. alloc n = Some a \<longrightarrow> int (length a) = 4 * n"
    "pb_run (pb_initial b) ins outs s"
  shows "\<exists>ps. ins = outs @ ps \<and> (tx s \<longleftrightarrow> ps \<noteq> []) \<and> (int (length ps) < num \<longrightarrow> rx s) \<and> (rx s \<or> tx s) \<and>
    ChunkBuffer2_output (pb_buf (pbuf s)) = (case ps of [] \<Rightarrow> None | p # _ \<Rightarrow> Some p)"
proof -
  obtain ps where ps: "pb_inv num s ps" "ins = outs @ ps"
    using pb_run_inv [OF assms(6) pb_initial_inv [OF assms(1-5)]] by blast
  let ?b = "pb_buf (pbuf s)" and ?mtu = "input_mtu (pbuf s)"
  have h: "cb_holds ?b ps" and inv: "0 \<le> ?mtu" "cmtu ?b = int (bdivide_up (nat ?mtu) 4)"
    "csize ?b = (1 + cmtu ?b) * (num + 1)" "rx s \<longleftrightarrow> ?mtu \<le> input_avail ?b" "tx s \<longleftrightarrow> ps \<noteq> []"
    "\<forall>p\<in>set ps. int (length p) \<le> ?mtu"
    using ps(1) by (auto simp: pb_inv_def Let_def)
  have room: "rx s" if "int (length ps) < num"
    using pb_capacity [OF ps(1) that] .
  then have "rx s \<or> tx s"
    using inv(5) assms(3) by (cases ps) auto
  with ps(2) inv(5) room output_holds(1) [OF h] show ?thesis
    by blast
qed

theorem PacketBuffer_forwards_witness:
  "\<exists>b acts. PacketBuffer_Init 4 1 (\<lambda>n. Some (replicate (nat (4 * n)) 0)) = Some (b, acts) \<and>
     (rx (pb_initial b) \<or> tx (pb_initial b))"
proof -
  have blocks: "ChunkBuffer2_calc_blocks 4 1 = 4"
    by (simp add: ChunkBuffer2_calc_blocks_def bdivide_up_def)
  obtain b acts where init: "PacketBuffer_Init 4 1 (\<lambda>n. Some (replicate (nat (4 * n)) 0)) = Some (b, acts)"
    by (simp add: PacketBuffer_Init_def blocks Let_def)
  show ?thesis
    using PacketBuffer_forwards [of 4 1 "\<lambda>n. if n < 0 then None else Some (replicate (nat (4 * n)) 0)" b acts "[]" "[]"] init
    by (auto simp: blocks PacketBuffer_Init_def pb_start split: if_splits)
qed

section \<open>A packet over a stream\<close>

text \<open>The stream takes a part of what is offered at a time; \<open>sent\<close> is what it took.\<close>

inductive pss_run :: "bytes \<Rightarrow> bytes \<Rightarrow> PacketStreamSender \<Rightarrow> pss_action \<Rightarrow> bool" for data where
  pss_start: "pss_input_handler_send PacketStreamSender_Init data = (s, a) \<Longrightarrow> pss_run data [] s a"
| pss_step: "pss_run data sent s (PSS_send chunk) \<Longrightarrow> 0 < n \<Longrightarrow> n \<le> length chunk \<Longrightarrow>
    pss_output_handler_done s (int n) = (s', a) \<Longrightarrow> pss_run data (sent @ take n chunk) s' a"

definition pss_inv :: "bytes \<Rightarrow> bytes \<Rightarrow> PacketStreamSender \<Rightarrow> pss_action \<Rightarrow> bool" where
  "pss_inv data sent s a = (in_data s = data \<and> in_used s = int (length sent) \<and> sent = take (length sent) data \<and>
     (if length sent < length data then in_len s = int (length data) \<and> a = PSS_send (drop (length sent) data)
      else in_len s = - 1 \<and> a = PSS_done))"

lemma pss_send_data_inv:
  assumes "in_data s = data" "in_used s = int (length sent)" "in_len s = int (length data)" "sent = take (length sent) data"
    "pss_send_data s = (s', a)"
  shows "pss_inv data sent s' a"
  using assms by (auto simp: pss_send_data_def pss_inv_def of_nat_diff split: if_splits)

lemma pss_run_inv: "pss_run data sent s a \<Longrightarrow> pss_inv data sent s a"
proof (induction rule: pss_run.induct)
  case (pss_start s a)
  then show ?case
    by (intro pss_send_data_inv) (auto simp: pss_input_handler_send_def)
next
  case (pss_step sent s chunk n s' a)
  have inv: "in_data s = data" "in_used s = int (length sent)" "sent = take (length sent) data"
    "in_len s = int (length data)" "chunk = drop (length sent) data" "length sent < length data"
    using pss_step.IH by (auto simp: pss_inv_def split: if_splits)
  have ext: "sent @ take n chunk = take (length sent + n) data" "n \<le> length data - length sent"
    using inv pss_step.hyps(3) by (auto simp: take_add)
  then have len: "length (sent @ take n chunk) = length sent + n"
    using inv(6) by simp
  show ?case
  proof (rule pss_send_data_inv)
    show "pss_send_data (s\<lparr>in_used := in_used s + int n\<rparr>) = (s', a)"
      using pss_step.hyps(4) by (simp add: pss_output_handler_done_def)
    show "sent @ take n chunk = take (length (sent @ take n chunk)) data"
      using ext(1) len by simp
    show "in_used (s\<lparr>in_used := in_used s + int n\<rparr>) = int (length (sent @ take n chunk))"
      using inv(2) len by simp
  qed (use inv in auto)
qed



section \<open>An output that comes and goes\<close>

text \<open>The connector with the packet its output is sending; disconnecting drops what the output had.\<close>

inductive con_run :: "PacketPassConnector \<Rightarrow> bytes list \<Rightarrow> nat \<Rightarrow> PacketPassConnector \<Rightarrow> bytes option \<Rightarrow> bool" for c0 where
  con_start: "con_run c0 [] 0 c0 None"
| con_input: "con_run c0 ins dones c out \<Longrightarrow> con_in c = None \<Longrightarrow> length data \<le> con_mtu c \<Longrightarrow>
    connector_input_handler_send c data = (c', acts) \<Longrightarrow>
    con_run c0 (ins @ [data]) dones c' (if Con_send data \<in> set acts then Some data else out)"
| con_done: "con_run c0 ins dones c (Some data) \<Longrightarrow> connector_output_handler_done c = (c', acts) \<Longrightarrow>
    con_run c0 ins (dones + count_list acts Con_done) c' None"
| con_connect: "con_run c0 ins dones c out \<Longrightarrow> \<not> con_output c \<Longrightarrow>
    PacketPassConnector_ConnectOutput c = (c', acts) \<Longrightarrow>
    con_run c0 ins dones c' (case acts of [Con_send data] \<Rightarrow> Some data | _ \<Rightarrow> None)"
| con_disconnect: "con_run c0 ins dones c out \<Longrightarrow> con_output c \<Longrightarrow>
    con_run c0 ins dones (PacketPassConnector_DisconnectOutput c) None"

text \<open>C34. Whenever an output is connected it is sending the packet that is held, also one accepted
  before it was connected or left over from an earlier output; every accepted packet but
  the held one was completed, and the held one is the last.\<close>

theorem PacketPassConnector_holds:
  assumes "con_run (PacketPassConnector_Init mtu) ins dones c out"
  shows "out = (if con_output c then con_in c else None) \<and>
    length ins = dones + (case con_in c of None \<Rightarrow> 0 | Some _ \<Rightarrow> 1) \<and>
    (\<forall>data. con_in c = Some data \<longrightarrow> ins \<noteq> [] \<and> last ins = data)"
  using assms
  by (induction rule: con_run.induct)
    (auto simp: PacketPassConnector_Init_def connector_input_handler_send_def connector_output_handler_done_def
      PacketPassConnector_ConnectOutput_def PacketPassConnector_DisconnectOutput_def split: option.splits if_splits)

theorem PacketPassConnector_holds_witness:
  "let c = fst (connector_input_handler_send (PacketPassConnector_Init 9) [5]) in con_in c = Some [5] \<and> \<not> con_output c"
proof -
  have "con_run (PacketPassConnector_Init 9) ([] @ [[5]]) 0
    (fst (connector_input_handler_send (PacketPassConnector_Init 9) [5]))
    (if Con_send [5] \<in> set (snd (connector_input_handler_send (PacketPassConnector_Init 9) [5])) then Some [5] else None)"
    by (rule con_input [OF con_start]) (auto simp: PacketPassConnector_Init_def)
  from PacketPassConnector_holds [OF this] show ?thesis
    by (auto simp: connector_input_handler_send_def PacketPassConnector_Init_def Let_def)
qed

section \<open>PacketProtoFlow\<close>

text \<open>A writer, the encoder and a buffer in a chain.  The buffer asks the encoder for a packet at a place of
  its ring, the encoder asks the writer for one behind the header, and the writer keeps the request for
  the caller; when the caller ends a packet, the encoder writes the header and the buffer takes the encoded
  packet.  Each of these calls goes through an interface and is made by a job of it, so that initializing the
  flow and ending a packet only set the first job.  While a request is under way nobody else writes at its
  place; the bytes there are kept with the encoder, and in \<open>fencoded\<close> from its completion to the buffer's.\<close>

record PacketProtoFlow =
  ainput :: BufferWriter
  encoder :: PacketProtoEncoder
  fbuffer :: pb_state
  fencoded :: bytes

fun recv_place :: "pb_action list \<Rightarrow> int option" where
  "recv_place [] = None"
| "recv_place (PB_recv d # _) = d"
| "recv_place (PB_send _ _ # acts) = recv_place acts"

definition flow_calls :: "PacketProtoFlow \<Rightarrow> PacketBuffer \<times> pb_action list \<Rightarrow> PacketProtoFlow" where
  "flow_calls f r =
     (let f = f\<lparr>fbuffer := pb_apply (fbuffer f) r\<rparr> in
      case recv_place (snd r) of
        None \<Rightarrow> f
      | Some d \<Rightarrow> f\<lparr>encoder := (encoder f)\<lparr>enc_output := PacketRecvInterface_Receiver_Recv (enc_output (encoder f)) d\<rparr>\<rparr>)"

definition PacketProtoFlow_Init :: "nat \<Rightarrow> int \<Rightarrow> (int \<Rightarrow> bytes option) \<Rightarrow> PacketProtoFlow option" where
  "PacketProtoFlow_Init mtu num_packets alloc_blocks =
     (case PacketBuffer_Init (int (PACKETPROTO_ENCLEN mtu)) num_packets alloc_blocks of
        None \<Rightarrow> None
      | Some (b, acts) \<Rightarrow>
          Some (flow_calls \<lparr>ainput = BufferWriter_Init mtu, encoder = PacketProtoEncoder_Init mtu,
                            fbuffer = \<lparr>pbuf = b, rx = False, tx = False\<rparr>, fencoded = []\<rparr> (b, acts)))"

text \<open>The jobs of the encoder's interface, whose user is the buffer.\<close>

definition flow_encoder_job :: "PacketProtoFlow \<Rightarrow> PacketProtoFlow" where
  "flow_encoder_job f =
     (case pri_jobs (enc_output (encoder f)) of
        [] \<Rightarrow> f
      | j # js \<Rightarrow>
          (let (i, call) = pri_run j ((enc_output (encoder f))\<lparr>pri_jobs := js\<rparr>);
               f = f\<lparr>encoder := (encoder f)\<lparr>enc_output := i\<rparr>\<rparr>;
               b = pbuf (fbuffer f)
           in case call of
                Rhandler_operation d \<Rightarrow>
                  (case encoder_output_handler_recv (encoder f) (mslice (nat d) (nat (input_avail (pb_buf b))) (buffer (pb_buf b))) of
                     (enc, Enc_recv off) \<Rightarrow>
                       f\<lparr>encoder := enc,
                         ainput := (ainput f)\<lparr>bw_interface := PacketRecvInterface_Receiver_Recv (bw_interface (ainput f)) (d + int off)\<rparr>\<rparr>
                   | _ \<Rightarrow> f)
              | Rhandler_done n \<Rightarrow>
                  flow_calls (f\<lparr>fbuffer := (fbuffer f)\<lparr>rx := False\<rparr>\<rparr>)
                    (packetbuffer_input_handler_done (b\<lparr>pb_buf := ChunkBuffer2_fill (pb_buf b) (fencoded f)\<rparr>) (int n))))"

text \<open>The jobs of the writer's interface, whose user is the encoder.\<close>

definition flow_writer_job :: "PacketProtoFlow \<Rightarrow> PacketProtoFlow" where
  "flow_writer_job f =
     (case pri_jobs (bw_interface (ainput f)) of
        [] \<Rightarrow> f
      | j # js \<Rightarrow>
          (let (i, call) = pri_run j ((bw_interface (ainput f))\<lparr>pri_jobs := js\<rparr>);
               f = f\<lparr>ainput := (ainput f)\<lparr>bw_interface := i\<rparr>\<rparr>
           in case call of
                Rhandler_operation d \<Rightarrow> f\<lparr>ainput := bufferwriter_output_handler_recv (ainput f) d\<rparr>
              | Rhandler_done n \<Rightarrow>
                  (case encoder_input_handler_done (encoder f) n of
                     Some (enc, dest, Enc_done m) \<Rightarrow> f\<lparr>encoder := enc, fencoded := take m dest\<rparr>
                   | _ \<Rightarrow> f)))"

text \<open>The caller, whom \<open>BufferWriter_StartPacket\<close> gave a place, writes its packet there and ends it; the output
  has sent a packet.\<close>

definition PacketProtoFlow_put :: "PacketProtoFlow \<Rightarrow> bytes \<Rightarrow> PacketProtoFlow" where
  "PacketProtoFlow_put f payload =
     f\<lparr>encoder := (encoder f)\<lparr>output_packet := map_option (put payload 2) (output_packet (encoder f))\<rparr>,
       ainput := BufferWriter_EndPacket (ainput f) (length payload)\<rparr>"

definition PacketProtoFlow_output_done :: "PacketProtoFlow \<Rightarrow> PacketProtoFlow" where
  "PacketProtoFlow_output_done f =
     flow_calls (f\<lparr>fbuffer := (fbuffer f)\<lparr>tx := False\<rparr>\<rparr>) (packetbuffer_output_handler_done (pbuf (fbuffer f)))"

text \<open>Whether a job is pending, one job, and the jobs until none is pending: four are enough.\<close>

definition flow_busy :: "PacketProtoFlow \<Rightarrow> bool" where
  "flow_busy f \<longleftrightarrow> pri_jobs (bw_interface (ainput f)) \<noteq> [] \<or> pri_jobs (enc_output (encoder f)) \<noteq> []"

definition flow_job :: "PacketProtoFlow \<Rightarrow> PacketProtoFlow" where
  "flow_job f = (if pri_jobs (bw_interface (ainput f)) \<noteq> [] then flow_writer_job f else flow_encoder_job f)"

definition flow_settle :: "PacketProtoFlow \<Rightarrow> PacketProtoFlow" where
  "flow_settle f = flow_job (flow_job (flow_job (flow_job f)))"

text \<open>The operations for a user that lets the jobs run before it calls the flow again.\<close>

definition PacketProtoFlow_write :: "PacketProtoFlow \<Rightarrow> bytes \<Rightarrow> PacketProtoFlow option" where
  "PacketProtoFlow_write f payload =
     (case BufferWriter_StartPacket (ainput f) of
        None \<Rightarrow> None
      | Some _ \<Rightarrow> Some (flow_settle (PacketProtoFlow_put f payload)))"

definition PacketProtoFlow_sent :: "PacketProtoFlow \<Rightarrow> PacketProtoFlow" where
  "PacketProtoFlow_sent f = flow_settle (PacketProtoFlow_output_done f)"

text \<open>Any order of the caller, the jobs and the output.\<close>

inductive flow_run :: "PacketProtoFlow \<Rightarrow> bytes list \<Rightarrow> bytes list \<Rightarrow> PacketProtoFlow \<Rightarrow> bool" for f0 where
  flow_start: "flow_run f0 [] [] f0"
| flow_write: "flow_run f0 ws outs f \<Longrightarrow> BufferWriter_StartPacket (ainput f) = Some place \<Longrightarrow>
    length payload \<le> PacketRecvInterface_GetMTU (bw_interface (ainput f)) \<Longrightarrow>
    flow_run f0 (ws @ [payload]) outs (PacketProtoFlow_put f payload)"
| flow_next: "flow_run f0 ws outs f \<Longrightarrow> flow_busy f \<Longrightarrow> flow_run f0 ws outs (flow_job f)"
| flow_sent: "flow_run f0 ws outs f \<Longrightarrow> tx (fbuffer f) \<Longrightarrow>
    ChunkBuffer2_output (pb_buf (pbuf (fbuffer f))) = Some p \<Longrightarrow>
    flow_run f0 ws (outs @ [p]) (PacketProtoFlow_output_done f)"

text \<open>The caller writes behind the header at the place the ring expects, and a packet fits there.\<close>

definition flow_dest :: "PacketProtoFlow \<Rightarrow> int \<Rightarrow> bool" where
  "flow_dest f place = (\<exists>dest d. output_packet (encoder f) = Some dest \<and>
     input_mtu (pbuf (fbuffer f)) \<le> int (length dest) \<and>
     input_dest (pb_buf (pbuf (fbuffer f))) = Some d \<and> place = d + 2)"

definition flow_place :: "PacketProtoFlow \<Rightarrow> bool" where
  "flow_place f = flow_dest f (bw_out (ainput f))"

text \<open>Where a request or a packet is, by the states of the two interfaces, with the packet that was ended and
  is not in the buffer yet.\<close>

fun flow_phase_of :: "if_state \<Rightarrow> if_state \<Rightarrow> PacketProtoFlow \<Rightarrow> bytes option \<Rightarrow> bool" where
  "flow_phase_of STATE_NONE STATE_NONE f fly =
     (\<not> rx (fbuffer f) \<and> \<not> out_have (ainput f) \<and> fly = None \<and>
      pri_jobs (enc_output (encoder f)) = [] \<and> pri_jobs (bw_interface (ainput f)) = [])"
| "flow_phase_of STATE_OPERATION_PENDING STATE_NONE f fly =
     (rx (fbuffer f) \<and> \<not> out_have (ainput f) \<and> fly = None \<and>
      pri_jobs (enc_output (encoder f)) = [Sjob_operation] \<and> pri_jobs (bw_interface (ainput f)) = [] \<and>
      input_dest (pb_buf (pbuf (fbuffer f))) = Some (pri_data (enc_output (encoder f))))"
| "flow_phase_of STATE_BUSY STATE_OPERATION_PENDING f fly =
     (rx (fbuffer f) \<and> \<not> out_have (ainput f) \<and> fly = None \<and>
      pri_jobs (enc_output (encoder f)) = [] \<and> pri_jobs (bw_interface (ainput f)) = [Sjob_operation] \<and>
      flow_dest f (pri_data (bw_interface (ainput f))))"
| "flow_phase_of STATE_BUSY STATE_BUSY f fly =
     (rx (fbuffer f) \<and> out_have (ainput f) \<and> fly = None \<and>
      pri_jobs (enc_output (encoder f)) = [] \<and> pri_jobs (bw_interface (ainput f)) = [] \<and> flow_place f)"
| "flow_phase_of STATE_BUSY STATE_DONE_PENDING f fly =
     (rx (fbuffer f) \<and> \<not> out_have (ainput f) \<and>
      pri_jobs (enc_output (encoder f)) = [] \<and> pri_jobs (bw_interface (ainput f)) = [Sjob_done] \<and>
      (\<exists>m dest. fly = Some m \<and> pri_done_len (bw_interface (ainput f)) = length m \<and> output_packet (encoder f) = Some dest \<and>
         2 + length m \<le> length dest \<and> take (length m) (drop 2 dest) = m))"
| "flow_phase_of STATE_DONE_PENDING STATE_NONE f fly =
     (rx (fbuffer f) \<and> \<not> out_have (ainput f) \<and>
      pri_jobs (enc_output (encoder f)) = [Sjob_done] \<and> pri_jobs (bw_interface (ainput f)) = [] \<and>
      (\<exists>m. fly = Some m \<and> pri_done_len (enc_output (encoder f)) = 2 + length m \<and> fencoded f = frame m))"
| "flow_phase_of _ _ f fly = False"

definition flow_phase :: "PacketProtoFlow \<Rightarrow> bytes option \<Rightarrow> bool" where
  "flow_phase f fly = flow_phase_of (pri_state (enc_output (encoder f))) (pri_state (bw_interface (ainput f))) f fly"

definition flow_held :: "int \<Rightarrow> PacketProtoFlow \<Rightarrow> bytes list \<Rightarrow> bytes option \<Rightarrow> bool" where
  "flow_held num f ps fly = (pb_inv num (fbuffer f) (map frame ps) \<and> (\<forall>p\<in>set ps \<union> set_option fly. length p \<le> UINT16_MAX) \<and>
     input_mtu (pbuf (fbuffer f)) \<le> 2 + int UINT16_MAX \<and>
     input_mtu (pbuf (fbuffer f)) = 2 + int (PacketRecvInterface_GetMTU (bw_interface (ainput f))) \<and>
     (\<forall>m. fly = Some m \<longrightarrow> 2 + int (length m) \<le> input_mtu (pbuf (fbuffer f))) \<and> flow_phase f fly)"

text \<open>How many jobs are left until the flow waits for the caller or for the output.\<close>

fun flow_rank :: "if_state \<Rightarrow> if_state \<Rightarrow> nat" where
  "flow_rank STATE_BUSY STATE_DONE_PENDING = 4"
| "flow_rank STATE_DONE_PENDING STATE_NONE = 3"
| "flow_rank STATE_OPERATION_PENDING STATE_NONE = 2"
| "flow_rank STATE_BUSY STATE_OPERATION_PENDING = 1"
| "flow_rank _ _ = 0"

definition flow_left :: "PacketProtoFlow \<Rightarrow> nat" where
  "flow_left f = flow_rank (pri_state (enc_output (encoder f))) (pri_state (bw_interface (ainput f)))"

text \<open>The invariant when no job is pending.\<close>

definition flow_inv :: "int \<Rightarrow> PacketProtoFlow \<Rightarrow> bytes list \<Rightarrow> bool" where
  "flow_inv num f ps = (pb_inv num (fbuffer f) (map frame ps) \<and> (\<forall>p\<in>set ps. length p \<le> UINT16_MAX) \<and>
     input_mtu (pbuf (fbuffer f)) \<le> 2 + int UINT16_MAX \<and> (out_have (ainput f) \<longleftrightarrow> rx (fbuffer f)) \<and>
     (out_have (ainput f) \<longrightarrow> flow_place f) \<and> flow_held num f ps None \<and> \<not> flow_busy f)"

lemma flow_calls_fields [simp]:
  "fbuffer (flow_calls f r) = pb_apply (fbuffer f) r" "ainput (flow_calls f r) = ainput f" "fencoded (flow_calls f r) = fencoded f"
  "output_packet (encoder (flow_calls f r)) = output_packet (encoder f)"
  "recv_place (snd r) = None \<Longrightarrow> encoder (flow_calls f r) = encoder f"
  by (simp_all add: flow_calls_def Let_def split: option.split)

lemma pb_inv_dest:
  assumes "pb_inv num s ps" "rx s"
  shows "\<exists>d. input_dest (pb_buf (pbuf s)) = Some d \<and> 0 \<le> d \<and>
    d + input_avail (pb_buf (pbuf s)) \<le> int (length (buffer (pb_buf (pbuf s)))) \<and> 0 \<le> input_mtu (pbuf s) \<and>
    input_mtu (pbuf s) \<le> input_avail (pb_buf (pbuf s))"
proof -
  let ?b = "pb_buf (pbuf s)"
  have h: "cb_holds ?b ps" "0 \<le> input_mtu (pbuf s)" "input_mtu (pbuf s) \<le> input_avail ?b"
    using assms by (auto simp: pb_inv_def Let_def)
  then have "ChunkBuffer2_assert_input ?b" "0 \<le> input_avail ?b"
    by (auto simp: cb_holds_def)
  then obtain d where d: "input_dest ?b = Some d"
    using input_avail_dest by blast
  with cb_input_fits [OF h(1) d] h show ?thesis
    by auto
qed

lemma pb_receive_acts:
  assumes "packetbuffer_input_handler_done (b\<lparr>pb_buf := ChunkBuffer2_fill (pb_buf b) data\<rparr>) (int (length data)) = r" "\<not> rx s"
  shows "recv_place (snd r) = (if rx (pb_apply s r) then input_dest (pb_buf (fst r)) else None)"
  using assms by (auto simp: packetbuffer_input_handler_done_def pb_apply_def Let_def split: if_splits)

lemma pb_sent_acts:
  assumes "packetbuffer_output_handler_done (pbuf s) = r" "pb_inv num s ps"
  shows "recv_place (snd r) = (if rx (pb_apply (s\<lparr>tx := False\<rparr>) r) \<and> \<not> rx s then input_dest (pb_buf (fst r)) else None)"
  using assms by (auto simp: packetbuffer_output_handler_done_def pb_apply_def pb_inv_def Let_def split: if_splits)

text \<open>A call of the buffer that may ask for the next packet.\<close>

lemma flow_calls_phase:
  assumes "pb_inv num (pb_apply (fbuffer f) r) ps" "\<not> rx (fbuffer f)" "\<not> out_have (ainput f)"
    and "recv_place (snd r) = (if rx (pb_apply (fbuffer f) r) then input_dest (pb_buf (fst r)) else None)"
    and "pri_state (enc_output (encoder f)) = STATE_NONE" "pri_state (bw_interface (ainput f)) = STATE_NONE"
    and "pri_jobs (enc_output (encoder f)) = []" "pri_jobs (bw_interface (ainput f)) = []"
  shows "flow_phase (flow_calls f r) None" "flow_left (flow_calls f r) \<le> 2"
proof -
  have pb: "pbuf (pb_apply (fbuffer f) r) = fst r"
    by (simp add: pb_apply_def split: prod.split)
  show "flow_phase (flow_calls f r) None"
  proof (cases "rx (pb_apply (fbuffer f) r)")
    case True
    then obtain d where "input_dest (pb_buf (fst r)) = Some d"
      using pb_inv_dest [OF assms(1)] pb by auto
    then show ?thesis
      using True assms pb by (simp add: flow_phase_def flow_calls_def pri_defs)
  next
    case False
    then show ?thesis
      using assms by (simp add: flow_phase_def flow_calls_def)
  qed
  show "flow_left (flow_calls f r) \<le> 2"
    using assms(5,6) by (simp add: flow_left_def flow_calls_def PacketRecvInterface_Receiver_Recv_def Let_def split: option.split)
qed

lemma flow_phase_cases:
  assumes "flow_phase f fly"
  obtains (idle) "flow_phase_of STATE_NONE STATE_NONE f fly" "pri_state (enc_output (encoder f)) = STATE_NONE"
      "pri_state (bw_interface (ainput f)) = STATE_NONE"
    | (asked) "flow_phase_of STATE_OPERATION_PENDING STATE_NONE f fly" "pri_state (enc_output (encoder f)) = STATE_OPERATION_PENDING"
      "pri_state (bw_interface (ainput f)) = STATE_NONE"
    | (passed) "flow_phase_of STATE_BUSY STATE_OPERATION_PENDING f fly" "pri_state (enc_output (encoder f)) = STATE_BUSY"
      "pri_state (bw_interface (ainput f)) = STATE_OPERATION_PENDING"
    | (offered) "flow_phase_of STATE_BUSY STATE_BUSY f fly" "pri_state (enc_output (encoder f)) = STATE_BUSY"
      "pri_state (bw_interface (ainput f)) = STATE_BUSY"
    | (ended) "flow_phase_of STATE_BUSY STATE_DONE_PENDING f fly" "pri_state (enc_output (encoder f)) = STATE_BUSY"
      "pri_state (bw_interface (ainput f)) = STATE_DONE_PENDING"
    | (encoded) "flow_phase_of STATE_DONE_PENDING STATE_NONE f fly" "pri_state (enc_output (encoder f)) = STATE_DONE_PENDING"
      "pri_state (bw_interface (ainput f)) = STATE_NONE"
  using assms unfolding flow_phase_def
  by (cases "pri_state (enc_output (encoder f))"; cases "pri_state (bw_interface (ainput f))") simp_all

text \<open>A job takes the request or the packet one place further; the last one for a packet puts it into the
  buffer.\<close>

lemma encoder_asked:
  assumes "flow_held num f ps fly" "flow_phase_of STATE_OPERATION_PENDING STATE_NONE f fly"
  shows "flow_held num (flow_job f) ps fly \<and> flow_left (flow_job f) = 1"
proof -
  obtain d where d: "input_dest (pb_buf (pbuf (fbuffer f))) = Some d" "0 \<le> d"
    "d + input_avail (pb_buf (pbuf (fbuffer f))) \<le> int (length (buffer (pb_buf (pbuf (fbuffer f)))))"
    "0 \<le> input_mtu (pbuf (fbuffer f))" "input_mtu (pbuf (fbuffer f)) \<le> input_avail (pb_buf (pbuf (fbuffer f)))"
    using assms pb_inv_dest [of num "fbuffer f" "map frame ps"] by (auto simp: flow_held_def)
  then have "input_mtu (pbuf (fbuffer f)) \<le>
    int (length (mslice (nat d) (nat (input_avail (pb_buf (pbuf (fbuffer f))))) (buffer (pb_buf (pbuf (fbuffer f))))))"
    by (simp add: length_slice)
  with assms d(1) show ?thesis
    by (auto simp: flow_held_def flow_phase_def flow_left_def flow_job_def flow_encoder_job_def encoder_output_handler_recv_def flow_dest_def
      pri_defs PacketRecvInterface_GetMTU_def Let_def)
qed

lemma writer_asked:
  assumes "flow_held num f ps fly" "flow_phase_of STATE_BUSY STATE_OPERATION_PENDING f fly" "pri_state (enc_output (encoder f)) = STATE_BUSY"
  shows "flow_held num (flow_job f) ps fly \<and> flow_left (flow_job f) = 0"
  using assms
  by (auto simp: flow_held_def flow_phase_def flow_left_def flow_job_def flow_writer_job_def bufferwriter_output_handler_recv_def flow_place_def
      flow_dest_def pri_defs PacketRecvInterface_GetMTU_def)

lemma encode_in_place:
  assumes "output_packet enc = Some dest" "2 + length m \<le> length dest" "take (length m) (drop 2 dest) = m"
  shows "\<exists>enc' dest'. encoder_input_handler_done enc (length m) = Some (enc', dest', Enc_done (2 + length m)) \<and>
    take (2 + length m) dest' = frame m \<and> enc' = enc\<lparr>output_packet := None, enc_output := PacketRecvInterface_Done (enc_output enc) (2 + length m)\<rparr>"
proof -
  have "take (2 + length m) (put (mem16 (htol16 (of_nat (length m)))) 0 dest) = mem16 (htol16 (of_nat (length m))) @ m"
    using assms(2,3) by (simp add: put_def length_mem numeral_2_eq_2)
  with assms(1) show ?thesis
    by (simp add: encoder_input_handler_done_def PACKETPROTO_ENCLEN_def frame_def htol16_def)
qed

lemma packet_ended:
  assumes "flow_held num f ps fly" "flow_phase_of STATE_BUSY STATE_DONE_PENDING f fly"
  shows "flow_held num (flow_job f) ps fly \<and> flow_left (flow_job f) = 3"
proof -
  obtain m dest where m: "fly = Some m" "pri_done_len (bw_interface (ainput f)) = length m" "output_packet (encoder f) = Some dest"
    "2 + length m \<le> length dest" "take (length m) (drop 2 dest) = m"
    using assms(2) by auto
  obtain dest' where "encoder_input_handler_done (encoder f) (length m) =
      Some ((encoder f)\<lparr>output_packet := None, enc_output := PacketRecvInterface_Done (enc_output (encoder f)) (2 + length m)\<rparr>, dest', Enc_done (2 + length m))"
    "take (2 + length m) dest' = frame m"
    using encode_in_place [OF m(3-5)] by auto
  then show ?thesis
    using assms m
    by (auto simp: flow_held_def flow_phase_def flow_left_def flow_job_def flow_writer_job_def pri_defs PacketRecvInterface_GetMTU_def)
qed

lemma packet_encoded:
  assumes "flow_held num f ps (Some m)" "flow_phase_of STATE_DONE_PENDING STATE_NONE f (Some m)" "pri_state (bw_interface (ainput f)) = STATE_NONE"
  shows "flow_held num (flow_job f) (ps @ [m]) None \<and> flow_left (flow_job f) \<le> 2"
proof -
  define g where "g = f\<lparr>encoder := (encoder f)\<lparr>enc_output := (enc_output (encoder f))\<lparr>pri_jobs := [], pri_state := STATE_NONE\<rparr>\<rparr>,
    fbuffer := (fbuffer f)\<lparr>rx := False\<rparr>\<rparr>"
  define b where "b = pbuf (fbuffer f)"
  define r where "r = packetbuffer_input_handler_done (b\<lparr>pb_buf := ChunkBuffer2_fill (pb_buf b) (frame m)\<rparr>) (int (length (frame m)))"
  have held: "pb_inv num (fbuffer f) (map frame ps)" "rx (fbuffer f)" "2 + int (length m) \<le> input_mtu b"
    using assms by (auto simp: flow_held_def b_def)
  have job: "flow_job f = flow_calls g r"
    using assms(2) by (auto simp: flow_job_def flow_encoder_job_def g_def r_def b_def pri_defs Let_def)
  have recv: "pb_apply (fbuffer g) r = pb_receive (fbuffer f) (frame m)"
    by (simp add: g_def r_def b_def pb_receive_def)
  have inv: "pb_inv num (pb_receive (fbuffer f) (frame m)) (map frame ps @ [frame m])"
    using pb_receive_inv [OF held(1,2)] held(3) by (simp add: b_def)
  have "flow_phase (flow_calls g r) None" "flow_left (flow_calls g r) \<le> 2"
    using flow_calls_phase [of num g r] inv recv pb_receive_acts [OF r_def [symmetric], of "fbuffer g"] assms(2,3)
    by (auto simp: g_def)
  moreover have "input_mtu (pbuf (pb_receive (fbuffer f) (frame m))) = input_mtu b"
    by (simp add: pb_receive_def pb_apply_def packetbuffer_input_handler_done_def Let_def b_def)
  ultimately show ?thesis
    using assms(1) inv recv by (simp add: job flow_held_def b_def) (simp add: g_def)
qed

lemma flow_busy_left: "flow_phase f fly \<Longrightarrow> flow_busy f \<longleftrightarrow> 0 < flow_left f"
  by (erule flow_phase_cases) (auto simp: flow_busy_def flow_left_def)

lemma flow_job_idle: "\<not> flow_busy f \<Longrightarrow> flow_job f = f"
  by (simp add: flow_busy_def flow_job_def flow_encoder_job_def)

definition flow_packets :: "bytes list \<Rightarrow> bytes option \<Rightarrow> bytes list" where
  "flow_packets ps fly = ps @ (case fly of None \<Rightarrow> [] | Some m \<Rightarrow> [m])"

lemma flow_job_held:
  assumes "flow_held num f ps fly"
  shows "\<exists>ps' fly'. flow_held num (flow_job f) ps' fly' \<and> flow_packets ps' fly' = flow_packets ps fly \<and>
    flow_left (flow_job f) \<le> flow_left f - 1"
proof -
  have phase: "flow_phase f fly"
    using assms by (simp add: flow_held_def)
  then show ?thesis
  proof (cases rule: flow_phase_cases)
    case idle
    then show ?thesis
      using assms flow_job_idle [of f] by (auto simp: flow_busy_def flow_left_def intro!: exI)
  next
    case asked
    then show ?thesis
      using encoder_asked [OF assms asked(1)] by (auto simp: flow_left_def intro!: exI)
  next
    case passed
    then show ?thesis
      using writer_asked [OF assms passed(1,2)] by (auto simp: flow_left_def intro!: exI)
  next
    case offered
    then show ?thesis
      using assms flow_job_idle [of f] by (auto simp: flow_busy_def flow_left_def intro!: exI)
  next
    case ended
    then show ?thesis
      using packet_ended [OF assms ended(1)] ended(2,3) by (intro exI [of _ ps] exI [of _ fly]) (simp add: flow_left_def)
  next
    case encoded
    then obtain m where m: "fly = Some m"
      by auto
    then show ?thesis
      using packet_encoded [of num f ps m] assms encoded
      by (intro exI [of _ "ps @ [m]"] exI [of _ None]) (simp add: flow_packets_def flow_left_def)
  qed
qed

lemma flow_settle_held:
  assumes "flow_held num f ps fly"
  shows "flow_held num (flow_settle f) (flow_packets ps fly) None" "\<not> flow_busy (flow_settle f)"
proof -
  have le: "flow_left f \<le> 4"
    unfolding flow_left_def by (rule flow_rank.cases [of "(pri_state (enc_output (encoder f)), pri_state (bw_interface (ainput f)))"]) auto
  obtain ps1 fly1 where 1: "flow_held num (flow_job f) ps1 fly1" "flow_packets ps1 fly1 = flow_packets ps fly" "flow_left (flow_job f) \<le> 3"
    using flow_job_held [OF assms] le by force
  obtain ps2 fly2 where 2: "flow_held num (flow_job (flow_job f)) ps2 fly2" "flow_packets ps2 fly2 = flow_packets ps fly"
    "flow_left (flow_job (flow_job f)) \<le> 2"
    using flow_job_held [OF 1(1)] 1(2,3) by force
  obtain ps3 fly3 where 3: "flow_held num (flow_job (flow_job (flow_job f))) ps3 fly3" "flow_packets ps3 fly3 = flow_packets ps fly"
    "flow_left (flow_job (flow_job (flow_job f))) \<le> 1"
    using flow_job_held [OF 2(1)] 2(2,3) by force
  obtain ps4 fly4 where 4: "flow_held num (flow_settle f) ps4 fly4" "flow_packets ps4 fly4 = flow_packets ps fly" "flow_left (flow_settle f) = 0"
    using flow_job_held [OF 3(1)] 3(2,3) by (force simp: flow_settle_def)
  then have phase: "flow_phase (flow_settle f) fly4"
    by (simp add: flow_held_def)
  then show "\<not> flow_busy (flow_settle f)"
    using flow_busy_left 4(3) by simp
  have "fly4 = None"
    using phase 4(3) by (cases rule: flow_phase_cases) (auto simp: flow_left_def)
  with 4 show "flow_held num (flow_settle f) (flow_packets ps fly) None"
    by (simp add: flow_packets_def)
qed

lemma flow_inv_settled: "flow_inv num f ps \<longleftrightarrow> flow_held num f ps None \<and> \<not> flow_busy f"
proof
  assume h: "flow_held num f ps None \<and> \<not> flow_busy f"
  then have "flow_phase f None" "flow_left f = 0"
    using flow_busy_left by (auto simp: flow_held_def)
  then have "(out_have (ainput f) \<longleftrightarrow> rx (fbuffer f)) \<and> (out_have (ainput f) \<longrightarrow> flow_place f)"
    by (cases rule: flow_phase_cases) (auto simp: flow_left_def)
  with h show "flow_inv num f ps"
    by (simp add: flow_inv_def flow_held_def)
qed (simp add: flow_inv_def)

text \<open>What the caller and the output do to it.\<close>

lemma flow_put_held:
  assumes "flow_held num f ps fly" "BufferWriter_StartPacket (ainput f) = Some place"
    "length payload \<le> PacketRecvInterface_GetMTU (bw_interface (ainput f))"
  shows "fly = None" "flow_held num (PacketProtoFlow_put f payload) ps (Some payload)"
proof -
  have have_out: "out_have (ainput f)" and phase: "flow_phase f fly"
    using assms(1,2) by (auto simp: flow_held_def BufferWriter_StartPacket_def split: if_splits)
  from phase have off: "flow_phase_of STATE_BUSY STATE_BUSY f fly" "pri_state (enc_output (encoder f)) = STATE_BUSY"
    by (cases rule: flow_phase_cases; use have_out in simp)+
  then obtain dest where dest: "output_packet (encoder f) = Some dest" "input_mtu (pbuf (fbuffer f)) \<le> int (length dest)"
    by (auto simp: flow_place_def flow_dest_def)
  have len: "2 + int (length payload) \<le> input_mtu (pbuf (fbuffer f))" "length payload \<le> UINT16_MAX"
    using assms(1,3) by (auto simp: flow_held_def)
  then have "2 + length payload \<le> length dest"
    using dest(2) by linarith
  then have "take (length payload) (drop 2 (put payload 2 dest)) = payload" "2 + length payload \<le> length (put payload 2 dest)"
    by (simp_all add: put_def)
  with assms(1) off dest len show "flow_held num (PacketProtoFlow_put f payload) ps (Some payload)"
    by (auto simp: flow_held_def flow_phase_def PacketProtoFlow_put_def BufferWriter_EndPacket_def pri_defs PacketRecvInterface_GetMTU_def)
  show "fly = None"
    using off by simp
qed

lemma flow_dest_cong:
  "output_packet (encoder g) = output_packet (encoder f) \<Longrightarrow> input_mtu (pbuf (fbuffer g)) = input_mtu (pbuf (fbuffer f)) \<Longrightarrow>
    input_dest (pb_buf (pbuf (fbuffer g))) = input_dest (pb_buf (pbuf (fbuffer f))) \<Longrightarrow> flow_dest g = flow_dest f"
  by (simp add: flow_dest_def fun_eq_iff)

lemma flow_done_held:
  assumes "flow_held num f (p # ps) fly"
  shows "flow_held num (PacketProtoFlow_output_done f) ps fly"
proof -
  define r where "r = packetbuffer_output_handler_done (pbuf (fbuffer f))"
  define g where "g = f\<lparr>fbuffer := (fbuffer f)\<lparr>tx := False\<rparr>\<rparr>"
  let ?b = "pb_buf (pbuf (fbuffer f))"
  have eq: "PacketProtoFlow_output_done f = flow_calls g r" "pb_apply (fbuffer g) r = pb_sent (fbuffer f)"
    by (simp_all add: PacketProtoFlow_output_done_def g_def r_def pb_sent_def)
  have inv: "pb_inv num (fbuffer f) (map frame (p # ps))" and phase: "flow_phase f fly"
    using assms by (simp_all add: flow_held_def)
  have inv': "pb_inv num (pb_sent (fbuffer f)) (map frame ps)" and h: "cb_holds ?b (frame p # map frame ps)"
    using pb_sent_inv [of num "fbuffer f" "frame p" "map frame ps"] inv by (auto simp: pb_inv_def Let_def)
  have sent: "input_mtu (pbuf (pb_sent (fbuffer f))) = input_mtu (pbuf (fbuffer f))"
    "pb_buf (pbuf (pb_sent (fbuffer f))) = ChunkBuffer2_ConsumePacket ?b" "rx (fbuffer f) \<Longrightarrow> rx (pb_sent (fbuffer f))"
    by (simp_all add: pb_sent_def pb_apply_def packetbuffer_output_handler_done_def Let_def)
  note acts = pb_sent_acts [OF r_def [symmetric] inv]
  have "flow_phase (flow_calls g r) fly"
  proof (cases "rx (fbuffer f)")
    case True
    then obtain d where d: "input_dest ?b = Some d"
      using pb_inv_dest [OF inv] by auto
    then have same: "input_dest (pb_buf (pbuf (fbuffer (flow_calls g r)))) = input_dest ?b"
      using consume_keeps_input(1) [OF h] sent(2) eq(2) by simp
    have enc: "encoder (flow_calls g r) = encoder f" "ainput (flow_calls g r) = ainput f" "fencoded (flow_calls g r) = fencoded f"
      "rx (fbuffer (flow_calls g r))" "input_mtu (pbuf (fbuffer (flow_calls g r))) = input_mtu (pbuf (fbuffer f))"
      using acts True sent eq(2) by (simp_all add: g_def)
    have "flow_dest (flow_calls g r) = flow_dest f"
      using same enc by (intro flow_dest_cong) simp_all
    with phase True enc same show ?thesis
      by (cases rule: flow_phase_cases) (auto simp: flow_phase_def flow_place_def)
  next
    case False
    with phase have idle: "flow_phase_of STATE_NONE STATE_NONE f fly" "pri_state (enc_output (encoder f)) = STATE_NONE"
      "pri_state (bw_interface (ainput f)) = STATE_NONE"
      by (cases rule: flow_phase_cases; simp)+
    then show ?thesis
      using flow_calls_phase(1) [of num g r "map frame ps"] inv' eq(2) acts False by (simp add: g_def)
  qed
  with assms inv' sent(1) show ?thesis
    by (simp add: eq flow_held_def) (auto simp: g_def)
qed

lemma flow_init_held:
  assumes "PacketProtoFlow_Init mtu num alloc = Some f" "mtu \<le> UINT16_MAX" "0 < num"
    "4 * ChunkBuffer2_calc_blocks (2 + int mtu) num \<le> INT_MAX" "\<forall>n a. alloc n = Some a \<longrightarrow> int (length a) = 4 * n"
  shows "flow_held num f [] None" "input_mtu (pbuf (fbuffer f)) = 2 + int mtu"
proof -
  obtain b acts where b: "PacketBuffer_Init (2 + int mtu) num alloc = Some (b, acts)"
    and f: "f = flow_calls \<lparr>ainput = BufferWriter_Init mtu, encoder = PacketProtoEncoder_Init mtu,
      fbuffer = \<lparr>pbuf = b, rx = False, tx = False\<rparr>, fencoded = []\<rparr> (b, acts)"
    using assms(1) by (auto simp: PacketProtoFlow_Init_def PACKETPROTO_ENCLEN_def split: option.splits)
  have acts: "acts = [PB_recv (input_dest (pb_buf b))]" "input_mtu b = 2 + int mtu"
    using b by (auto simp: PacketBuffer_Init_def Let_def split: option.splits if_splits)
  have inv: "pb_inv num (pb_initial b) (map frame [])"
    using pb_initial_inv [OF b] assms(3-5) by simp
  have app: "pb_apply \<lparr>pbuf = b, rx = False, tx = False\<rparr> (b, acts) = pb_initial b"
    by (simp add: pb_apply_def acts pb_initial_def)
  have "flow_phase f None"
    unfolding f by (rule flow_calls_phase(1) [of num _ _ "[]"])
      (use inv app acts in \<open>simp_all add: pb_initial_def BufferWriter_Init_def PacketProtoEncoder_Init_def PacketRecvInterface_Init_def\<close>)
  then show "flow_held num f [] None" "input_mtu (pbuf (fbuffer f)) = 2 + int mtu"
    using inv app acts assms(2)
    by (simp_all add: flow_held_def f pb_initial_def) (simp add: BufferWriter_Init_def PacketRecvInterface_Init_def PacketRecvInterface_GetMTU_def)
qed

lemma flow_job_mtu [simp]:
  "input_mtu (pbuf (fbuffer (flow_job f))) = input_mtu (pbuf (fbuffer f))"
  by (auto simp: flow_job_def flow_writer_job_def flow_encoder_job_def Let_def pb_apply_def packetbuffer_input_handler_done_def
    split: list.split prod.split pri_call.split option.split enc_action.split)

lemma flow_settle_mtu [simp]: "input_mtu (pbuf (fbuffer (flow_settle f))) = input_mtu (pbuf (fbuffer f))"
  by (simp add: flow_settle_def)

text \<open>The same for the operations that let the jobs run.\<close>

lemma flow_initial_inv:
  assumes "PacketProtoFlow_Init mtu num alloc = Some f" "mtu \<le> UINT16_MAX" "0 < num"
    "4 * ChunkBuffer2_calc_blocks (2 + int mtu) num \<le> INT_MAX" "\<forall>n a. alloc n = Some a \<longrightarrow> int (length a) = 4 * n"
  shows "flow_inv num (flow_settle f) []" "input_mtu (pbuf (fbuffer (flow_settle f))) = 2 + int mtu"
  using flow_settle_held [OF flow_init_held(1) [OF assms]] flow_init_held(2) [OF assms]
  by (simp_all add: flow_inv_settled flow_packets_def)

lemma flow_write_inv:
  assumes "flow_inv num f ps" "int (PACKETPROTO_ENCLEN (length payload)) \<le> input_mtu (pbuf (fbuffer f))"
    "PacketProtoFlow_write f payload = Some f'"
  shows "flow_inv num f' (ps @ [payload])" "input_mtu (pbuf (fbuffer f')) = input_mtu (pbuf (fbuffer f))"
proof -
  obtain place where place: "BufferWriter_StartPacket (ainput f) = Some place" "f' = flow_settle (PacketProtoFlow_put f payload)"
    using assms(3) by (auto simp: PacketProtoFlow_write_def split: option.splits)
  have held: "flow_held num f ps None"
    using assms(1) by (simp add: flow_inv_settled)
  then have "length payload \<le> PacketRecvInterface_GetMTU (bw_interface (ainput f))"
    using assms(2) by (simp add: flow_held_def PACKETPROTO_ENCLEN_def)
  from flow_settle_held [OF flow_put_held(2) [OF held place(1) this]] show "flow_inv num f' (ps @ [payload])"
    by (simp add: flow_inv_settled place(2) flow_packets_def)
  show "input_mtu (pbuf (fbuffer f')) = input_mtu (pbuf (fbuffer f))"
    by (simp add: place(2) PacketProtoFlow_put_def)
qed

lemma flow_sent_inv:
  assumes "flow_inv num f (p # ps)"
  shows "flow_inv num (PacketProtoFlow_sent f) ps"
  using flow_settle_held [OF flow_done_held, of num f p ps None] assms
  by (simp add: flow_inv_settled PacketProtoFlow_sent_def flow_packets_def)

lemma flow_sent_mtu [simp]: "input_mtu (pbuf (fbuffer (PacketProtoFlow_sent f))) = input_mtu (pbuf (fbuffer f))"
  by (simp add: PacketProtoFlow_sent_def PacketProtoFlow_output_done_def pb_apply_def packetbuffer_output_handler_done_def Let_def)

lemma flow_run_inv:
  assumes "flow_run f0 ws outs f" "flow_held num f0 [] None"
  shows "\<exists>ps fly qs. flow_held num f ps fly \<and> ws = qs @ flow_packets ps fly \<and> outs = map frame qs"
  using assms
proof (induction rule: flow_run.induct)
  case flow_start
  then show ?case
    by (intro exI [of _ "[]"] exI [of _ None]) (simp add: flow_packets_def)
next
  case (flow_write ws outs f place payload)
  then obtain ps fly qs where inv: "flow_held num f ps fly" "ws = qs @ flow_packets ps fly" "outs = map frame qs"
    by blast
  note put = flow_put_held [OF inv(1) flow_write.hyps(2,3)]
  then have "ws @ [payload] = qs @ flow_packets ps (Some payload)"
    using inv(2) by (simp add: flow_packets_def)
  with put(2) inv(3) show ?case
    by blast
next
  case (flow_next ws outs f)
  then show ?case
    using flow_job_held by metis
next
  case (flow_sent ws outs f p)
  then obtain ps fly qs where inv: "flow_held num f ps fly" "ws = qs @ flow_packets ps fly" "outs = map frame qs"
    by blast
  then have "cb_holds (pb_buf (pbuf (fbuffer f))) (map frame ps)"
    by (simp add: flow_held_def pb_inv_def Let_def)
  then obtain r where "map frame ps = p # r"
    using flow_sent.hyps(3) ChunkBuffer2.out_Some [of "pb_buf (pbuf (fbuffer f))" "map frame ps" p] by auto
  then obtain q ps' where "ps = q # ps'" "p = frame q"
    by auto
  then have "flow_held num (PacketProtoFlow_output_done f) ps' fly" "ws = (qs @ [q]) @ flow_packets ps' fly" "outs @ [p] = map frame (qs @ [q])"
    using inv flow_done_held by (auto simp: flow_packets_def)
  then show ?case
    by blast
qed

text \<open>C12. For a buffer whose bytes can be counted in an \<open>int\<close>, whatever the order in which the caller, the jobs of the flow
  and its output act, the output gets the frames of the packets written, in the order of writing.  A caller is refused a place only while a job of the
  flow is pending, as right after the flow was initialized or a packet ended, or when at least the requested
  number of packets wait in the buffer; and four jobs at most are made before none is pending.\<close>

theorem PacketProtoFlow_frames:
  assumes "PacketProtoFlow_Init mtu num alloc = Some f0" "mtu \<le> UINT16_MAX" "0 < num"
    "4 * ChunkBuffer2_calc_blocks (2 + int mtu) num \<le> INT_MAX" "\<forall>n a. alloc n = Some a \<longrightarrow> int (length a) = 4 * n"
    "flow_run f0 ws outs f"
  shows "\<exists>ps qs. ws = qs @ ps \<and> outs = map frame qs \<and>
    (BufferWriter_StartPacket (ainput f) = None \<longrightarrow> flow_busy f \<or> tx (fbuffer f) \<and> num \<le> int (length ps)) \<and>
    \<not> flow_busy (flow_job (flow_job (flow_job (flow_job f))))"
proof -
  obtain ps fly qs where inv: "flow_held num f ps fly" "ws = qs @ flow_packets ps fly" "outs = map frame qs"
    using flow_run_inv [OF assms(6) flow_init_held(1) [OF assms(1-5)]] by blast
  have pb: "pb_inv num (fbuffer f) (map frame ps)" and phase: "flow_phase f fly"
    using inv(1) by (simp_all add: flow_held_def)
  have tx: "tx (fbuffer f) \<longleftrightarrow> ps \<noteq> []"
    using pb by (simp add: pb_inv_def Let_def)
  have full: "num \<le> int (length ps)" if "\<not> rx (fbuffer f)"
    using pb_capacity [OF pb] that by fastforce
  have "out_have (ainput f) \<or> flow_busy f \<or> \<not> rx (fbuffer f)"
    using phase by (cases rule: flow_phase_cases) (auto simp: flow_busy_def)
  with full tx assms(3) have "BufferWriter_StartPacket (ainput f) = None \<longrightarrow> flow_busy f \<or> tx (fbuffer f) \<and> num \<le> int (length (flow_packets ps fly))"
    by (auto simp: BufferWriter_StartPacket_def flow_packets_def)
  with inv(2,3) flow_settle_held(2) [OF inv(1)] show ?thesis
    by (intro exI [of _ "flow_packets ps fly"] exI [of _ qs]) (simp add: flow_settle_def)
qed

lemma calc_blocks_small: "ChunkBuffer2_calc_blocks 6 1 = 6"
  by (simp add: ChunkBuffer2_calc_blocks_def bdivide_up_def)

theorem PacketProtoFlow_frames_witness:
  "\<exists>f. PacketProtoFlow_Init 4 1 (\<lambda>n. if n < 0 then None else Some (replicate (nat (4 * n)) 0)) = Some f \<and>
     BufferWriter_StartPacket (ainput f) = None \<and> flow_busy f"
proof -
  obtain f where init: "PacketProtoFlow_Init 4 1 (\<lambda>n. if n < 0 then None else Some (replicate (nat (4 * n)) 0)) = Some f"
    by (simp add: PacketProtoFlow_Init_def PACKETPROTO_ENCLEN_def PacketBuffer_Init_def calc_blocks_small Let_def)
  then have "BufferWriter_StartPacket (ainput f) = None"
    by (auto simp: PacketProtoFlow_Init_def BufferWriter_StartPacket_def BufferWriter_Init_def split: option.splits)
  moreover from PacketProtoFlow_frames [OF init _ _ _ _ flow_start] this have "flow_busy f"
    by (auto simp: calc_blocks_small split: if_splits)
  ultimately show ?thesis
    using init by blast
qed

end
