(* ===== verification/FairQueue.thy ===== *)
theory FairQueue
  imports Bavl
begin

text \<open>
  The fair queue of \<open>flow/PacketPassFairQueue.c\<close>: flows take turns on one output, the flow with the
  least virtual time first, and a sent packet costs its flow the packet's length and a weight.
  Virtual times are \<open>uint64_t\<close> and are kept at that width.

  A flow is named by its address; \<open>flows\<close> is what the flow structures in memory hold.  The queue of
  flows is the tree \<open>structure/SAvl_impl.h\<close> gives for \<open>PacketPassFairQueue_tree.h\<close>, a wrapper of
  \<open>structure/CAvl_impl.h\<close>, whose statements are those of \<open>BAVL.h\<close> with the comparison on the entries
  themselves; the comparison reads the times from memory.  The list of all flows is the list that
  the \<open>LinkedList1\<close> holds.  Each handler returns the new state and the calls it makes.
\<close>

section \<open>Trees of entries\<close>

definition CAvl_Init :: "'e bavl" where
  "CAvl_Init = BAVL_Init"

definition CAvl_Insert :: "('e \<Rightarrow> 'e \<Rightarrow> int) \<Rightarrow> 'e bavl \<Rightarrow> 'e \<Rightarrow> 'e bavl \<times> 'e option \<times> bool" where
  "CAvl_Insert compare_entries t node = BAVL_Insert compare_entries id t node"

definition CAvl_Remove :: "'e bavl \<Rightarrow> 'e \<Rightarrow> 'e bavl" where
  "CAvl_Remove t node = (case BAVL_entry node t [] of None \<Rightarrow> t | Some ref \<Rightarrow> BAVL_Remove ref)"

definition CAvl_GetFirst :: "'e bavl \<Rightarrow> 'e option" where
  "CAvl_GetFirst t = BAVL_GetFirst t"

definition CAvl_IsEmpty :: "'e bavl \<Rightarrow> bool" where
  "CAvl_IsEmpty t = (t = Null)"

definition SAvl_Init :: "'e bavl" where
  "SAvl_Init = CAvl_Init"

definition SAvl_Insert :: "('e \<Rightarrow> 'e \<Rightarrow> int) \<Rightarrow> 'e bavl \<Rightarrow> 'e \<Rightarrow> 'e bavl \<times> 'e option \<times> bool" where
  "SAvl_Insert compare_entries t entry = CAvl_Insert compare_entries t entry"

definition SAvl_Remove :: "'e bavl \<Rightarrow> 'e \<Rightarrow> 'e bavl" where
  "SAvl_Remove t entry = CAvl_Remove t entry"

definition SAvl_GetFirst :: "'e bavl \<Rightarrow> 'e option" where
  "SAvl_GetFirst t = CAvl_GetFirst t"

definition SAvl_IsEmpty :: "'e bavl \<Rightarrow> bool" where
  "SAvl_IsEmpty t = CAvl_IsEmpty t"

lemmas savl_defs = SAvl_Init_def SAvl_Insert_def SAvl_Remove_def SAvl_GetFirst_def SAvl_IsEmpty_def
  CAvl_Init_def CAvl_Insert_def CAvl_Remove_def CAvl_GetFirst_def CAvl_IsEmpty_def

section \<open>The queue\<close>

type_synonym flow = nat

record fq_flow =
  vtime :: u64
  is_queued :: bool
  queued_data :: bytes
  handler_busy :: "nat option"

record PacketPassFairQueue =
  fq_mtu :: nat
  use_cancel :: bool
  packet_weight :: nat
  sending_flow :: "flow option"
  sending_len :: nat
  previous_flow :: "flow option"
  queued_tree :: "flow bavl"
  flows_list :: "flow list"
  freeing :: bool
  schedule_job :: bool
  flows :: "flow \<Rightarrow> fq_flow"

datatype fq_action = FQ_send bytes | FQ_done flow | FQ_busy nat | FQ_requestcancel

abbreviation FAIRQUEUE_MAX_TIME :: u64 where
  "FAIRQUEUE_MAX_TIME \<equiv> - 1"

definition set_flow :: "flow \<Rightarrow> (fq_flow \<Rightarrow> fq_flow) \<Rightarrow> PacketPassFairQueue \<Rightarrow> PacketPassFairQueue" where
  "set_flow f upd m = m\<lparr>flows := (flows m)(f := upd (flows m f))\<rparr>"

definition compare_flows :: "(flow \<Rightarrow> fq_flow) \<Rightarrow> flow \<Rightarrow> flow \<Rightarrow> int" where
  "compare_flows fs f1 f2 =
     (let cmp = B_COMPARE (vtime (fs f1)) (vtime (fs f2)) in
      if cmp \<noteq> 0 then cmp else B_COMPARE f1 f2)"

definition get_current_time :: "PacketPassFairQueue \<Rightarrow> u64" where
  "get_current_time m =
     (case sending_flow m of
        Some f \<Rightarrow> vtime (flows m f)
      | None \<Rightarrow>
          (let (time, have1) = (case SAvl_GetFirst (queued_tree m) of
                 None \<Rightarrow> (0, False)
               | Some first_flow \<Rightarrow> (vtime (flows m first_flow), True));
               (time, have2) = (case previous_flow m of
                 None \<Rightarrow> (time, have1)
               | Some p \<Rightarrow> if \<not> have1 \<or> vtime (flows m p) < time then (vtime (flows m p), True) else (time, have1))
           in if have2 then time else 0))"

text \<open>The loop over all flows that takes the same time from each.\<close>

fun subtract_times :: "u64 \<Rightarrow> flow \<Rightarrow> flow list \<Rightarrow> (flow \<Rightarrow> fq_flow) \<Rightarrow> (flow \<Rightarrow> fq_flow)" where
  "subtract_times subtract flow [] fs = fs"
| "subtract_times subtract flow (someflow # rest) fs =
     subtract_times subtract flow rest
       (fs(someflow := (fs someflow)\<lparr>vtime :=
          (if subtract > vtime (fs someflow) \<and> someflow \<noteq> flow then 0 else vtime (fs someflow) - subtract)\<rparr>))"

definition increment_sent_flow :: "PacketPassFairQueue \<Rightarrow> flow \<Rightarrow> u64 \<Rightarrow> PacketPassFairQueue" where
  "increment_sent_flow m flow amount =
     (let m1 =
        (if amount > FAIRQUEUE_MAX_TIME - vtime (flows m flow) then
           (let subtract = (case SAvl_GetFirst (queued_tree m) of
                  None \<Rightarrow> vtime (flows m flow)
                | Some first_flow \<Rightarrow> vtime (flows m first_flow))
            in m\<lparr>flows := subtract_times subtract flow (flows_list m) (flows m)\<rparr>)
         else m)
      in set_flow flow (\<lambda>f. f\<lparr>vtime := vtime f + amount\<rparr>) m1)"

text \<open>On an empty tree, which an assertion excludes, there is no flow to schedule.\<close>

definition schedule :: "PacketPassFairQueue \<Rightarrow> PacketPassFairQueue \<times> fq_action list" where
  "schedule m =
     (case SAvl_GetFirst (queued_tree m) of
        None \<Rightarrow> (m, [])
      | Some qflow \<Rightarrow>
          (let m1 = set_flow qflow (\<lambda>f. f\<lparr>is_queued := False\<rparr>) (m\<lparr>queued_tree := SAvl_Remove (queued_tree m) qflow\<rparr>);
               data = queued_data (flows m qflow)
           in (m1\<lparr>sending_flow := Some qflow, sending_len := length data\<rparr>, [FQ_send data])))"

text \<open>Executing the job has taken it out of the pending jobs.\<close>

definition schedule_job_handler :: "PacketPassFairQueue \<Rightarrow> PacketPassFairQueue \<times> fq_action list" where
  "schedule_job_handler m =
     (let m1 = m\<lparr>schedule_job := False, previous_flow := None\<rparr>
      in if \<not> SAvl_IsEmpty (queued_tree m1) then schedule m1 else (m1, []))"

definition fq_input_handler_send ::
  "PacketPassFairQueue \<Rightarrow> flow \<Rightarrow> bytes \<Rightarrow> PacketPassFairQueue \<times> fq_action list" where
  "fq_input_handler_send m flow data =
     (let m1 = (if previous_flow m = Some flow then m\<lparr>previous_flow := None\<rparr>
                else set_flow flow (\<lambda>f. f\<lparr>vtime := max (vtime f) (get_current_time m)\<rparr>) m);
          m2 = set_flow flow (\<lambda>f. f\<lparr>queued_data := data\<rparr>) m1;
          m3 = m2\<lparr>queued_tree := fst (SAvl_Insert (compare_flows (flows m2)) (queued_tree m2) flow)\<rparr>;
          m4 = set_flow flow (\<lambda>f. f\<lparr>is_queued := True\<rparr>) m3
      in if sending_flow m4 = None \<and> \<not> schedule_job m4 then schedule m4 else (m4, []))"

definition fq_output_handler_done :: "PacketPassFairQueue \<Rightarrow> PacketPassFairQueue \<times> fq_action list" where
  "fq_output_handler_done m =
     (case sending_flow m of
        None \<Rightarrow> (m, [])
      | Some flow \<Rightarrow>
          (let m1 = m\<lparr>sending_flow := None, previous_flow := Some flow\<rparr>;
               m2 = increment_sent_flow m1 flow (of_nat (packet_weight m1) + of_nat (sending_len m1));
               m3 = m2\<lparr>schedule_job := True\<rparr>
           in (case handler_busy (flows m3 flow) of
                 None \<Rightarrow> (m3, [FQ_done flow])
               | Some user \<Rightarrow> (set_flow flow (\<lambda>f. f\<lparr>handler_busy := None\<rparr>) m3, [FQ_done flow, FQ_busy user]))))"

definition PacketPassFairQueue_Init :: "nat \<Rightarrow> bool \<Rightarrow> nat \<Rightarrow> (flow \<Rightarrow> fq_flow) \<Rightarrow> PacketPassFairQueue option" where
  "PacketPassFairQueue_Init mtu cancel weight memory =
     (if \<not> (mtu \<le> unat FAIRQUEUE_MAX_TIME \<and> weight \<le> unat FAIRQUEUE_MAX_TIME - mtu) then None
      else Some \<lparr>fq_mtu = mtu, use_cancel = cancel, packet_weight = weight, sending_flow = None, sending_len = 0,
        previous_flow = None, queued_tree = SAvl_Init, flows_list = [], freeing = False, schedule_job = False,
        flows = memory\<rparr>)"

definition PacketPassFairQueue_Free :: "PacketPassFairQueue \<Rightarrow> PacketPassFairQueue" where
  "PacketPassFairQueue_Free m = m\<lparr>schedule_job := False\<rparr>"

definition PacketPassFairQueue_PrepareFree :: "PacketPassFairQueue \<Rightarrow> PacketPassFairQueue" where
  "PacketPassFairQueue_PrepareFree m = m\<lparr>freeing := True\<rparr>"

definition PacketPassFairQueue_GetMTU :: "PacketPassFairQueue \<Rightarrow> nat" where
  "PacketPassFairQueue_GetMTU m = fq_mtu m"

definition PacketPassFairQueueFlow_Init :: "flow \<Rightarrow> PacketPassFairQueue \<Rightarrow> PacketPassFairQueue" where
  "PacketPassFairQueueFlow_Init flow m =
     (set_flow flow (\<lambda>f. f\<lparr>handler_busy := None, vtime := 0, is_queued := False\<rparr>) m)\<lparr>flows_list := flows_list m @ [flow]\<rparr>"

definition PacketPassFairQueueFlow_Free :: "flow \<Rightarrow> PacketPassFairQueue \<Rightarrow> PacketPassFairQueue" where
  "PacketPassFairQueueFlow_Free flow m =
     (let m1 = (if sending_flow m = Some flow then m\<lparr>sending_flow := None\<rparr> else m);
          m2 = (if previous_flow m1 = Some flow then m1\<lparr>previous_flow := None\<rparr> else m1);
          m3 = (if is_queued (flows m2 flow) then m2\<lparr>queued_tree := SAvl_Remove (queued_tree m2) flow\<rparr> else m2)
      in m3\<lparr>flows_list := remove1 flow (flows_list m3)\<rparr>)"

definition PacketPassFairQueueFlow_IsBusy :: "flow \<Rightarrow> PacketPassFairQueue \<Rightarrow> bool" where
  "PacketPassFairQueueFlow_IsBusy flow m \<longleftrightarrow> sending_flow m = Some flow"

definition PacketPassFairQueueFlow_RequestCancel :: "flow \<Rightarrow> PacketPassFairQueue \<Rightarrow> fq_action list" where
  "PacketPassFairQueueFlow_RequestCancel flow m = [FQ_requestcancel]"

definition PacketPassFairQueueFlow_SetBusyHandler :: "flow \<Rightarrow> nat \<Rightarrow> PacketPassFairQueue \<Rightarrow> PacketPassFairQueue" where
  "PacketPassFairQueueFlow_SetBusyHandler flow user m = set_flow flow (\<lambda>f. f\<lparr>handler_busy := Some user\<rparr>) m"

section \<open>The tree as the set of queued flows\<close>

lemma set_flow_fields [simp]:
  "fq_mtu (set_flow f u m) = fq_mtu m" "use_cancel (set_flow f u m) = use_cancel m" "packet_weight (set_flow f u m) = packet_weight m" "sending_flow (set_flow f u m) = sending_flow m" "sending_len (set_flow f u m) = sending_len m"
  "previous_flow (set_flow f u m) = previous_flow m" "queued_tree (set_flow f u m) = queued_tree m" "flows_list (set_flow f u m) = flows_list m" "freeing (set_flow f u m) = freeing m" "schedule_job (set_flow f u m) = schedule_job m"
  by (simp_all add: set_flow_def)

lemma set_flow_flows [simp]: "flows (set_flow f u m) = (flows m)(f := u (flows m f))"
  by (simp add: set_flow_def)

lemma increment_fields [simp]:
  "fq_mtu (increment_sent_flow m f amount) = fq_mtu m" "use_cancel (increment_sent_flow m f amount) = use_cancel m" "packet_weight (increment_sent_flow m f amount) = packet_weight m" "sending_flow (increment_sent_flow m f amount) = sending_flow m" "sending_len (increment_sent_flow m f amount) = sending_len m"
  "previous_flow (increment_sent_flow m f amount) = previous_flow m" "queued_tree (increment_sent_flow m f amount) = queued_tree m" "flows_list (increment_sent_flow m f amount) = flows_list m" "freeing (increment_sent_flow m f amount) = freeing m" "schedule_job (increment_sent_flow m f amount) = schedule_job m"
  by (simp_all add: increment_sent_flow_def Let_def)

lemma compare_flows_less:
  "compare_flows fs f g < 0 \<longleftrightarrow> vtime (fs f) < vtime (fs g) \<or> vtime (fs f) = vtime (fs g) \<and> f < g"
  by (auto simp: compare_flows_def B_COMPARE_def Let_def)

lemma compare_flows_zero: "compare_flows fs f g = 0 \<longleftrightarrow> f = g"
  by (auto simp: compare_flows_def B_COMPARE_simps Let_def)

interpretation flow_order: comparator "compare_flows fs" "\<lambda>_. True" for fs
proof unfold_locales
  show "compare_flows fs a b \<in> {- 1, 0, 1}" "compare_flows fs b a = - compare_flows fs a b" for a b
    by (auto simp: compare_flows_def B_COMPARE_def Let_def)
qed (auto simp: compare_flows_zero compare_flows_less)

interpretation flow_tree: bavl_keyed "compare_flows fs" "\<lambda>_. True" id for fs
  by unfold_locales

abbreviation flow_inv :: "(flow \<Rightarrow> fq_flow) \<Rightarrow> flow bavl \<Rightarrow> bool" where
  "flow_inv fs t \<equiv> bavl_inv (compare_flows fs) (\<lambda>_. True) id t"

lemma flow_inv_cong:
  assumes "flow_inv fs t" "\<And>f g. f \<in> elems t \<Longrightarrow> g \<in> elems t \<Longrightarrow> compare_flows fs f g < 0 \<Longrightarrow> compare_flows fs' f g < 0"
  shows "flow_inv fs' t"
proof -
  have "sorted_wrt (\<lambda>f g. compare_flows fs' f g < 0) (inorder t)"
    by (rule sorted_wrt_mono_rel [where P = "\<lambda>f g. compare_flows fs f g < 0"])
      (use assms in \<open>auto simp: bavl_inv_def ordered_def elems_def\<close>)
  with assms(1) show ?thesis
    by (simp add: bavl_inv_def ordered_def)
qed

lemma flow_inv_times:
  assumes "flow_inv fs t" "\<And>f. f \<in> elems t \<Longrightarrow> vtime (fs' f) = vtime (fs f)"
  shows "flow_inv fs' t"
  by (rule flow_inv_cong [OF assms(1)]) (simp add: assms(2) compare_flows_less)

lemma SAvl_Remove_inv:
  assumes "flow_inv fs t" "x \<in> elems t"
  shows "flow_inv fs (SAvl_Remove t x)" "elems (SAvl_Remove t x) = elems t - {x}"
proof -
  obtain ref where "BAVL_entry x t [] = Some ref" "flow_inv fs (BAVL_Remove ref)" "elems (BAVL_Remove ref) = elems t - {x}"
    using flow_tree.remove_entry [OF assms] by blast
  then show "flow_inv fs (SAvl_Remove t x)" "elems (SAvl_Remove t x) = elems t - {x}"
    by (simp_all add: savl_defs)
qed

lemma SAvl_Insert_inv:
  assumes "flow_inv fs t" "x \<notin> elems t"
  shows "flow_inv fs (fst (SAvl_Insert (compare_flows fs) t x))"
    "elems (fst (SAvl_Insert (compare_flows fs) t x)) = insert x (elems t)"
proof -
  obtain t' r where "BAVL_Insert (compare_flows fs) id t x = (t', r, True)" "flow_inv fs t'" "elems t' = insert x (elems t)"
    using flow_tree.insert_new [OF assms(1), of x] assms(2) by (simp only: image_id id_apply) blast
  then show "flow_inv fs (fst (SAvl_Insert (compare_flows fs) t x))"
    "elems (fst (SAvl_Insert (compare_flows fs) t x)) = insert x (elems t)"
    by (simp_all add: savl_defs)
qed

lemma SAvl_GetFirst_None: "SAvl_GetFirst t = None \<longleftrightarrow> t = Null"
  by (simp add: savl_defs BAVL_GetFirst_hd)

lemma elems_empty [simp]: "elems t = {} \<longleftrightarrow> t = Null"
  by (simp add: elems_def)

lemma SAvl_GetFirst_least:
  assumes "flow_inv fs t" "SAvl_GetFirst t = Some f"
  shows "f \<in> elems t" "\<And>g. g \<in> elems t \<Longrightarrow> vtime (fs f) \<le> vtime (fs g)"
proof -
  obtain xs where xs: "inorder t = f # xs"
    using assms(2) by (cases "inorder t") (auto simp: savl_defs BAVL_GetFirst_hd split: if_splits)
  then show "f \<in> elems t"
    by (simp add: elems_def)
  show "vtime (fs f) \<le> vtime (fs g)" if "g \<in> elems t" for g
    using assms(1) that by (auto simp: bavl_inv_def ordered_def elems_def xs compare_flows_less)
qed

section \<open>The queue in use\<close>

datatype fq_event = Ev_flow_init flow | Ev_flow_free flow | Ev_send flow bytes | Ev_sent | Ev_schedule
  | Ev_busy_handler flow nat | Ev_prepare_free

text \<open>What the users of the queue may do at which moment: their side of the assertions.  A flow's
  interface does not pass a packet on before the last one is done.\<close>

inductive fq_step :: "PacketPassFairQueue \<Rightarrow> fq_event \<Rightarrow> PacketPassFairQueue \<Rightarrow> bool" where
  fq_flow_init: "f \<notin> set (flows_list m) \<Longrightarrow> \<not> freeing m \<Longrightarrow>
    fq_step m (Ev_flow_init f) (PacketPassFairQueueFlow_Init f m)"
| fq_flow_free: "f \<in> set (flows_list m) \<Longrightarrow> freeing m \<or> sending_flow m \<noteq> Some f \<Longrightarrow>
    fq_step m (Ev_flow_free f) (PacketPassFairQueueFlow_Free f m)"
| fq_send: "f \<in> set (flows_list m) \<Longrightarrow> \<not> freeing m \<Longrightarrow> sending_flow m \<noteq> Some f \<Longrightarrow> \<not> is_queued (flows m f) \<Longrightarrow>
    length data \<le> fq_mtu m \<Longrightarrow> fq_step m (Ev_send f data) (fst (fq_input_handler_send m f data))"
| fq_sent: "sending_flow m \<noteq> None \<Longrightarrow> \<not> freeing m \<Longrightarrow> fq_step m Ev_sent (fst (fq_output_handler_done m))"
| fq_schedule: "schedule_job m \<Longrightarrow> \<not> freeing m \<Longrightarrow> fq_step m Ev_schedule (fst (schedule_job_handler m))"
| fq_busy_handler: "sending_flow m = Some f \<Longrightarrow> \<not> freeing m \<Longrightarrow>
    fq_step m (Ev_busy_handler f user) (PacketPassFairQueueFlow_SetBusyHandler f user m)"
| fq_prepare_free: "fq_step m Ev_prepare_free (PacketPassFairQueue_PrepareFree m)"

inductive fq_run :: "PacketPassFairQueue \<Rightarrow> PacketPassFairQueue \<Rightarrow> bool" for m0 where
  fq_start: "fq_run m0 m0"
| fq_next: "fq_run m0 m \<Longrightarrow> fq_step m e m' \<Longrightarrow> fq_run m0 m'"

text \<open>The flows that are queued; the tree holds them in the order of their times, and none of them is
  behind the flow whose packet is being sent.\<close>

definition queued :: "PacketPassFairQueue \<Rightarrow> flow set" where
  "queued m = {f \<in> set (flows_list m). is_queued (flows m f)}"

definition fq_tree :: "PacketPassFairQueue \<Rightarrow> bool" where
  "fq_tree m = (distinct (flows_list m) \<and> flow_inv (flows m) (queued_tree m) \<and> elems (queued_tree m) = queued m)"

definition fq_turn :: "PacketPassFairQueue \<Rightarrow> bool" where
  "fq_turn m =
     ((\<forall>f. sending_flow m = Some f \<longrightarrow> f \<in> set (flows_list m) \<and> \<not> is_queued (flows m f) \<and> \<not> schedule_job m \<and>
         sending_len m \<le> fq_mtu m \<and> (\<forall>g\<in>queued m. vtime (flows m f) \<le> vtime (flows m g))) \<and>
      (\<forall>f. previous_flow m = Some f \<longrightarrow> f \<in> set (flows_list m) \<and> \<not> is_queued (flows m f) \<and> schedule_job m) \<and>
      (sending_flow m = None \<and> \<not> schedule_job m \<and> \<not> freeing m \<longrightarrow> queued m = {}))"

definition fq_fits :: "PacketPassFairQueue \<Rightarrow> bool" where
  "fq_fits m = (packet_weight m + fq_mtu m < 2 ^ 64 \<and> (\<forall>f\<in>queued m. length (queued_data (flows m f)) \<le> fq_mtu m))"

definition fq_inv :: "PacketPassFairQueue \<Rightarrow> bool" where
  "fq_inv m = (fq_tree m \<and> fq_turn m \<and> fq_fits m)"

lemmas fq_inv_defs = fq_inv_def fq_tree_def fq_turn_def fq_fits_def

text \<open>Taking the first flow out of the queue and sending its packet.\<close>

lemma schedule_inv:
  assumes "fq_tree m" "fq_fits m" "sending_flow m = None" "previous_flow m = None" "\<not> schedule_job m" "queued m \<noteq> {}"
    "schedule m = (m', acts)"
  shows "fq_inv m'" "\<exists>f. sending_flow m' = Some f \<and> f \<in> queued m"
proof -
  have t: "flow_inv (flows m) (queued_tree m)" "elems (queued_tree m) = queued m" "distinct (flows_list m)"
    using assms(1) by (simp_all add: fq_tree_def)
  then obtain q where q: "SAvl_GetFirst (queued_tree m) = Some q"
    using assms(6) SAvl_GetFirst_None [of "queued_tree m"] by (metis elems_empty not_None_eq)
  note least = SAvl_GetFirst_least [OF t(1) q]
  note rem = SAvl_Remove_inv [OF t(1) least(1)]
  have m': "m' = m\<lparr>queued_tree := SAvl_Remove (queued_tree m) q, flows := (flows m)(q := (flows m q)\<lparr>is_queued := False\<rparr>),
      sending_flow := Some q, sending_len := length (queued_data (flows m q))\<rparr>"
    using assms(7) q by (simp add: schedule_def set_flow_def Let_def)
  have queued': "queued m' = queued m - {q}"
    by (auto simp: m' queued_def)
  have "flow_inv (flows m') (SAvl_Remove (queued_tree m) q)"
    by (rule flow_inv_times [OF rem(1)]) (simp add: m')
  then have "fq_tree m'"
    using rem(2) t queued' by (simp add: fq_tree_def m')
  moreover have "q \<in> queued m"
    using least(1) t(2) by simp
  moreover from this have "fq_turn m'"
    using least(2) t(2) assms queued' by (auto simp: fq_turn_def m' fq_fits_def queued_def)
  moreover have "fq_fits m'"
    using assms(2) queued' by (auto simp: fq_fits_def m')
  ultimately show "fq_inv m'" "\<exists>f. sending_flow m' = Some f \<and> f \<in> queued m"
    by (auto simp: fq_inv_def m')
qed

text \<open>When the sum would overflow, all queued flows lose the time of the first of them, and the flow
  that sent gets there through an underflow and an overflow: seen as numbers, all of them lose
  the same, and nobody is changed relative to the others.\<close>

lemma subtract_times_eq:
  "distinct xs \<Longrightarrow> subtract_times s f xs fs y =
    (if y \<in> set xs then (fs y)\<lparr>vtime := (if s > vtime (fs y) \<and> y \<noteq> f then 0 else vtime (fs y) - s)\<rparr> else fs y)"
proof (induction xs arbitrary: fs)
  case (Cons x xs)
  define fs' where "fs' = fs(x := (fs x)\<lparr>vtime := (if s > vtime (fs x) \<and> x \<noteq> f then 0 else vtime (fs x) - s)\<rparr>)"
  have "subtract_times s f (x # xs) fs y = subtract_times s f xs fs' y"
    by (simp add: fs'_def)
  also have "\<dots> = (if y \<in> set xs then (fs' y)\<lparr>vtime := (if s > vtime (fs' y) \<and> y \<noteq> f then 0 else vtime (fs' y) - s)\<rparr> else fs' y)"
    by (rule Cons.IH) (use Cons.prems in simp)
  finally have eq: "subtract_times s f (x # xs) fs y = \<dots>" .
  have "x \<notin> set xs"
    using Cons.prems by simp
  then show ?case
    unfolding eq by (cases "y = x") (simp_all add: fs'_def cong: if_cong)
qed simp

lemma uint_of_nat_less: "n < 2 ^ 64 \<Longrightarrow> uint (of_nat n :: u64) = int n"
  by (simp add: unsigned_of_nat take_bit_nat_eq_self)

lemma uint_max_time: "uint (FAIRQUEUE_MAX_TIME - t) = 2 ^ 64 - 1 - uint t"
proof -
  have "uint (FAIRQUEUE_MAX_TIME - t) = (2 ^ 64 - 1 - uint t) mod 2 ^ 64"
    by (simp add: uint_word_ariths(2) unsigned_minus_1_eq_mask mask_eq_exp_minus_1)
  moreover have "0 \<le> uint t" "uint t < 2 ^ 64"
    using uint_bounded [of t] by simp_all
  then have "(2 ^ 64 - 1 - uint t) mod 2 ^ 64 = 2 ^ 64 - 1 - uint t"
    by (intro mod_pos_pos_trivial) linarith+
  ultimately show ?thesis
    by simp
qed

lemma increment_exact:
  assumes "distinct (flows_list m)" "f \<in> set (flows_list m)" "n < 2 ^ 64"
    "flow_inv (flows m) (queued_tree m)" "elems (queued_tree m) = queued m"
    "\<forall>g\<in>queued m. vtime (flows m f) \<le> vtime (flows m g)" "m' = increment_sent_flow m f (of_nat n)"
  shows "\<exists>s \<ge> 0. uint (vtime (flows m' f)) = uint (vtime (flows m f)) + int n - s \<and>
    (\<forall>g\<in>queued m. g \<noteq> f \<longrightarrow> uint (vtime (flows m' g)) = uint (vtime (flows m g)) - s) \<and>
    (\<forall>g\<in>set (flows_list m). g \<noteq> f \<longrightarrow> uint (vtime (flows m' g)) = max 0 (uint (vtime (flows m g)) - s))"
proof -
  let ?t = "\<lambda>g. vtime (flows m g)"
  have q: "queued m \<subseteq> set (flows_list m)"
    by (auto simp: queued_def)
  have over: "of_nat n > FAIRQUEUE_MAX_TIME - ?t f \<longleftrightarrow> int n > 2 ^ 64 - 1 - uint (?t f)"
    using assms(3) by (simp add: word_less_def uint_max_time uint_of_nat_less)
  show ?thesis
  proof (cases "of_nat n > FAIRQUEUE_MAX_TIME - ?t f")
    case False
    then have "m' = set_flow f (\<lambda>g. g\<lparr>vtime := vtime g + of_nat n\<rparr>) m"
      by (simp add: assms(7) increment_sent_flow_def)
    moreover have "uint (?t f + of_nat n) = uint (?t f) + int n"
      using False over assms(3) by (simp add: uint_word_ariths uint_of_nat_less)
    ultimately show ?thesis
      by (intro exI [of _ 0]) (auto simp: set_flow_def)
  next
    case True
    define s where "s = (case SAvl_GetFirst (queued_tree m) of None \<Rightarrow> ?t f | Some g \<Rightarrow> ?t g)"
    have m': "m' = set_flow f (\<lambda>g. g\<lparr>vtime := vtime g + of_nat n\<rparr>)
        (m\<lparr>flows := subtract_times s f (flows_list m) (flows m)\<rparr>)"
      using True by (simp add: assms(7) increment_sent_flow_def s_def)
    have s: "?t f \<le> s" "\<And>g. g \<in> queued m \<Longrightarrow> s \<le> ?t g"
      using assms(4,5,6) SAvl_GetFirst_least [OF assms(4)] SAvl_GetFirst_None [of "queued_tree m"]
      by (auto simp: s_def split: option.splits)
    have "uint (?t f - s + of_nat n) = (uint (?t f) - uint s + int n) mod 2 ^ 64"
      using assms(3) by (simp add: uint_word_ariths uint_of_nat_less mod_simps)
    also have "\<dots> = uint (?t f) + int n - uint s"
      using True over s(1) assms(3) uint_lt2p [of s] by (simp add: word_le_def)
    finally have f: "uint (?t f - s + of_nat n) = uint (?t f) + int n - uint s" .
    have g: "uint (if s > ?t g then 0 else ?t g - s) = max 0 (uint (?t g) - uint s)" for g
      using uint_minus_simple_alt [of s "?t g"] by (auto simp: word_less_def word_le_def)
    show ?thesis
      using f g s(2) q assms(1,2)
      by (intro exI [of _ "uint s"]) (auto simp: m' set_flow_def subtract_times_eq word_le_def)
  qed
qed

section \<open>Every step keeps the queue in order\<close>

lemma increment_keeps [simp]:
  assumes "distinct (flows_list m)"
  shows "is_queued (flows (increment_sent_flow m f amount) g) = is_queued (flows m g)"
    "queued_data (flows (increment_sent_flow m f amount) g) = queued_data (flows m g)"
    "handler_busy (flows (increment_sent_flow m f amount) g) = handler_busy (flows m g)"
  using assms by (simp_all add: increment_sent_flow_def Let_def subtract_times_eq)

lemma enqueue_tree:
  assumes "fq_tree m" "f \<notin> queued m" "f \<in> set (flows_list m)"
    "F = (flows m)(f := (flows m f)\<lparr>vtime := t, queued_data := data\<rparr>)"
    "flows m' = F(f := (F f)\<lparr>is_queued := True\<rparr>)" "flows_list m' = flows_list m"
    "queued_tree m' = fst (SAvl_Insert (compare_flows F) (queued_tree m) f)"
  shows "fq_tree m'" "queued m' = insert f (queued m)"
proof -
  have t: "flow_inv (flows m) (queued_tree m)" "elems (queued_tree m) = queued m" "distinct (flows_list m)"
    using assms(1) by (simp_all add: fq_tree_def)
  have "flow_inv F (queued_tree m)"
    by (rule flow_inv_times [OF t(1)]) (use assms(2,4) t(2) in auto)
  note ins = SAvl_Insert_inv [OF this, of f]
  show q: "queued m' = insert f (queued m)"
    using assms(3,4) by (auto simp: queued_def assms(5,6))
  have "flow_inv (flows m') (queued_tree m')"
    unfolding assms(7) by (rule flow_inv_times [OF ins(1)]) (use assms(2,5) t(2) in auto)
  then show "fq_tree m'"
    using ins(2) assms(2) t(2,3) q by (simp add: fq_tree_def assms(6,7))
qed

lemma send_inv:
  assumes "fq_inv m" "f \<in> set (flows_list m)" "\<not> freeing m" "sending_flow m \<noteq> Some f" "\<not> is_queued (flows m f)"
    "length data \<le> fq_mtu m"
  shows "fq_inv (fst (fq_input_handler_send m f data))"
proof -
  define t where "t = (if previous_flow m = Some f then vtime (flows m f) else max (vtime (flows m f)) (get_current_time m))"
  define F where "F = (flows m)(f := (flows m f)\<lparr>vtime := t, queued_data := data\<rparr>)"
  define m4 where "m4 = m\<lparr>previous_flow := (if previous_flow m = Some f then None else previous_flow m),
    flows := F(f := (F f)\<lparr>is_queued := True\<rparr>),
    queued_tree := fst (SAvl_Insert (compare_flows F) (queued_tree m) f)\<rparr>"
  have eq: "fq_input_handler_send m f data = (if sending_flow m4 = None \<and> \<not> schedule_job m4 then schedule m4 else (m4, []))"
    by (cases m) (auto simp: fq_input_handler_send_def set_flow_def Let_def m4_def F_def t_def)
  have nq: "f \<notin> queued m"
    using assms(5) by (simp add: queued_def)
  have inv: "fq_tree m" "fq_turn m" "fq_fits m"
    using assms(1) by (simp_all add: fq_inv_def)
  note tree = enqueue_tree [OF inv(1) nq assms(2) F_def, of m4, simplified m4_def, simplified, folded m4_def]
  have data: "queued_data (flows m4 g) = (if g = f then data else queued_data (flows m g))"
    "vtime (flows m4 g) = (if g = f then t else vtime (flows m g))" for g
    by (simp_all add: m4_def F_def)
  have fits: "fq_fits m4"
    using inv(3) assms(6) data(1) tree(2) by (simp add: fq_fits_def) (simp add: m4_def)
  show ?thesis
  proof (cases "sending_flow m4 = None \<and> \<not> schedule_job m4")
    case True
    then have "previous_flow m4 = None"
      using inv(2) by (cases "previous_flow m") (auto simp: m4_def fq_turn_def)
    with True show ?thesis
      using schedule_inv(1) [of m4 "fst (schedule m4)" "snd (schedule m4)"] tree fits by (simp add: eq)
  next
    case False
    have "fq_turn m4"
    proof (cases "sending_flow m")
      case None
      with False inv(2) show ?thesis
        by (auto simp: fq_turn_def m4_def F_def)
    next
      case (Some s)
      then have s: "s \<noteq> f" "previous_flow m = None" "\<not> schedule_job m" "s \<in> set (flows_list m)" "\<not> is_queued (flows m s)"
        "sending_len m \<le> fq_mtu m" "\<forall>g\<in>queued m. vtime (flows m s) \<le> vtime (flows m g)"
        using inv(2) assms(4) by (auto simp: fq_turn_def)
      have "vtime (flows m s) \<le> t"
        using s(2) Some by (simp add: t_def get_current_time_def)
      then have "\<forall>g\<in>queued m4. vtime (flows m4 s) \<le> vtime (flows m4 g)"
        using s(1,7) tree(2) data(2) by simp
      then show ?thesis
        using s Some by (simp add: fq_turn_def) (simp add: m4_def F_def)
    qed
    with tree fits have "fq_inv m4"
      by (simp add: fq_inv_def)
    with False show ?thesis
      by (simp only: eq if_False fst_conv)
  qed
qed

text \<open>What the completion of a packet does, in numbers.\<close>

lemma sent_exact:
  assumes "fq_inv m" "sending_flow m = Some f" "m' = fst (fq_output_handler_done m)"
  shows "\<exists>s \<ge> 0. uint (vtime (flows m' f)) = uint (vtime (flows m f)) + int (packet_weight m + sending_len m) - s \<and>
    (\<forall>g\<in>queued m. uint (vtime (flows m' g)) = uint (vtime (flows m g)) - s) \<and>
    (\<forall>g\<in>set (flows_list m). g \<noteq> f \<longrightarrow> uint (vtime (flows m' g)) = max 0 (uint (vtime (flows m g)) - s))"
    "queued m' = queued m" "m' = m\<lparr>sending_flow := None, previous_flow := Some f, schedule_job := True, flows := flows m'\<rparr>"
    "\<And>g. is_queued (flows m' g) = is_queued (flows m g)" "\<And>g. queued_data (flows m' g) = queued_data (flows m g)"
proof -
  define m1 where "m1 = m\<lparr>sending_flow := None, previous_flow := Some f\<rparr>"
  define m2 where "m2 = increment_sent_flow m1 f (of_nat (packet_weight m + sending_len m))"
  have inv: "distinct (flows_list m)" "flow_inv (flows m) (queued_tree m)" "elems (queued_tree m) = queued m"
    "f \<in> set (flows_list m)" "\<not> is_queued (flows m f)" "sending_len m \<le> fq_mtu m"
    "\<forall>g\<in>queued m. vtime (flows m f) \<le> vtime (flows m g)" "packet_weight m + fq_mtu m < 2 ^ 64"
    using assms(1,2) by (auto simp: fq_inv_defs)
  have m1: "distinct (flows_list m1)" "queued m1 = queued m" "flows m1 = flows m" "flows_list m1 = flows_list m"
    using inv(1) by (simp_all add: m1_def queued_def)
  have m': "flows m' g = flows m2 g \<or> g = f \<and> flows m' g = (flows m2 f)\<lparr>handler_busy := None\<rparr>"
    "m' = m\<lparr>sending_flow := None, previous_flow := Some f, schedule_job := True, flows := flows m'\<rparr>" for g
    by (auto simp: assms(2,3) fq_output_handler_done_def Let_def m2_def m1_def split: option.splits
      intro!: PacketPassFairQueue.equality)
  have fields: "vtime (flows m' g) = vtime (flows m2 g)" "is_queued (flows m' g) = is_queued (flows m2 g)"
    "queued_data (flows m' g) = queued_data (flows m2 g)" for g
    using m'(1) [of g] by auto
  show "m' = m\<lparr>sending_flow := None, previous_flow := Some f, schedule_job := True, flows := flows m'\<rparr>"
    by (rule m'(2))
  show "\<And>g. is_queued (flows m' g) = is_queued (flows m g)" "\<And>g. queued_data (flows m' g) = queued_data (flows m g)"
    using m1 by (simp_all add: fields m2_def)
  moreover have "flows_list m' = flows_list m"
    by (subst m'(2)) simp
  ultimately show "queued m' = queued m"
    by (simp add: queued_def)
  have "f \<notin> queued m"
    using inv(5) by (simp add: queued_def)
  moreover have "flow_inv (flows m1) (queued_tree m1)" "elems (queued_tree m1) = queued m1"
    using inv(2,3) m1 by (simp_all add: m1_def)
  ultimately show "\<exists>s \<ge> 0. uint (vtime (flows m' f)) = uint (vtime (flows m f)) + int (packet_weight m + sending_len m) - s \<and>
    (\<forall>g\<in>queued m. uint (vtime (flows m' g)) = uint (vtime (flows m g)) - s) \<and>
    (\<forall>g\<in>set (flows_list m). g \<noteq> f \<longrightarrow> uint (vtime (flows m' g)) = max 0 (uint (vtime (flows m g)) - s))"
    using increment_exact [OF m1(1) _ _ _ _ _ m2_def] inv m1 unfolding fields by fastforce
qed

lemma sent_inv:
  assumes "fq_inv m" "sending_flow m = Some f" "\<not> freeing m"
  shows "fq_inv (fst (fq_output_handler_done m))"
proof -
  define m' where "m' = fst (fq_output_handler_done m)"
  note sent = sent_exact [OF assms(1,2) m'_def]
  have tr: "distinct (flows_list m)" "flow_inv (flows m) (queued_tree m)" "elems (queued_tree m) = queued m"
    using assms(1) by (simp_all add: fq_inv_defs)
  have m': "flows_list m' = flows_list m" "queued_tree m' = queued_tree m" "sending_flow m' = None"
    "previous_flow m' = Some f" "schedule_job m'" "fq_mtu m' = fq_mtu m" "packet_weight m' = packet_weight m"
    by (subst sent(3), simp)+
  obtain s where s: "\<forall>g\<in>queued m. uint (vtime (flows m' g)) = uint (vtime (flows m g)) - s"
    using sent(1) by blast
  have "flow_inv (flows m') (queued_tree m)"
  proof (rule flow_inv_cong [OF tr(2)])
    fix g h
    assume "g \<in> elems (queued_tree m)" "h \<in> elems (queued_tree m)" "compare_flows (flows m) g h < 0"
    then show "compare_flows (flows m') g h < 0"
      using s tr(3) by (auto simp: compare_flows_less word_less_def word_uint_eq_iff)
  qed
  then have "fq_tree m'"
    using tr m' sent(2) by (simp add: fq_tree_def)
  moreover have "fq_turn m'"
    using assms(1,2) m' sent(4) by (simp add: fq_inv_defs)
  moreover have "fq_fits m'"
    using assms(1) m' sent(2,5) by (simp add: fq_inv_defs)
  ultimately show ?thesis
    by (simp add: fq_inv_def m'_def)
qed

lemma schedule_job_inv:
  assumes "fq_inv m" "schedule_job m" "\<not> freeing m"
  shows "fq_inv (fst (schedule_job_handler m))"
proof -
  define m1 where "m1 = m\<lparr>schedule_job := False, previous_flow := None\<rparr>"
  have snd: "sending_flow m = None"
    using assms by (cases "sending_flow m") (auto simp: fq_inv_defs)
  have q: "queued m1 = queued m"
    by (simp add: m1_def queued_def)
  have m1: "fq_tree m1" "fq_fits m1" "sending_flow m1 = None" "previous_flow m1 = None" "\<not> schedule_job m1"
    "queued_tree m1 = queued_tree m"
    using assms(1) snd q by (simp_all add: fq_inv_defs) (simp_all add: m1_def)
  have "queued_tree m = Null \<longleftrightarrow> queued m = {}"
    using assms(1) elems_empty [of "queued_tree m"] by (simp add: fq_inv_defs)
  then have eq: "schedule_job_handler m = (if queued m = {} then (m1, []) else schedule m1)"
    using m1(6) by (simp add: schedule_job_handler_def m1_def [symmetric] Let_def savl_defs)
  show ?thesis
  proof (cases "queued m = {}")
    case True
    then have "fq_turn m1"
      using m1 q by (simp add: fq_turn_def)
    with True m1 show ?thesis
      by (simp add: eq fq_inv_def)
  next
    case False
    with schedule_inv(1) [OF m1(1-5), of "fst (schedule m1)" "snd (schedule m1)"] q show ?thesis
      by (simp add: eq)
  qed
qed

lemma flow_init_inv:
  assumes "fq_inv m" "f \<notin> set (flows_list m)"
  shows "fq_inv (PacketPassFairQueueFlow_Init f m)"
proof -
  let ?m = "PacketPassFairQueueFlow_Init f m"
  have q: "queued ?m = queued m" "f \<notin> queued m"
    using assms(2) by (auto simp: queued_def PacketPassFairQueueFlow_Init_def)
  have fs: "flows ?m g = flows m g" if "g \<in> set (flows_list m)" for g
    using that assms(2) by (auto simp: PacketPassFairQueueFlow_Init_def)
  have "flow_inv (flows ?m) (queued_tree m)"
    by (rule flow_inv_times [of "flows m"]) (use assms(1) fs in \<open>auto simp: fq_inv_defs queued_def\<close>)
  then have "fq_tree ?m"
    using assms q by (simp add: fq_inv_defs) (simp add: PacketPassFairQueueFlow_Init_def)
  moreover have "fq_turn ?m" "fq_fits ?m"
    using assms q fs by (auto simp: fq_inv_defs queued_def PacketPassFairQueueFlow_Init_def)
  ultimately show ?thesis
    by (simp add: fq_inv_def)
qed

lemma flow_free_inv:
  assumes "fq_inv m" "f \<in> set (flows_list m)" "freeing m \<or> sending_flow m \<noteq> Some f"
  shows "fq_inv (PacketPassFairQueueFlow_Free f m)"
proof -
  let ?m = "PacketPassFairQueueFlow_Free f m"
  have d: "distinct (flows_list m)" and tr: "flow_inv (flows m) (queued_tree m)" "elems (queued_tree m) = queued m"
    using assms(1) by (simp_all add: fq_inv_defs)
  have fields: "flows ?m = flows m" "flows_list ?m = remove1 f (flows_list m)" "fq_mtu ?m = fq_mtu m"
    "packet_weight ?m = packet_weight m" "schedule_job ?m = schedule_job m" "sending_len ?m = sending_len m" "freeing ?m = freeing m"
    "sending_flow ?m = (if sending_flow m = Some f then None else sending_flow m)"
    "previous_flow ?m = (if previous_flow m = Some f then None else previous_flow m)"
    "queued_tree ?m = (if is_queued (flows m f) then SAvl_Remove (queued_tree m) f else queued_tree m)"
    by (auto simp: PacketPassFairQueueFlow_Free_def Let_def)
  have q: "queued ?m = queued m - {f}" "is_queued (flows m f) \<longleftrightarrow> f \<in> queued m"
    using d assms(2) by (auto simp: queued_def fields)
  have "fq_tree ?m"
    using SAvl_Remove_inv [OF tr(1), of f] tr q d by (auto simp: fq_tree_def fields)
  moreover have "fq_turn ?m" "fq_fits ?m"
    using assms d by (auto simp: fq_inv_defs q(1) fields)
  ultimately show ?thesis
    by (simp add: fq_inv_def)
qed

lemma fq_step_inv:
  assumes "fq_step m e m'" "fq_inv m"
  shows "fq_inv m'"
  using assms
proof (induction rule: fq_step.induct)
  case (fq_busy_handler m f user)
  have "flow_inv (flows (PacketPassFairQueueFlow_SetBusyHandler f user m)) (queued_tree m)"
    by (rule flow_inv_times [of "flows m"])
      (use fq_busy_handler in \<open>auto simp: fq_inv_defs PacketPassFairQueueFlow_SetBusyHandler_def\<close>)
  moreover have "queued (PacketPassFairQueueFlow_SetBusyHandler f user m) = queued m"
    by (auto simp: queued_def PacketPassFairQueueFlow_SetBusyHandler_def)
  ultimately show ?case
    using fq_busy_handler by (auto simp: fq_inv_defs) (auto simp: PacketPassFairQueueFlow_SetBusyHandler_def)
next
  case (fq_prepare_free m)
  then show ?case
    by (auto simp: fq_inv_defs queued_def PacketPassFairQueue_PrepareFree_def)
qed (auto intro: flow_init_inv flow_free_inv send_inv sent_inv schedule_job_inv)

lemma fq_init_inv:
  assumes "PacketPassFairQueue_Init mtu cancel weight mem = Some m"
  shows "fq_inv m"
proof -
  have "unat FAIRQUEUE_MAX_TIME = 2 ^ 64 - 1"
    by (simp add: unsigned_minus_1_eq_mask mask_eq_exp_minus_1)
  with assms have "weight + mtu < 2 ^ 64"
    by (auto simp: PacketPassFairQueue_Init_def split: if_splits)
  with assms show ?thesis
    by (auto simp: PacketPassFairQueue_Init_def fq_inv_defs queued_def savl_defs BAVL_Init_def bavl_inv_def ordered_def elems_def
      split: if_splits)
qed

lemma fq_run_inv: "fq_run m0 m \<Longrightarrow> fq_inv m0 \<Longrightarrow> fq_inv m"
  by (induction rule: fq_run.induct) (auto intro: fq_step_inv)

text \<open>C14. Whatever the flows do, the queue's tree passes its self-check and holds exactly the queued flows,
  also after times were subtracted; a packet is being sent or a scheduling job is pending as
  long as any flow is queued; and the flow that is sending is not queued, has the least time, and
  finds the assertions of its completion true.\<close>

theorem FairQueue_invariant:
  assumes "PacketPassFairQueue_Init mtu cancel weight mem = Some m0" "fq_run m0 m"
  shows "BAVL_Verify (compare_flows (flows m)) id (queued_tree m) \<and> elems (queued_tree m) = queued m \<and>
    (queued m \<noteq> {} \<and> \<not> freeing m \<longrightarrow> sending_flow m \<noteq> None \<or> schedule_job m) \<and>
    (\<forall>f. sending_flow m = Some f \<longrightarrow> f \<notin> queued m \<and> previous_flow m = None \<and> \<not> schedule_job m \<and>
      (\<forall>g\<in>queued m. vtime (flows m f) \<le> vtime (flows m g)))"
proof -
  have inv: "fq_inv m"
    using fq_run_inv [OF assms(2) fq_init_inv [OF assms(1)]] .
  then have t: "flow_inv (flows m) (queued_tree m)" "elems (queued_tree m) = queued m"
    by (simp_all add: fq_inv_defs)
  have "BAVL_Verify (compare_flows (flows m)) id (queued_tree m)"
    using flow_tree.assert_recurser_height [OF t(1)] by (simp add: BAVL_Verify_def)
  moreover have "f \<notin> queued m \<and> previous_flow m = None \<and> \<not> schedule_job m \<and>
      (\<forall>g\<in>queued m. vtime (flows m f) \<le> vtime (flows m g))" if "sending_flow m = Some f" for f
    using that inv by (cases "previous_flow m") (auto simp: fq_inv_defs queued_def)
  ultimately show ?thesis
    using t(2) inv by (auto simp: fq_inv_defs)
qed

definition sample_flow :: fq_flow where
  "sample_flow = \<lparr>vtime = 0, is_queued = False, queued_data = [], handler_busy = None\<rparr>"

definition sample_queue :: PacketPassFairQueue where
  "sample_queue = \<lparr>fq_mtu = 9, use_cancel = False, packet_weight = 1, sending_flow = None, sending_len = 0,
    previous_flow = None, queued_tree = Null, flows_list = [], freeing = False, schedule_job = False,
    flows = \<lambda>_. sample_flow\<rparr>"

lemma sample_queue_init: "PacketPassFairQueue_Init 9 False 1 (\<lambda>_. sample_flow) = Some sample_queue"
  by (simp add: PacketPassFairQueue_Init_def sample_queue_def savl_defs BAVL_Init_def unsigned_minus_1_eq_mask
    mask_eq_exp_minus_1)

lemma sample_queue_run: "fq_run sample_queue (fst (fq_input_handler_send (PacketPassFairQueueFlow_Init 1 sample_queue) 1 [5]))"
  by (rule fq_next [OF fq_next [OF fq_start fq_flow_init] fq_send])
    (auto simp: sample_queue_def PacketPassFairQueueFlow_Init_def)

theorem FairQueue_invariant_witness:
  "let m = fst (fq_input_handler_send (PacketPassFairQueueFlow_Init 1 sample_queue) 1 [5])
   in elems (queued_tree m) = queued m \<and> sending_flow m = Some 1"
  using FairQueue_invariant [OF sample_queue_init sample_queue_run]
  by (simp add: Let_def fq_input_handler_send_def PacketPassFairQueueFlow_Init_def sample_queue_def schedule_def savl_defs
    BAVL_Insert_def)

section \<open>Fairness\<close>

text \<open>C23. A completed packet costs its flow exactly the weight and the length of the packet relative to every
  flow that waits, although the times are 64 bit numbers and are shifted when they would overflow:
  there is one shift for all of them, and no time wraps.\<close>

theorem FairQueue_charge:
  assumes "PacketPassFairQueue_Init mtu cancel weight mem = Some m0" "fq_run m0 m" "sending_flow m = Some f"
  shows "let m' = fst (fq_output_handler_done m) in
    \<exists>s \<ge> 0. uint (vtime (flows m' f)) = uint (vtime (flows m f)) + int (packet_weight m + sending_len m) - s \<and>
      (\<forall>g\<in>queued m. g \<in> queued m' \<and> uint (vtime (flows m' g)) = uint (vtime (flows m g)) - s)"
  using sent_exact [OF fq_run_inv [OF assms(2) fq_init_inv [OF assms(1)]] assms(3) refl]
  unfolding Let_def by blast

theorem FairQueue_charge_witness:
  "let m = fst (fq_input_handler_send (PacketPassFairQueueFlow_Init 1 sample_queue) 1 [5])
   in \<exists>s \<ge> 0. uint (vtime (flows (fst (fq_output_handler_done m)) 1)) = 2 - s"
proof -
  have "sending_flow (fst (fq_input_handler_send (PacketPassFairQueueFlow_Init 1 sample_queue) 1 [5])) = Some 1"
    and "packet_weight (fst (fq_input_handler_send (PacketPassFairQueueFlow_Init 1 sample_queue) 1 [5])) = 1"
    and "sending_len (fst (fq_input_handler_send (PacketPassFairQueueFlow_Init 1 sample_queue) 1 [5])) = 1"
    and "vtime (flows (fst (fq_input_handler_send (PacketPassFairQueueFlow_Init 1 sample_queue) 1 [5])) 1) = 0"
    by (simp_all add: fq_input_handler_send_def PacketPassFairQueueFlow_Init_def sample_queue_def schedule_def savl_defs
      BAVL_Insert_def Let_def get_current_time_def)
  with FairQueue_charge [OF sample_queue_init sample_queue_run, of 1] show ?thesis
    by (auto simp: Let_def)
qed

text \<open>The part of a run during which flow \<open>g\<close> waits, with the weight flow \<open>f\<close> had sent meanwhile.\<close>

definition served :: "flow \<Rightarrow> fq_event \<Rightarrow> PacketPassFairQueue \<Rightarrow> nat" where
  "served f e m = (if e = Ev_sent \<and> sending_flow m = Some f then packet_weight m + sending_len m else 0)"

inductive fq_wait :: "flow \<Rightarrow> flow \<Rightarrow> PacketPassFairQueue \<Rightarrow> nat \<Rightarrow> PacketPassFairQueue \<Rightarrow> bool" for f g m0 where
  wait_start: "g \<in> queued m0 \<Longrightarrow> f \<in> set (flows_list m0) \<Longrightarrow> fq_wait f g m0 0 m0"
| wait_step: "fq_wait f g m0 n m \<Longrightarrow> fq_step m e m' \<Longrightarrow> e \<noteq> Ev_flow_free f \<Longrightarrow> g \<in> queued m' \<Longrightarrow>
    fq_wait f g m0 (n + served f e m) m'"

definition lead :: "flow \<Rightarrow> flow \<Rightarrow> PacketPassFairQueue \<Rightarrow> int" where
  "lead f g m = uint (vtime (flows m f)) - uint (vtime (flows m g))"

lemma schedule_keeps: "vtime (flows (fst (schedule m)) x) = vtime (flows m x)" "flows_list (fst (schedule m)) = flows_list m"
  "fq_mtu (fst (schedule m)) = fq_mtu m" "packet_weight (fst (schedule m)) = packet_weight m"
  by (auto simp: schedule_def Let_def split: option.splits)

lemma job_keeps: "vtime (flows (fst (schedule_job_handler m)) x) = vtime (flows m x)"
  "flows_list (fst (schedule_job_handler m)) = flows_list m"
  "fq_mtu (fst (schedule_job_handler m)) = fq_mtu m" "packet_weight (fst (schedule_job_handler m)) = packet_weight m"
  by (auto simp: schedule_job_handler_def Let_def schedule_keeps)

lemma send_keeps: "x \<noteq> f \<Longrightarrow> vtime (flows (fst (fq_input_handler_send m f data)) x) = vtime (flows m x)"
  "vtime (flows m f) \<le> vtime (flows (fst (fq_input_handler_send m f data)) f)"
  "flows_list (fst (fq_input_handler_send m f data)) = flows_list m"
  "fq_mtu (fst (fq_input_handler_send m f data)) = fq_mtu m"
  "packet_weight (fst (fq_input_handler_send m f data)) = packet_weight m"
  by (auto simp: fq_input_handler_send_def Let_def schedule_keeps)

lemma wait_step_lead:
  assumes "fq_step m e m'" "fq_inv m" "e \<noteq> Ev_flow_free f" "g \<in> queued m" "f \<in> set (flows_list m)" "f \<noteq> g"
  shows "lead f g m + int (served f e m) \<le> lead f g m'" "f \<in> set (flows_list m')"
    "packet_weight m' = packet_weight m" "fq_mtu m' = fq_mtu m"
proof -
  have "lead f g m + int (served f e m) \<le> lead f g m' \<and> f \<in> set (flows_list m') \<and>
    packet_weight m' = packet_weight m \<and> fq_mtu m' = fq_mtu m"
    using assms
  proof (induction rule: fq_step.induct)
    case (fq_flow_init x m)
    then show ?case
      by (auto simp: lead_def served_def PacketPassFairQueueFlow_Init_def queued_def)
  next
    case (fq_flow_free x m)
    then show ?case
      by (auto simp: lead_def served_def PacketPassFairQueueFlow_Free_def Let_def)
  next
    case (fq_send x m data)
    then have "x \<noteq> g"
      by (auto simp: queued_def)
    with fq_send show ?case
      using send_keeps(1) [of f x m data] send_keeps(1) [of g x m data] send_keeps(2-) [of m x data]
      by (cases "x = f") (auto simp: lead_def served_def word_le_def)
  next
    case (fq_sent m)
    then obtain h where h: "sending_flow m = Some h"
      by auto
    note sent = sent_exact [OF fq_sent.prems(1) h refl]
    have "g \<noteq> h"
      using fq_sent.prems(1,3) h by (auto simp: fq_inv_defs queued_def)
    then have "lead f g m + int (served f Ev_sent m) \<le> lead f g (fst (fq_output_handler_done m))"
      using sent(1) fq_sent.prems(3,4) h by (cases "f = h") (auto simp: lead_def served_def)
    moreover have "flows_list (fst (fq_output_handler_done m)) = flows_list m"
      "packet_weight (fst (fq_output_handler_done m)) = packet_weight m" "fq_mtu (fst (fq_output_handler_done m)) = fq_mtu m"
      by (subst sent(3), simp)+
    ultimately show ?case
      using fq_sent.prems(4) by simp
  next
    case (fq_schedule m)
    then show ?case
      by (simp add: lead_def served_def job_keeps)
  qed (auto simp: lead_def served_def PacketPassFairQueueFlow_SetBusyHandler_def PacketPassFairQueue_PrepareFree_def)
  then show "lead f g m + int (served f e m) \<le> lead f g m'" "f \<in> set (flows_list m')"
    "packet_weight m' = packet_weight m" "fq_mtu m' = fq_mtu m"
    by blast+
qed

lemma wait_lead:
  assumes "fq_wait f g m0 n m" "fq_inv m0" "f \<noteq> g"
  shows "fq_inv m \<and> g \<in> queued m \<and> f \<in> set (flows_list m) \<and> packet_weight m = packet_weight m0 \<and> fq_mtu m = fq_mtu m0 \<and>
    int n + lead f g m0 \<le> lead f g m \<and> (n = 0 \<or> int n + lead f g m0 \<le> int (packet_weight m0 + fq_mtu m0))"
  using assms
proof (induction rule: fq_wait.induct)
  case (wait_step n m e m')
  then have IH: "fq_inv m" "g \<in> queued m" "f \<in> set (flows_list m)" "packet_weight m = packet_weight m0" "fq_mtu m = fq_mtu m0"
    "int n + lead f g m0 \<le> lead f g m" "n = 0 \<or> int n + lead f g m0 \<le> int (packet_weight m0 + fq_mtu m0)"
    by blast+
  note lead = wait_step_lead [OF wait_step.hyps(2) IH(1) wait_step.hyps(3) IH(2,3) assms(3)]
  have "int n + int (served f e m) + lead f g m0 \<le> int (packet_weight m0 + fq_mtu m0)" if "served f e m \<noteq> 0"
  proof -
    have "sending_flow m = Some f" "served f e m = packet_weight m + sending_len m"
      using that by (auto simp: served_def split: if_splits)
    moreover from this have "sending_len m \<le> fq_mtu m" "vtime (flows m f) \<le> vtime (flows m g)"
      using IH(1,2) by (auto simp: fq_inv_defs)
    then have "lead f g m \<le> 0"
      by (simp add: lead_def word_le_def)
    ultimately show ?thesis
      using IH(4-6) \<open>sending_len m \<le> fq_mtu m\<close> by simp
  qed
  with lead IH wait_step.hyps(4) fq_step_inv [OF wait_step.hyps(2) IH(1)] show ?case
    by (cases "served f e m = 0") auto
qed auto

text \<open>C15. No flow is starved: while one flow waits, any other flow gets at most the weight it was behind,
  and one packet more, however long the wait is and however often times are shifted meanwhile.\<close>

theorem FairQueue_no_starvation:
  assumes "PacketPassFairQueue_Init mtu cancel weight mem = Some m0" "fq_run m0 m" "fq_wait f g m n m'" "f \<noteq> g"
  shows "int n \<le> max 0 (uint (vtime (flows m g)) - uint (vtime (flows m f)) + int (weight + mtu))"
proof -
  have inv: "fq_inv m"
    using fq_run_inv [OF assms(2) fq_init_inv [OF assms(1)]] .
  have "packet_weight m = weight \<and> fq_mtu m = mtu"
    using assms(2)
  proof (induction rule: fq_run.induct)
    case fq_start
    then show ?case
      using assms(1) by (auto simp: PacketPassFairQueue_Init_def split: if_splits)
  next
    case (fq_next m e m')
    have "packet_weight m' = packet_weight m \<and> fq_mtu m' = fq_mtu m"
      using fq_next.hyps(2)
      by (induction rule: fq_step.induct)
        (auto simp: PacketPassFairQueueFlow_Init_def PacketPassFairQueueFlow_Free_def Let_def send_keeps job_keeps
          fq_output_handler_done_def PacketPassFairQueueFlow_SetBusyHandler_def PacketPassFairQueue_PrepareFree_def
          split: option.splits)
    with fq_next.IH show ?case
      by simp
  qed
  with wait_lead [OF assms(3) inv assms(4)] show ?thesis
    by (auto simp: lead_def)
qed

theorem FairQueue_no_starvation_witness:
  "\<exists>m m'. fq_run sample_queue m \<and> fq_wait 1 2 m 2 m' \<and>
     int 2 \<le> max 0 (uint (vtime (flows m 2)) - uint (vtime (flows m 1)) + int (1 + 9))"
proof -
  define m1 where "m1 = fst (fq_input_handler_send (PacketPassFairQueueFlow_Init 1 sample_queue) 1 [5])"
  define m2 where "m2 = fst (fq_input_handler_send (PacketPassFairQueueFlow_Init 2 m1) 2 [6])"
  have m1: "m1 = sample_queue\<lparr>sending_flow := Some 1, sending_len := 1, flows_list := [1],
      flows := (flows sample_queue)(1 := sample_flow\<lparr>queued_data := [5]\<rparr>)\<rparr>"
    by (simp add: m1_def fq_input_handler_send_def PacketPassFairQueueFlow_Init_def sample_queue_def sample_flow_def schedule_def savl_defs
      BAVL_Insert_def BAVL_unlink_def Let_def get_current_time_def)
  have run: "fq_run sample_queue m2"
    unfolding m2_def
    by (rule fq_next [OF fq_next [OF sample_queue_run [folded m1_def] fq_flow_init] fq_send])
      (auto simp: m1 sample_queue_def PacketPassFairQueueFlow_Init_def)
  have m2: "2 \<in> queued m2" "1 \<in> set (flows_list m2)" "sending_flow m2 = Some 1" "\<not> freeing m2"
    "packet_weight m2 = 1" "sending_len m2 = 1"
    by (simp_all add: m2_def m1 sample_queue_def sample_flow_def fq_input_handler_send_def PacketPassFairQueueFlow_Init_def queued_def Let_def)
  have "2 \<in> queued (fst (fq_output_handler_done m2))"
    using sent_exact(2) [OF fq_run_inv [OF run fq_init_inv [OF sample_queue_init]] m2(3) refl] m2(1) by simp
  with wait_step [OF wait_start [OF m2(1,2)] fq_sent] m2(3-)
  have wait: "fq_wait 1 2 m2 2 (fst (fq_output_handler_done m2))"
    by (simp add: served_def numeral_2_eq_2)
  with FairQueue_no_starvation [OF sample_queue_init run this] run show ?thesis
    by auto
qed

text \<open>Completing a packet when no time overflows.\<close>

lemma sent_plain:
  assumes "sending_flow m = Some f" "uint (vtime (flows m f)) + int (packet_weight m + sending_len m) < 2 ^ 64" "m' = fst (fq_output_handler_done m)"
  shows "uint (vtime (flows m' f)) = uint (vtime (flows m f)) + int (packet_weight m + sending_len m)" "g \<noteq> f \<Longrightarrow> vtime (flows m' g) = vtime (flows m g)"
    "sending_flow m' = None" "queued_tree m' = queued_tree m"
proof -
  define amount :: u64 where "amount = of_nat (packet_weight m) + of_nat (sending_len m)"
  have "int (packet_weight m + sending_len m) < 2 ^ 64"
    using assms(2) uint_ge_0 [of "vtime (flows m f)"] by linarith
  moreover have "amount = word_of_int (int (packet_weight m + sending_len m))"
    by (simp add: amount_def)
  ultimately have amount: "uint amount = int (packet_weight m + sending_len m)"
    by (simp only: uint_word_of_int_eq) (simp add: take_bit_int_eq_self)
  then have "\<not> amount > FAIRQUEUE_MAX_TIME - vtime (flows m f)"
    using assms(2) uint_max_time [of "vtime (flows m f)"] by (simp add: word_less_def)
  moreover have "uint (vtime (flows m f) + amount) = uint (vtime (flows m f)) + uint amount"
    using assms(2) amount by (subst uint_add_lem [symmetric]) simp
  ultimately show "uint (vtime (flows m' f)) = uint (vtime (flows m f)) + int (packet_weight m + sending_len m)" "g \<noteq> f \<Longrightarrow> vtime (flows m' g) = vtime (flows m g)"
    "sending_flow m' = None" "queued_tree m' = queued_tree m"
    using assms(1,3) amount
    by (auto simp: fq_output_handler_done_def increment_sent_flow_def amount_def [symmetric] Let_def split: option.splits)
qed

text \<open>C38. Idling does not even out the flows' times, although the queue's current time falls back to 0. If a flow completes its
  packet while no other waits and does not send until the job has run, the queue is idle with current time 0,
  the flow's time has grown by the packet's and is kept when it sends again, and so is the time of every other flow when it
  starts to send: a flow that was busy alone stands behind the others by everything it sent.\<close>

theorem FairQueue_idle_keeps_time:
  assumes "PacketPassFairQueue_Init mtu cancel weight memory = Some m0" "fq_run m0 m" "sending_flow m = Some f" "queued m = {}"
    "uint (vtime (flows m f)) + int (packet_weight m + sending_len m) < 2 ^ 64"
    "m' = fst (schedule_job_handler (fst (fq_output_handler_done m)))"
  shows "sending_flow m' = None \<and> queued m' = {} \<and> get_current_time m' = 0 \<and>
    uint (vtime (flows m' f)) = uint (vtime (flows m f)) + int (packet_weight m + sending_len m) \<and>
    (\<forall>g. g \<noteq> f \<longrightarrow> vtime (flows m' g) = vtime (flows m g)) \<and>
    (\<forall>g data. vtime (flows (fst (fq_input_handler_send m' g data)) g) = vtime (flows m' g))"
proof -
  let ?d = "fst (fq_output_handler_done m)"
  have inv: "fq_inv m"
    by (rule fq_run_inv [OF assms(2) fq_init_inv [OF assms(1)]])
  then have "queued_tree m = Null"
    using assms(4) elems_empty [of "queued_tree m"] by (simp add: fq_inv_defs)
  then have m': "m' = ?d\<lparr>schedule_job := False, previous_flow := None\<rparr>" "queued_tree ?d = Null" "sending_flow ?d = None"
    using sent_plain(3,4) [OF assms(3,5) refl] by (simp_all add: assms(6) schedule_job_handler_def savl_defs Let_def)
  then have idle: "get_current_time m' = 0"
    by (simp add: get_current_time_def savl_defs)
  have "vtime (flows (fst (fq_input_handler_send m' g data)) g) = vtime (flows m' g)" for g data
    using m' idle by (simp add: fq_input_handler_send_def Let_def schedule_keeps)
  moreover have "queued m' = {}"
    using sent_exact(2) [OF inv assms(3) refl] assms(4) by (simp add: m'(1) queued_def)
  ultimately show ?thesis
    using idle sent_plain(1,2) [OF assms(3,5) refl] m'(1,3) by simp
qed

theorem FairQueue_idle_keeps_time_witness:
  "let m = fst (schedule_job_handler (fst (fq_output_handler_done
     (fst (fq_input_handler_send (PacketPassFairQueueFlow_Init 1 sample_queue) 1 [5])))))
   in uint (vtime (flows m 1)) = 2 \<and> get_current_time m = 0"
proof -
  define m where "m = fst (fq_input_handler_send (PacketPassFairQueueFlow_Init 1 sample_queue) 1 [5])"
  have "sending_flow m = Some 1" "queued m = {}" "uint (vtime (flows m 1)) = 0" "packet_weight m = 1" "sending_len m = 1"
    by (simp_all add: m_def fq_input_handler_send_def PacketPassFairQueueFlow_Init_def sample_queue_def sample_flow_def schedule_def savl_defs
      BAVL_Insert_def BAVL_unlink_def queued_def Let_def get_current_time_def)
  with FairQueue_idle_keeps_time [OF sample_queue_init sample_queue_run [folded m_def] _ _ _ refl] show ?thesis
    by (simp add: m_def [symmetric] Let_def del: One_nat_def)
qed

end
