(* ===== verification/SocksClient.thy ===== *)
theory SocksClient
  imports ChunkBuffer Addr
begin

text \<open>
  The SOCKS 5 client of \<open>socksclient/BSocksClient.c\<close>, with the messages of \<open>misc/socks_proto.h\<close>.

  A handler returns the new object and the calls it makes, in order: on the connector, the
  connection and its asynchronous interfaces, the packet sender of the control phase, the
  allocator, and the user's handler.  Packed structures are written as their bytes; the
  addresses of \<open>BAddr\<close> are stored in network order already.  \<open>BRealloc\<close> is a parameter that gives
  the block, or nothing when memory is short, as are the results of starting a connection.
  \<open>size_t\<close> has the 32 bits of the smallest build.  A place in the buffer is an offset.
\<close>

section \<open>The object\<close>

abbreviation (input) SOCKS_VERSION :: u8 where "SOCKS_VERSION \<equiv> 5"
abbreviation (input) SOCKS_METHOD_NO_AUTHENTICATION_REQUIRED :: int where "SOCKS_METHOD_NO_AUTHENTICATION_REQUIRED \<equiv> 0"
abbreviation (input) SOCKS_METHOD_USERNAME_PASSWORD :: int where "SOCKS_METHOD_USERNAME_PASSWORD \<equiv> 2"
abbreviation (input) SOCKS_CMD_CONNECT :: u8 where "SOCKS_CMD_CONNECT \<equiv> 1"
abbreviation (input) SOCKS_ATYP_IPV4 :: u8 where "SOCKS_ATYP_IPV4 \<equiv> 1"
abbreviation (input) SOCKS_ATYP_IPV6 :: u8 where "SOCKS_ATYP_IPV6 \<equiv> 4"
abbreviation (input) SOCKS_REP_SUCCEEDED :: u8 where "SOCKS_REP_SUCCEEDED \<equiv> 0"

datatype socks_state = STATE_CONNECTING | STATE_SENDING_HELLO | STATE_SENT_HELLO | STATE_SENDING_PASSWORD
  | STATE_SENT_PASSWORD | STATE_SENDING_REQUEST | STATE_SENT_REQUEST | STATE_RECEIVED_REPLY_HEADER | STATE_UP

datatype socks_event = BSOCKSCLIENT_EVENT_ERROR | BSOCKSCLIENT_EVENT_UP | BSOCKSCLIENT_EVENT_ERROR_CLOSED

datatype socks_call = Connector_init | Connector_free | Con_init | Con_free
  | RecvAsync_init | RecvAsync_free | SendAsync_init | SendAsync_free | Sender_init | Sender_free
  | Send bytes | Recv nat nat | Realloc | Buffer_free | Handler socks_event

record BSocksClient_auth_info =
  auth_type :: int
  username :: bytes
  password :: bytes

record BSocksClient =
  auth_info :: "BSocksClient_auth_info list"
  dest_addr :: BAddr
  sstate :: socks_state
  sbuffer :: "bytes option"
  recv_dest :: nat
  recv_len :: nat
  recv_total :: nat

type_synonym reallocator = "bytes option \<Rightarrow> nat \<Rightarrow> bytes option"

definition the_buffer :: "BSocksClient \<Rightarrow> bytes" where
  "the_buffer c = (case sbuffer c of None \<Rightarrow> [] | Some b \<Rightarrow> b)"

definition BSocksClient_auth_none :: BSocksClient_auth_info where
  "BSocksClient_auth_none = \<lparr>auth_type = SOCKS_METHOD_NO_AUTHENTICATION_REQUIRED, username = [], password = []\<rparr>"

definition BSocksClient_auth_password :: "bytes \<Rightarrow> bytes \<Rightarrow> BSocksClient_auth_info" where
  "BSocksClient_auth_password u p = \<lparr>auth_type = SOCKS_METHOD_USERNAME_PASSWORD, username = u, password = p\<rparr>"

section \<open>Operations\<close>

definition report_error :: "socks_event \<Rightarrow> socks_call list" where
  "report_error event = [Handler event]"

definition init_control_io :: "socks_call list" where
  "init_control_io = [RecvAsync_init, SendAsync_init, Sender_init]"

definition free_control_io :: "socks_call list" where
  "free_control_io = [Sender_free, SendAsync_free, RecvAsync_free]"

definition init_up_io :: "socks_call list" where
  "init_up_io = [RecvAsync_init, SendAsync_init]"

definition free_up_io :: "socks_call list" where
  "free_up_io = [SendAsync_free, RecvAsync_free]"

definition reserve_buffer :: "reallocator \<Rightarrow> BSocksClient \<Rightarrow> 32 bsize_t \<Rightarrow> BSocksClient option" where
  "reserve_buffer brealloc c sz =
     (if is_overflow sz then None
      else case brealloc (sbuffer c) (unat (bvalue sz)) of
        None \<Rightarrow> None
      | Some buf \<Rightarrow> Some (c\<lparr>sbuffer := Some buf\<rparr>))"

definition do_receive :: "BSocksClient \<Rightarrow> socks_call list" where
  "do_receive c = [Recv (recv_dest c + recv_len c) (recv_total c - recv_len c)]"

definition start_receive :: "BSocksClient \<Rightarrow> nat \<Rightarrow> nat \<Rightarrow> BSocksClient \<times> socks_call list" where
  "start_receive c dest tot =
     (let c1 = c\<lparr>recv_dest := dest, recv_len := 0, recv_total := tot\<rparr> in (c1, do_receive c1))"

text \<open>The loop that writes the offered methods behind the header.\<close>

fun write_methods :: "nat \<Rightarrow> BSocksClient_auth_info list \<Rightarrow> bytes \<Rightarrow> bytes" where
  "write_methods i [] buf = buf"
| "write_methods i (a # rest) buf = write_methods (i + 1) rest (put [hton8 (word_of_int (auth_type a))] (2 + i * 1) buf)"

definition connector_handler ::
  "reallocator \<Rightarrow> bool \<Rightarrow> BSocksClient \<Rightarrow> bool \<Rightarrow> BSocksClient \<times> socks_call list" where
  "connector_handler brealloc connection_init c is_error =
     (if is_error then (c, report_error BSOCKSCLIENT_EVENT_ERROR)
      else if \<not> connection_init then (c, report_error BSOCKSCLIENT_EVENT_ERROR)
      else
        let num_auth_info = length (auth_info c);
            fail1 = free_control_io @ [Con_free] @ report_error BSOCKSCLIENT_EVENT_ERROR
        in if num_auth_info = 0 \<or> num_auth_info > 255 then (c, [Con_init] @ init_control_io @ fail1)
        else
          let sz = bsize_add (bsize_fromsize 2) (bsize_mul (bsize_fromsize (of_nat num_auth_info)) (bsize_fromsize 1))
          in case reserve_buffer brealloc c sz of
            None \<Rightarrow> (c, [Con_init] @ init_control_io @ fail1)
          | Some c1 \<Rightarrow>
              (let buf = put [hton8 SOCKS_VERSION, hton8 (of_nat num_auth_info)] 0 (the_buffer c1);
                   buf = write_methods 0 (auth_info c1) buf
               in (c1\<lparr>sbuffer := Some buf, sstate := STATE_SENDING_HELLO\<rparr>,
                   [Con_init] @ init_control_io @ [Realloc, Send (take (unat (bvalue sz)) buf)])))"

definition connection_handler :: "BSocksClient \<Rightarrow> bool \<Rightarrow> socks_call list" where
  "connection_handler c recvclosed =
     (if sstate c = STATE_UP \<and> recvclosed then report_error BSOCKSCLIENT_EVENT_ERROR_CLOSED
      else report_error BSOCKSCLIENT_EVENT_ERROR)"

text \<open>Assertions exclude destinations that are no IP addresses; nothing is done for them here.\<close>

definition auth_finished :: "reallocator \<Rightarrow> BSocksClient \<Rightarrow> BSocksClient \<times> socks_call list" where
  "auth_finished brealloc c =
     (let sz = (case dest_addr c of
            BAddr_IPv4 _ _ \<Rightarrow> bsize_add (bsize_fromsize 4) (bsize_fromsize 6)
          | BAddr_IPv6 _ _ \<Rightarrow> bsize_add (bsize_fromsize 4) (bsize_fromsize 18)
          | _ \<Rightarrow> bsize_fromsize 4)
      in case reserve_buffer brealloc c sz of
        None \<Rightarrow> (c, report_error BSOCKSCLIENT_EVENT_ERROR)
      | Some c1 \<Rightarrow>
          (case dest_addr c1 of
             BAddr_IPv4 ip port \<Rightarrow>
               (let buf = put (mem32 ip @ mem16 port) 4 (the_buffer c1);
                    buf = put [hton8 SOCKS_VERSION, hton8 SOCKS_CMD_CONNECT, hton8 0, hton8 SOCKS_ATYP_IPV4] 0 buf
                in (c1\<lparr>sbuffer := Some buf, sstate := STATE_SENDING_REQUEST\<rparr>, [Realloc, Send (take (unat (bvalue sz)) buf)]))
           | BAddr_IPv6 ip port \<Rightarrow>
               (let buf = put (ip @ mem16 port) 4 (the_buffer c1);
                    buf = put [hton8 SOCKS_VERSION, hton8 SOCKS_CMD_CONNECT, hton8 0, hton8 SOCKS_ATYP_IPV6] 0 buf
                in (c1\<lparr>sbuffer := Some buf, sstate := STATE_SENDING_REQUEST\<rparr>, [Realloc, Send (take (unat (bvalue sz)) buf)]))
           | _ \<Rightarrow> (c1, [Realloc])))"

definition send_password :: "reallocator \<Rightarrow> BSocksClient \<Rightarrow> BSocksClient_auth_info \<Rightarrow> BSocksClient \<times> socks_call list" where
  "send_password brealloc c ai =
     (let username_len = length (username ai); password_len = length (password ai) in
      if username_len = 0 \<or> username_len > 255 \<or> password_len = 0 \<or> password_len > 255
      then (c, report_error BSOCKSCLIENT_EVENT_ERROR)
      else
        let sz = bsize_fromsize (1 + 1 + of_nat username_len + 1 + of_nat password_len)
        in case reserve_buffer brealloc c sz of
          None \<Rightarrow> (c, report_error BSOCKSCLIENT_EVENT_ERROR)
        | Some c1 \<Rightarrow>
            (let buf = put [1] 0 (the_buffer c1);
                 buf = put [of_nat username_len] 1 buf;
                 buf = put (username ai) 2 buf;
                 buf = put [of_nat password_len] (2 + username_len) buf;
                 buf = put (password ai) (2 + username_len + 1) buf
             in (c1\<lparr>sbuffer := Some buf, sstate := STATE_SENDING_PASSWORD\<rparr>, [Realloc, Send (take (unat (bvalue sz)) buf)])))"

text \<open>Assertions exclude other methods than the two.\<close>

definition hello_received :: "reallocator \<Rightarrow> BSocksClient \<Rightarrow> BSocksClient \<times> socks_call list" where
  "hello_received brealloc c =
     (let ver = the_buffer c ! 0; m = the_buffer c ! 1 in
      if ntoh8 ver \<noteq> SOCKS_VERSION then (c, report_error BSOCKSCLIENT_EVENT_ERROR)
      else case List.find (\<lambda>a. auth_type a = uint (ntoh8 m)) (auth_info c) of
        None \<Rightarrow> (c, report_error BSOCKSCLIENT_EVENT_ERROR)
      | Some ai \<Rightarrow>
          if auth_type ai = SOCKS_METHOD_NO_AUTHENTICATION_REQUIRED then auth_finished brealloc c
          else if auth_type ai = SOCKS_METHOD_USERNAME_PASSWORD then send_password brealloc c ai
          else (c, []))"

definition reply_header_received :: "BSocksClient \<Rightarrow> BSocksClient \<times> socks_call list" where
  "reply_header_received c =
     (let ver = the_buffer c ! 0; rep = the_buffer c ! 1; atyp = the_buffer c ! 3 in
      if ntoh8 ver \<noteq> SOCKS_VERSION then (c, report_error BSOCKSCLIENT_EVENT_ERROR)
      else if ntoh8 rep \<noteq> SOCKS_REP_SUCCEEDED then (c, report_error BSOCKSCLIENT_EVENT_ERROR)
      else if ntoh8 atyp = SOCKS_ATYP_IPV4 then
        (case start_receive c 4 6 of (c1, calls) \<Rightarrow> (c1\<lparr>sstate := STATE_RECEIVED_REPLY_HEADER\<rparr>, calls))
      else if ntoh8 atyp = SOCKS_ATYP_IPV6 then
        (case start_receive c 4 18 of (c1, calls) \<Rightarrow> (c1\<lparr>sstate := STATE_RECEIVED_REPLY_HEADER\<rparr>, calls))
      else (c, report_error BSOCKSCLIENT_EVENT_ERROR))"

definition password_reply_received :: "reallocator \<Rightarrow> BSocksClient \<Rightarrow> BSocksClient \<times> socks_call list" where
  "password_reply_received brealloc c =
     (if the_buffer c ! 0 \<noteq> 1 then (c, report_error BSOCKSCLIENT_EVENT_ERROR)
      else if the_buffer c ! 1 \<noteq> 0 then (c, report_error BSOCKSCLIENT_EVENT_ERROR)
      else auth_finished brealloc c)"

definition reply_received :: "BSocksClient \<Rightarrow> BSocksClient \<times> socks_call list" where
  "reply_received c =
     (c\<lparr>sbuffer := None, sstate := STATE_UP\<rparr>,
      [Buffer_free] @ free_control_io @ init_up_io @ [Handler BSOCKSCLIENT_EVENT_UP])"

definition recv_handler_done :: "reallocator \<Rightarrow> BSocksClient \<Rightarrow> nat \<Rightarrow> BSocksClient \<times> socks_call list" where
  "recv_handler_done brealloc c data_len =
     (let c1 = c\<lparr>recv_len := recv_len c + data_len\<rparr> in
      if recv_len c1 < recv_total c1 then (c1, do_receive c1)
      else case sstate c1 of
        STATE_SENT_HELLO \<Rightarrow> hello_received brealloc c1
      | STATE_SENT_REQUEST \<Rightarrow> reply_header_received c1
      | STATE_SENT_PASSWORD \<Rightarrow> password_reply_received brealloc c1
      | STATE_RECEIVED_REPLY_HEADER \<Rightarrow> reply_received c1
      | _ \<Rightarrow> (c1, []))"

text \<open>Reserving a buffer of a size and receiving the first part of it, for the three messages.\<close>

definition expect_reply :: "reallocator \<Rightarrow> BSocksClient \<Rightarrow> 32 bsize_t \<Rightarrow> nat \<Rightarrow> socks_state \<Rightarrow> BSocksClient \<times> socks_call list" where
  "expect_reply brealloc c sz tot s =
     (case reserve_buffer brealloc c sz of
        None \<Rightarrow> (c, report_error BSOCKSCLIENT_EVENT_ERROR)
      | Some c1 \<Rightarrow> (case start_receive c1 0 tot of (c2, calls) \<Rightarrow> (c2\<lparr>sstate := s\<rparr>, Realloc # calls)))"

definition send_handler_done :: "reallocator \<Rightarrow> BSocksClient \<Rightarrow> BSocksClient \<times> socks_call list" where
  "send_handler_done brealloc c =
     (case sstate c of
        STATE_SENDING_HELLO \<Rightarrow> expect_reply brealloc c (bsize_fromsize 2) 2 STATE_SENT_HELLO
      | STATE_SENDING_REQUEST \<Rightarrow>
          expect_reply brealloc c (bsize_add (bsize_fromsize 4) (bsize_max (bsize_fromsize 6) (bsize_fromsize 18))) 4
            STATE_SENT_REQUEST
      | STATE_SENDING_PASSWORD \<Rightarrow> expect_reply brealloc c (bsize_fromsize 2) 2 STATE_SENT_PASSWORD
      | _ \<Rightarrow> (c, []))"

definition BSocksClient_Init ::
  "bool \<Rightarrow> BSocksClient_auth_info list \<Rightarrow> BAddr \<Rightarrow> (BSocksClient \<times> socks_call list) option" where
  "BSocksClient_Init connector_init ai dest =
     (if \<not> connector_init then None
      else Some (\<lparr>auth_info = ai, dest_addr = dest, sstate = STATE_CONNECTING, sbuffer = None,
                  recv_dest = 0, recv_len = 0, recv_total = 0\<rparr>, [Connector_init]))"

definition BSocksClient_Free :: "BSocksClient \<Rightarrow> socks_call list" where
  "BSocksClient_Free c =
     (if sstate c \<noteq> STATE_CONNECTING then
        (if sstate c = STATE_UP then free_up_io else free_control_io) @ [Con_free] else []) @
     [Connector_free] @ (if sbuffer c \<noteq> None then [Buffer_free] else [])"

section \<open>The exchange as a function of what the server sent\<close>

text \<open>The bytes the client is to send, and whether it waits, has failed or is up, after the given bytes from
  the server.  This is the exchange of RFC 1928 and RFC 1929 with two limits of this client: it fails when
  its user name or password is none RFC 1929 has a message for, and when the bound address of a positive reply is a
  domain name.  \<open>rfc_spec\<close> below is the exchange without them.\<close>

datatype verdict = Waiting | Failed | Up

definition hello :: "BSocksClient_auth_info list \<Rightarrow> bytes" where
  "hello ai = 5 # of_nat (length ai) # map (word_of_int \<circ> auth_type) ai"

definition credentials :: "BSocksClient_auth_info \<Rightarrow> bytes" where
  "credentials a = [1, of_nat (length (username a))] @ username a @ [of_nat (length (password a))] @ password a"

definition good_credentials :: "BSocksClient_auth_info \<Rightarrow> bool" where
  "good_credentials a = (length (username a) \<in> {1..255} \<and> length (password a) \<in> {1..255})"

fun request :: "BAddr \<Rightarrow> bytes" where
  "request (BAddr_IPv4 ip port) = [5, 1, 0, 1] @ mem32 ip @ mem16 port"
| "request (BAddr_IPv6 ip port) = [5, 1, 0, 4] @ ip @ mem16 port"
| "request _ = []"

fun addr_len :: "u8 \<Rightarrow> nat option" where
  "addr_len atyp = (if atyp = 1 then Some 6 else if atyp = 4 then Some 18 else None)"

declare addr_len.simps [simp del]

fun spec_reply :: "bytes \<Rightarrow> verdict" where
  "spec_reply (ver # rep # rsv # atyp # bound) =
     (if ver \<noteq> 5 \<or> rep \<noteq> 0 then Failed
      else case addr_len atyp of None \<Rightarrow> Failed | Some n \<Rightarrow> if length bound = n then Up else Waiting)"
| "spec_reply _ = Waiting"

fun spec_password :: "bytes \<Rightarrow> BAddr \<Rightarrow> bytes \<Rightarrow> bytes \<times> verdict" where
  "spec_password sent dest (ver # status # rest) =
     (if ver \<noteq> 1 \<or> status \<noteq> 0 then (sent, Failed) else (sent @ request dest, spec_reply rest))"
| "spec_password sent dest _ = (sent, Waiting)"

fun socks_spec :: "BSocksClient_auth_info list \<Rightarrow> BAddr \<Rightarrow> bytes \<Rightarrow> bytes \<times> verdict" where
  "socks_spec ai dest (ver # m # rest) =
     (if ver \<noteq> 5 then (hello ai, Failed)
      else case List.find (\<lambda>a. auth_type a = uint m) ai of
        None \<Rightarrow> (hello ai, Failed)
      | Some a \<Rightarrow>
          if auth_type a = 0 then (hello ai @ request dest, spec_reply rest)
          else if \<not> good_credentials a then (hello ai, Failed)
          else spec_password (hello ai @ credentials a) dest rest)"
| "socks_spec ai dest _ = (hello ai, Waiting)"

section \<open>Messages\<close>

lemma ton8 [simp]: "hton8 x = x" "ntoh8 x = x"
  by (simp_all add: hton8_def ntoh8_def)

lemma reserve_abs:
  "bsize_abs sz = Some n \<Longrightarrow>
    reserve_buffer r c sz = (case r (sbuffer c) n of None \<Rightarrow> None | Some b \<Rightarrow> Some (c\<lparr>sbuffer := Some b\<rparr>))"
  by (simp add: reserve_buffer_def bsize_abs_def split: if_splits)

lemma bsize_abs_value: "bsize_abs sz = Some n \<Longrightarrow> unat (bvalue sz) = n"
  by (simp add: bsize_abs_def split: if_splits)

lemma unat_small: "n < 2 ^ 32 \<Longrightarrow> unat (of_nat n :: 32 word) = n"
  by (simp add: unsigned_of_nat take_bit_nat_eq_self)

lemma hello_size:
  "n \<le> 255 \<Longrightarrow> bsize_abs (bsize_add (bsize_fromsize 2) (bsize_mul (bsize_fromsize (of_nat n)) (bsize_fromsize 1)) :: 32 bsize_t) = Some (2 + n)"
  by (simp add: bsize_add_abs bsize_mul_abs bsize_fromsize_abs checked_def unat_small)

lemma fixed_sizes:
  "bsize_abs (bsize_fromsize 2 :: 32 bsize_t) = Some 2"
  "bsize_abs (bsize_add (bsize_fromsize 4) (bsize_fromsize 6) :: 32 bsize_t) = Some 10"
  "bsize_abs (bsize_add (bsize_fromsize 4) (bsize_fromsize 18) :: 32 bsize_t) = Some 22"
  "bsize_abs (bsize_add (bsize_fromsize 4) (bsize_max (bsize_fromsize 6) (bsize_fromsize 18)) :: 32 bsize_t) = Some 22"
  by (simp_all add: bsize_add_abs bsize_max_abs bsize_fromsize_abs checked_def)

lemma credentials_size:
  assumes "u \<le> 255" "p \<le> 255"
  shows "bsize_abs (bsize_fromsize (1 + 1 + of_nat u + 1 + of_nat p) :: 32 bsize_t) = Some (3 + u + p)"
proof -
  have "(1 + 1 + of_nat u + 1 + of_nat p :: 32 word) = of_nat (3 + u + p)"
    by simp
  then show ?thesis
    unfolding bsize_fromsize_abs using assms unat_small [of "3 + u + p"] by simp
qed

lemma write_methods_eq:
  "length buf = 2 + i + length ai \<Longrightarrow> write_methods i ai buf = take (2 + i) buf @ map (word_of_int \<circ> auth_type) ai"
proof (induction ai arbitrary: i buf)
  case (Cons a ai)
  have "length (put [word_of_int (auth_type a)] (2 + i) buf) = 2 + (i + 1) + length ai"
    using Cons.prems by simp
  note IH = Cons.IH [OF this]
  show ?case
    using Cons.prems IH by (simp add: put_def take_Suc_conv_app_nth)
qed simp

lemma hello_written:
  assumes "length buf = 2 + length ai"
  shows "write_methods 0 ai (put [5, of_nat (length ai)] 0 buf) = hello ai"
  using assms by (subst write_methods_eq) (simp_all add: put_def hello_def)

lemma put_0: "length xs = length buf \<Longrightarrow> put xs 0 buf = xs"
  by (simp add: put_def)

lemma put_front: "length xs = 4 \<Longrightarrow> length buf = 4 + length ys \<Longrightarrow> put xs 0 (put ys 4 buf) = xs @ ys"
  by (simp add: put_def)

lemma credentials_written:
  assumes "length buf = 3 + length u + length p"
  shows "put p (2 + length u + 1) (put [y] (2 + length u) (put u 2 (put [x] 1 (put [1] 0 buf)))) = [1, x] @ u @ [y] @ p"
  using assms by (auto simp: put_def nth_append intro!: nth_equalityI split: if_splits)

section \<open>Runs\<close>

text \<open>An object that reported an error is only freed.  In a run without faults the connection is made
  and kept, and there is always memory.\<close>

definition alive :: "socks_call list \<Rightarrow> bool" where
  "alive calls = (Handler BSOCKSCLIENT_EVENT_ERROR \<notin> set calls \<and> Handler BSOCKSCLIENT_EVENT_ERROR_CLOSED \<notin> set calls)"

definition realloc_ok :: "bool \<Rightarrow> reallocator \<Rightarrow> bool" where
  "realloc_ok faults r = ((\<forall>m n a. r m n = Some a \<longrightarrow> length a = n) \<and> (faults \<or> (\<forall>m n. r m n \<noteq> None)))"

definition sending :: "socks_state \<Rightarrow> bool" where
  "sending s = (s \<in> {STATE_SENDING_HELLO, STATE_SENDING_PASSWORD, STATE_SENDING_REQUEST})"

definition receiving :: "socks_state \<Rightarrow> bool" where
  "receiving s = (s \<in> {STATE_SENT_HELLO, STATE_SENT_PASSWORD, STATE_SENT_REQUEST, STATE_RECEIVED_REPLY_HEADER})"

text \<open>The stream writes what arrives at the place it was asked for.\<close>

definition socks_receive :: "reallocator \<Rightarrow> BSocksClient \<Rightarrow> bytes \<Rightarrow> BSocksClient \<times> socks_call list" where
  "socks_receive r c data =
     recv_handler_done r (c\<lparr>sbuffer := Some (put data (recv_dest c + recv_len c) (the_buffer c))\<rparr>) (length data)"

inductive socks_run ::
  "bool \<Rightarrow> BSocksClient_auth_info list \<Rightarrow> BAddr \<Rightarrow> BSocksClient \<Rightarrow> socks_call list \<Rightarrow> bytes \<Rightarrow> bool" for faults ai dest where
  run_init: "BSocksClient_Init True ai dest = Some (c, calls) \<Longrightarrow> socks_run faults ai dest c calls []"
| run_connect: "socks_run faults ai dest c calls xs \<Longrightarrow> alive calls \<Longrightarrow> sstate c = STATE_CONNECTING \<Longrightarrow> realloc_ok faults r \<Longrightarrow>
    faults \<or> con \<and> \<not> is_error \<Longrightarrow> connector_handler r con c is_error = (c', calls') \<Longrightarrow>
    socks_run faults ai dest c' (calls @ calls') xs"
| run_sent: "socks_run faults ai dest c calls xs \<Longrightarrow> alive calls \<Longrightarrow> sending (sstate c) \<Longrightarrow> realloc_ok faults r \<Longrightarrow>
    send_handler_done r c = (c', calls') \<Longrightarrow> socks_run faults ai dest c' (calls @ calls') xs"
| run_recv: "socks_run faults ai dest c calls xs \<Longrightarrow> alive calls \<Longrightarrow> receiving (sstate c) \<Longrightarrow> realloc_ok faults r \<Longrightarrow>
    data \<noteq> [] \<Longrightarrow> length data \<le> recv_total c - recv_len c \<Longrightarrow> socks_receive r c data = (c', calls') \<Longrightarrow>
    socks_run faults ai dest c' (calls @ calls') (xs @ data)"
| run_event: "socks_run faults ai dest c calls xs \<Longrightarrow> alive calls \<Longrightarrow> faults \<Longrightarrow> sstate c \<noteq> STATE_CONNECTING \<Longrightarrow>
    connection_handler c closed = calls' \<Longrightarrow> socks_run faults ai dest c (calls @ calls') xs"

fun sent :: "socks_call list \<Rightarrow> bytes" where
  "sent [] = []"
| "sent (Send data # calls) = data @ sent calls"
| "sent (_ # calls) = sent calls"

lemma sent_append [simp]: "sent (xs @ ys) = sent xs @ sent ys"
  by (induction xs rule: sent.induct) auto

lemma alive_append [simp]: "alive (xs @ ys) \<longleftrightarrow> alive xs \<and> alive ys"
  by (auto simp: alive_def)

lemma alive_Cons [simp]: "alive (x # ys) \<longleftrightarrow> x \<noteq> Handler BSOCKSCLIENT_EVENT_ERROR \<and> x \<noteq> Handler BSOCKSCLIENT_EVENT_ERROR_CLOSED \<and> alive ys"
  "alive []"
  by (auto simp: alive_def)

lemmas io_defs = report_error_def init_control_io_def free_control_io_def init_up_io_def free_up_io_def do_receive_def

subsection \<open>What is received\<close>

text \<open>A message of the given length is being received at a place of the buffer, and \<open>ys\<close> has arrived.\<close>

definition expects :: "BSocksClient \<Rightarrow> nat \<Rightarrow> nat \<Rightarrow> bytes \<Rightarrow> bool" where
  "expects c dest n ys = (recv_dest c = dest \<and> recv_total c = n \<and> recv_len c = length ys \<and> length ys < n \<and>
     dest + n \<le> length (the_buffer c) \<and> sbuffer c \<noteq> None \<and> mslice dest (length ys) (the_buffer c) = ys)"

lemma the_buffer_simps [simp]: "the_buffer (c\<lparr>sbuffer := Some b\<rparr>) = b" "the_buffer (c\<lparr>sstate := s\<rparr>) = the_buffer c"
  "the_buffer (c\<lparr>recv_len := n\<rparr>) = the_buffer c"
  by (simp_all add: the_buffer_def)

lemma slice_put_append:
  assumes "mslice d (length ys) b = ys" "d + length ys + length data \<le> length b"
  shows "mslice d (length ys + length data) (put data (d + length ys) b) = ys @ data"
proof -
  have "mslice d (length ys) (put data (d + length ys) b) = ys"
    using slice_put_other [of "d + length ys" data b d "length ys"] assms by simp
  moreover have "mslice (d + length ys) (length data) (put data (d + length ys) b) = data"
    using assms(2) by (intro slice_put_same) simp
  ultimately show ?thesis
    by (simp add: mslice_def take_add add.commute [of _ d])
qed

lemma socks_receive_eq:
  assumes "receiving (sstate c)"
    "c1 = c\<lparr>sbuffer := Some (put data (recv_dest c + recv_len c) (the_buffer c)), recv_len := recv_len c + length data\<rparr>"
  shows "socks_receive r c data = (if recv_len c1 < recv_total c1 then (c1, do_receive c1)
    else case sstate c of STATE_SENT_HELLO \<Rightarrow> hello_received r c1
      | STATE_SENT_REQUEST \<Rightarrow> reply_header_received c1
      | STATE_SENT_PASSWORD \<Rightarrow> password_reply_received r c1
      | _ \<Rightarrow> reply_received c1)"
  using assms by (cases "sstate c") (simp_all add: socks_receive_def recv_handler_done_def receiving_def Let_def cong: if_cong)

text \<open>More data either continues the message or completes it, and then the handler of the state runs on a
  buffer that holds all of it.\<close>

lemma receive_cases:
  assumes "expects c d n ys" "data \<noteq> []" "length data \<le> recv_total c - recv_len c" "socks_receive r c data = (c', calls)"
    "receiving (sstate c)"
  obtains (more) "expects c' d n (ys @ data)" "sstate c' = sstate c" "calls = [Recv (d + length (ys @ data)) (n - length (ys @ data))]"
      "auth_info c' = auth_info c" "dest_addr c' = dest_addr c" "length (the_buffer c') = length (the_buffer c)"
      "sbuffer c' \<noteq> None"
  | (complete) c1 where "length (ys @ data) = n" "mslice d n (the_buffer c1) = ys @ data"
      "length (the_buffer c1) = length (the_buffer c)" "sstate c1 = sstate c" "auth_info c1 = auth_info c"
      "dest_addr c1 = dest_addr c" "sbuffer c1 \<noteq> None"
      "(c', calls) = (case sstate c of STATE_SENT_HELLO \<Rightarrow> hello_received r c1
        | STATE_SENT_REQUEST \<Rightarrow> reply_header_received c1
        | STATE_SENT_PASSWORD \<Rightarrow> password_reply_received r c1
        | _ \<Rightarrow> reply_received c1)"
proof -
  let ?b = "put data (d + length ys) (the_buffer c)"
  define c1 where "c1 = c\<lparr>sbuffer := Some ?b, recv_len := length (ys @ data)\<rparr>"
  have e: "recv_dest c = d" "recv_total c = n" "recv_len c = length ys" "length ys < n"
    "d + n \<le> length (the_buffer c)" "mslice d (length ys) (the_buffer c) = ys"
    using assms(1) by (simp_all add: expects_def)
  have len: "length (ys @ data) \<le> n"
    using e assms(3) by simp
  have b: "the_buffer c1 = ?b" "length ?b = length (the_buffer c)" "mslice d (length (ys @ data)) ?b = ys @ data"
    using slice_put_append [OF e(6), of data] e len by (simp_all add: c1_def)
  have eq: "(c', calls) = (if length (ys @ data) < n then (c1, do_receive c1)
      else case sstate c of STATE_SENT_HELLO \<Rightarrow> hello_received r c1
        | STATE_SENT_REQUEST \<Rightarrow> reply_header_received c1
        | STATE_SENT_PASSWORD \<Rightarrow> password_reply_received r c1
        | _ \<Rightarrow> reply_received c1)"
    using assms(4) socks_receive_eq [OF assms(5), of c1 data r] e by (simp add: c1_def)
  show ?thesis
  proof (cases "length (ys @ data) < n")
    case True
    show ?thesis
      by (rule more) (use True eq b e in \<open>simp_all add: expects_def do_receive_def, simp_all add: c1_def\<close>)
  next
    case False
    show ?thesis
      by (rule complete [of c1]) (use False len eq b e in \<open>simp_all add: c1_def\<close>)
  qed
qed

section \<open>The client follows the specification\<close>

inductive authed :: "BSocksClient_auth_info list \<Rightarrow> bytes \<Rightarrow> bytes \<Rightarrow> bool" for ai where
  authed_none: "List.find (\<lambda>a. auth_type a = 0) ai = Some a \<Longrightarrow> authed ai [5, 0] (hello ai)"
| authed_password: "List.find (\<lambda>a. auth_type a = 2) ai = Some a \<Longrightarrow> good_credentials a \<Longrightarrow>
    authed ai [5, 2, 1, 0] (hello ai @ credentials a)"

lemma find_type: "List.find (\<lambda>a. auth_type a = t) ai = Some a \<Longrightarrow> auth_type a = t \<and> a \<in> set ai"
  by (auto simp: find_Some_iff)

lemma find_password: "List.find (\<lambda>a. auth_type a = 2) ai = Some a \<Longrightarrow> auth_type a = 2"
  using find_type by blast

lemma authed_spec: "authed ai pre h \<Longrightarrow> socks_spec ai dest (pre @ ys) = (h @ request dest, spec_reply ys)"
  by (induction rule: authed.induct) (auto dest: find_type)

definition replying :: "BSocksClient_auth_info list \<Rightarrow> BAddr \<Rightarrow> bytes \<Rightarrow> bytes \<Rightarrow> bytes \<Rightarrow> bool" where
  "replying ai dest xs snt ys = (\<exists>pre h. authed ai pre h \<and> xs = pre @ ys \<and> snt = h @ request dest)"

definition password_sent :: "BSocksClient_auth_info list \<Rightarrow> bytes \<Rightarrow> bool" where
  "password_sent ai snt = (\<exists>a. List.find (\<lambda>a. auth_type a = 2) ai = Some a \<and> good_credentials a \<and> snt = hello ai @ credentials a)"

text \<open>What was sent and received in each state of a live object.\<close>

definition phase :: "BSocksClient_auth_info list \<Rightarrow> BAddr \<Rightarrow> BSocksClient \<Rightarrow> bytes \<Rightarrow> bytes \<Rightarrow> bool" where
  "phase ai dest c xs snt =
     (case sstate c of
        STATE_CONNECTING \<Rightarrow> xs = [] \<and> snt = []
      | STATE_SENDING_HELLO \<Rightarrow> xs = [] \<and> snt = hello ai
      | STATE_SENT_HELLO \<Rightarrow> snt = hello ai \<and> expects c 0 2 xs
      | STATE_SENDING_PASSWORD \<Rightarrow> xs = [5, 2] \<and> password_sent ai snt
      | STATE_SENT_PASSWORD \<Rightarrow> (\<exists>ys. xs = [5, 2] @ ys \<and> expects c 0 2 ys) \<and> password_sent ai snt
      | STATE_SENDING_REQUEST \<Rightarrow> replying ai dest xs snt []
      | STATE_SENT_REQUEST \<Rightarrow> (\<exists>ys. replying ai dest xs snt ys \<and> expects c 0 4 ys) \<and> length (the_buffer c) = 22
      | STATE_RECEIVED_REPLY_HEADER \<Rightarrow>
          (\<exists>rsv atyp n ys. replying ai dest xs snt ([5, 0, rsv, atyp] @ ys) \<and> addr_len atyp = Some n \<and> expects c 4 n ys)
      | STATE_UP \<Rightarrow>
          (\<exists>rsv atyp n ys. replying ai dest xs snt ([5, 0, rsv, atyp] @ ys) \<and> addr_len atyp = Some n \<and> length ys = n))"

definition failed :: "BSocksClient_auth_info list \<Rightarrow> BAddr \<Rightarrow> BSocksClient \<Rightarrow> bytes \<Rightarrow> bytes \<Rightarrow> bool" where
  "failed ai dest c xs snt = (socks_spec ai dest xs = (snt, Failed) \<and> sstate c \<noteq> STATE_UP \<and> sstate c \<noteq> STATE_CONNECTING)"

definition asks :: "BSocksClient \<Rightarrow> socks_call list \<Rightarrow> bool" where
  "asks c calls =
     ((receiving (sstate c) \<longrightarrow> last calls = Recv (recv_dest c + recv_len c) (recv_total c - recv_len c)) \<and>
      (sending (sstate c) \<longrightarrow> (\<exists>message. last calls = Send message \<and> message \<noteq> [])) \<and>
      (sstate c = STATE_CONNECTING \<longrightarrow> last calls = Connector_init))"

lemma messages_nonempty [simp]: "hello ai \<noteq> []" "credentials a \<noteq> []" "BAddr_ip d \<Longrightarrow> request d \<noteq> []"
  by (simp_all add: hello_def credentials_def) (cases d; simp)

definition same_args :: "BSocksClient \<Rightarrow> BSocksClient \<Rightarrow> bool" where
  "same_args c c' = (auth_info c' = auth_info c \<and> dest_addr c' = dest_addr c)"

text \<open>The outcome of a step from a live object: what it sends and receives takes it to the next phase, or
  it fails for a reason the specification has, or for a fault.\<close>

definition outcome :: "bool \<Rightarrow> BSocksClient \<Rightarrow> bytes \<Rightarrow> bytes \<Rightarrow> BSocksClient \<Rightarrow> socks_call list \<Rightarrow> bool" where
  "outcome faults c xs snt c' calls =
     (same_args c c' \<and> calls \<noteq> [] \<and>
      (if alive calls then phase (auth_info c) (dest_addr c) c' xs (snt @ sent calls) \<and> asks c' calls
       else faults \<or> failed (auth_info c) (dest_addr c) c' xs (snt @ sent calls)))"

lemma realloc_cases:
  assumes "realloc_ok faults r" "bsize_abs sz = Some n"
  obtains (fault) "reserve_buffer r c sz = None" "faults"
  | (buffer) b where "reserve_buffer r c sz = Some (c\<lparr>sbuffer := Some b\<rparr>)" "length b = n"
proof (cases "r (sbuffer c) n")
  case None
  then have faults
    using assms(1) unfolding realloc_ok_def by metis
  with None assms(2) show ?thesis
    by (intro fault) (simp_all add: reserve_abs)
next
  case (Some b)
  with assms show ?thesis
    by (intro buffer [of b]) (auto simp: reserve_abs realloc_ok_def)
qed

lemma fault_outcome: "faults \<Longrightarrow> outcome faults c xs snt c [Handler BSOCKSCLIENT_EVENT_ERROR]"
  by (simp add: outcome_def same_args_def)

lemma connect_outcome:
  assumes "realloc_ok faults r" "faults \<or> con \<and> \<not> is_error" "faults \<or> length (auth_info c) \<in> {1..255}"
    "connector_handler r con c is_error = (c', calls)"
  shows "outcome faults c [] [] c' calls"
proof (cases "con \<and> \<not> is_error \<and> length (auth_info c) \<in> {1..255}")
  case False
  then consider "is_error" | "\<not> is_error" "\<not> con"
    | "\<not> is_error" "con" "length (auth_info c) = 0 \<or> length (auth_info c) > 255"
    by (auto simp: Suc_le_eq not_le)
  then have "c' = c" "\<not> alive calls" "calls \<noteq> []"
    using assms(4) by (cases; simp add: connector_handler_def io_defs Let_def; auto)+
  moreover have faults
    using False assms(2,3) by blast
  ultimately show ?thesis
    by (simp add: outcome_def same_args_def)
next
  case True
  then have n: "length (auth_info c) \<le> 255" "\<not> (length (auth_info c) = 0 \<or> length (auth_info c) > 255)" "con" "\<not> is_error"
    by auto
  from assms(1) hello_size [OF n(1)] show ?thesis
  proof (cases rule: realloc_cases [where c = c])
    case fault
    with n assms(4) have "c' = c" "\<not> alive calls" "calls \<noteq> []"
      by (auto simp: connector_handler_def io_defs Let_def)
    with fault show ?thesis
      by (simp add: outcome_def same_args_def)
  next
    case (buffer b)
    have "c' = c\<lparr>sbuffer := Some (hello (auth_info c)), sstate := STATE_SENDING_HELLO\<rparr>"
      "calls = [Con_init] @ init_control_io @ [Realloc, Send (hello (auth_info c))]"
      using n assms(4) buffer hello_written [OF buffer(2)] bsize_abs_value [OF hello_size [OF n(1)]]
      by (simp_all add: connector_handler_def Let_def hello_def)
    then show ?thesis
      by (simp add: outcome_def same_args_def phase_def io_defs asks_def sending_def receiving_def)
  qed
qed

lemma expect_reply_outcome:
  assumes "realloc_ok faults r" "bsize_abs sz = Some k" "expect_reply r c sz n s = (c', calls)" "0 < n" "n \<le> k"
  shows "c' = c \<and> faults \<and> calls = [Handler BSOCKSCLIENT_EVENT_ERROR] \<or>
    same_args c c' \<and> sstate c' = s \<and> expects c' 0 n [] \<and> length (the_buffer c') = k \<and> calls = [Realloc, Recv 0 n] \<and>
      recv_dest c' = 0 \<and> recv_len c' = 0 \<and> recv_total c' = n"
  using assms(1,2)
proof (cases rule: realloc_cases [where c = c])
  case fault
  with assms(3) show ?thesis
    by (simp add: expect_reply_def io_defs)
next
  case (buffer b)
  with assms(3-5) show ?thesis
    by (auto simp: expect_reply_def start_receive_def do_receive_def same_args_def expects_def mslice_def Let_def the_buffer_def)
qed

lemma sent_outcome:
  assumes "realloc_ok faults r" "phase (auth_info c) (dest_addr c) c xs snt" "sending (sstate c)"
    "send_handler_done r c = (c', calls)"
  shows "outcome faults c xs snt c' calls"
proof -
  consider "sstate c = STATE_SENDING_HELLO" "expect_reply r c (bsize_fromsize 2) 2 STATE_SENT_HELLO = (c', calls)"
    | "sstate c = STATE_SENDING_PASSWORD" "expect_reply r c (bsize_fromsize 2) 2 STATE_SENT_PASSWORD = (c', calls)"
    | "sstate c = STATE_SENDING_REQUEST" "expect_reply r c (bsize_add (bsize_fromsize 4)
        (bsize_max (bsize_fromsize 6) (bsize_fromsize 18))) 4 STATE_SENT_REQUEST = (c', calls)"
    using assms(3,4) by (auto simp: sending_def send_handler_done_def)
  then show ?thesis
  proof cases
    case 1
    from expect_reply_outcome [OF assms(1) fixed_sizes(1) 1(2)] assms(2) 1(1) show ?thesis
      by (auto simp: outcome_def phase_def same_args_def asks_def sending_def)
  next
    case 2
    from expect_reply_outcome [OF assms(1) fixed_sizes(1) 2(2)] assms(2) 2(1) show ?thesis
      by (auto simp: outcome_def phase_def same_args_def asks_def sending_def)
  next
    case 3
    from expect_reply_outcome [OF assms(1) fixed_sizes(4) 3(2)] assms(2) 3(1) show ?thesis
      by (auto simp: outcome_def phase_def same_args_def asks_def sending_def)
  qed
qed

lemma auth_finished_outcome:
  assumes "realloc_ok faults r" "BAddr_ip (dest_addr c)" "authed (auth_info c) xs snt" "auth_finished r c = (c', calls)"
  shows "outcome faults c xs snt c' calls"
proof -
  define sz :: "32 bsize_t" where "sz = (case dest_addr c of
      BAddr_IPv4 _ _ \<Rightarrow> bsize_add (bsize_fromsize 4) (bsize_fromsize 6)
    | BAddr_IPv6 _ _ \<Rightarrow> bsize_add (bsize_fromsize 4) (bsize_fromsize 18)
    | _ \<Rightarrow> bsize_fromsize 4)"
  have sz: "bsize_abs sz = Some (length (request (dest_addr c)))"
    using assms(2) by (cases "dest_addr c") (simp_all add: sz_def fixed_sizes mem16_eq mem32_eq)
  from assms(1) sz show ?thesis
  proof (cases rule: realloc_cases [where c = c])
    case fault
    with assms(4) show ?thesis
      using fault_outcome by (simp add: auth_finished_def sz_def [symmetric] io_defs)
  next
    case (buffer b)
    have "c' = c\<lparr>sbuffer := Some (request (dest_addr c)), sstate := STATE_SENDING_REQUEST\<rparr> \<and>
      calls = [Realloc, Send (request (dest_addr c))]"
    proof (cases "dest_addr c")
      case (BAddr_IPv4 ip port)
      with assms(4) buffer put_front [of "[5, 1, 0, 1]" b "mem32 ip @ mem16 port"] bsize_abs_value [OF sz]
      show ?thesis
        by (auto simp: auth_finished_def sz_def Let_def)
    next
      case (BAddr_IPv6 ip port)
      with assms(4) buffer put_front [of "[5, 1, 0, 4]" b "ip @ mem16 port"] bsize_abs_value [OF sz]
      show ?thesis
        by (auto simp: auth_finished_def sz_def Let_def)
    qed (use assms(2) in simp_all)
    with assms(3) messages_nonempty(3) [OF assms(2)] show ?thesis
      by (auto simp: outcome_def same_args_def phase_def asks_def sending_def receiving_def replying_def)
  qed
qed

lemma send_password_outcome:
  assumes "realloc_ok faults r" "List.find (\<lambda>a. auth_type a = 2) (auth_info c) = Some a" "send_password r c a = (c', calls)"
    "sstate c \<noteq> STATE_UP" "sstate c \<noteq> STATE_CONNECTING"
  shows "outcome faults c [5, 2] (hello (auth_info c)) c' calls"
proof (cases "good_credentials a")
  case False
  then have bad: "length (username a) = 0 \<or> length (username a) > 255 \<or> length (password a) = 0 \<or> length (password a) > 255"
    by (auto simp: good_credentials_def Suc_le_eq)
  have "c' = c" "calls = [Handler BSOCKSCLIENT_EVENT_ERROR]"
    using assms(3) bad by (auto simp: send_password_def io_defs Let_def)
  with False assms(2,4,5) find_type [OF assms(2)] show ?thesis
    by (simp add: outcome_def same_args_def failed_def)
next
  case True
  then have good: "length (username a) \<le> 255" "length (password a) \<le> 255" "length (username a) \<noteq> 0" "length (password a) \<noteq> 0"
    by (auto simp: good_credentials_def)
  note sz = credentials_size [OF good(1,2)]
  from assms(1) sz show ?thesis
  proof (cases rule: realloc_cases [where c = c])
    case fault
    with assms(3) good show ?thesis
      using fault_outcome by (simp add: send_password_def io_defs Let_def not_less [symmetric])
  next
    case (buffer b)
    have "\<not> (length (username a) = 0 \<or> length (username a) > 255 \<or> length (password a) = 0 \<or> length (password a) > 255)"
      using good by simp
    moreover have "length (credentials a) = 3 + length (username a) + length (password a)"
      by (simp add: credentials_def)
    ultimately have "c' = c\<lparr>sbuffer := Some (credentials a), sstate := STATE_SENDING_PASSWORD\<rparr> \<and>
      calls = [Realloc, Send (credentials a)]"
      using assms(3) buffer(1) bsize_abs_value [OF sz]
      by (simp add: send_password_def Let_def credentials_written [OF buffer(2), simplified] credentials_def)
    with True assms(2) show ?thesis
      by (auto simp: outcome_def same_args_def phase_def asks_def sending_def receiving_def password_sent_def)
  qed
qed

subsection \<open>Replies\<close>

lemma outcome_args: "outcome faults c1 xs snt c' calls \<Longrightarrow> same_args c c1 \<Longrightarrow> outcome faults c xs snt c' calls"
  by (auto simp: outcome_def same_args_def)

lemma slice_nth: "mslice 0 n b = zs \<Longrightarrow> n \<le> length b \<Longrightarrow> i < n \<Longrightarrow> b ! i = zs ! i"
  by (auto simp: mslice_def)

lemma fail_outcome:
  assumes "socks_spec (auth_info c) (dest_addr c) xs = (snt, Failed)" "sstate c \<noteq> STATE_UP" "sstate c \<noteq> STATE_CONNECTING"
  shows "outcome faults c xs snt c [Handler BSOCKSCLIENT_EVENT_ERROR]"
  using assms by (simp add: outcome_def same_args_def failed_def)

definition wf_args :: "BSocksClient_auth_info list \<Rightarrow> BAddr \<Rightarrow> bool" where
  "wf_args ai dest = ((\<forall>a\<in>set ai. auth_type a = 0 \<or> auth_type a = 2) \<and> BAddr_ip dest)"

lemma uint_0_2: "uint (m :: u8) = 0 \<longleftrightarrow> m = 0" "uint m = 2 \<longleftrightarrow> m = 2"
  by (simp_all add: word_uint_eq_iff)

lemma hello_received_outcome:
  assumes "realloc_ok faults r" "wf_args (auth_info c) (dest_addr c)" "the_buffer c ! 0 = v" "the_buffer c ! 1 = m"
    "sstate c = STATE_SENT_HELLO" "hello_received r c = (c', calls)"
  shows "outcome faults c [v, m] (hello (auth_info c)) c' calls"
proof -
  let ?find = "List.find (\<lambda>a. auth_type a = uint m) (auth_info c)"
  consider "v \<noteq> 5 \<or> v = 5 \<and> ?find = None" | a where "v = 5" "?find = Some a"
    by fastforce
  then show ?thesis
  proof cases
    case 1
    then have "c' = c" "calls = [Handler BSOCKSCLIENT_EVENT_ERROR]"
      using assms(3,4,6) by (elim disjE; simp add: hello_received_def io_defs Let_def)+
    moreover have "socks_spec (auth_info c) (dest_addr c) [v, m] = (hello (auth_info c), Failed)"
      using 1 by auto
    ultimately show ?thesis
      using fail_outcome assms(5) by simp
  next
    case 2
    with find_type have a: "auth_type a = uint m" "a \<in> set (auth_info c)"
      by fastforce+
    with assms(2) have "m = 0 \<or> m = 2"
      using uint_0_2 by (auto simp: wf_args_def)
    then show ?thesis
    proof
      assume m: "m = 0"
      have "auth_finished r c = (c', calls)"
        using assms(3,4,6) 2 a(1) m by (simp add: hello_received_def Let_def)
      moreover have "authed (auth_info c) [v, m] (hello (auth_info c))"
        using authed_none 2 m by simp
      ultimately show ?thesis
        using auth_finished_outcome [OF assms(1)] assms(2) by (simp add: wf_args_def)
    next
      assume m: "m = 2"
      have "send_password r c a = (c', calls)"
        using assms(3,4,6) 2 a(1) m by (simp add: hello_received_def Let_def)
      then show ?thesis
        using send_password_outcome [OF assms(1)] assms(5) 2 m by simp
    qed
  qed
qed

lemma password_reply_outcome:
  assumes "realloc_ok faults r" "wf_args (auth_info c) (dest_addr c)" "the_buffer c ! 0 = v" "the_buffer c ! 1 = t"
    "sstate c = STATE_SENT_PASSWORD" "password_sent (auth_info c) snt" "password_reply_received r c = (c', calls)"
  shows "outcome faults c [5, 2, v, t] snt c' calls"
proof -
  obtain a where a: "List.find (\<lambda>a. auth_type a = 2) (auth_info c) = Some a" "good_credentials a"
    "snt = hello (auth_info c) @ credentials a"
    using assms(6) by (auto simp: password_sent_def)
  show ?thesis
  proof (cases "v = 1 \<and> t = 0")
    case True
    then show ?thesis
      using auth_finished_outcome [OF assms(1)] authed_password [OF a(1,2)] assms(2-4,7) a(3)
      by (simp add: password_reply_received_def wf_args_def)
  next
    case False
    then have "c' = c" "calls = [Handler BSOCKSCLIENT_EVENT_ERROR]"
      using assms(3,4,7) by (auto simp: password_reply_received_def io_defs split: if_splits)
    with False fail_outcome a assms(5) find_type [OF a(1)] show ?thesis
      by simp
  qed
qed

lemma reply_header_outcome:
  assumes "replying (auth_info c) (dest_addr c) xs snt [v, rep, rsv, t]" "the_buffer c ! 0 = v" "the_buffer c ! 1 = rep"
    "the_buffer c ! 3 = t" "length (the_buffer c) = 22" "sbuffer c \<noteq> None" "sstate c = STATE_SENT_REQUEST"
    "reply_header_received c = (c', calls)"
  shows "outcome faults c xs snt c' calls"
proof (cases "v = 5 \<and> rep = 0 \<and> addr_len t \<noteq> None")
  case True
  then obtain n where n: "addr_len t = Some n" "n = 6 \<and> t = 1 \<or> n = 18 \<and> t = 4"
    by (auto simp: addr_len.simps split: if_splits)
  then have c': "c' = c\<lparr>recv_dest := 4, recv_len := 0, recv_total := n, sstate := STATE_RECEIVED_REPLY_HEADER\<rparr>"
    "calls = [Recv 4 n]"
    using assms(2-4,8) True by (auto simp: reply_header_received_def start_receive_def do_receive_def Let_def)
  have "expects c' 4 n []"
    using n(2) assms(5,6) by (auto simp: expects_def c' mslice_def the_buffer_def)
  with assms(1) True n(1) show ?thesis
    by (fastforce simp: outcome_def same_args_def phase_def asks_def sending_def c')
next
  case False
  then have "c' = c" "calls = [Handler BSOCKSCLIENT_EVENT_ERROR]"
    using assms(2-4,8) by (auto simp: reply_header_received_def io_defs Let_def addr_len.simps split: if_splits)
  moreover have "socks_spec (auth_info c) (dest_addr c) xs = (snt, Failed)"
    using assms(1) False authed_spec by (auto simp: replying_def)
  ultimately show ?thesis
    using fail_outcome assms(7) by simp
qed

lemma reply_outcome:
  assumes "replying (auth_info c) (dest_addr c) xs snt ([5, 0, rsv, t] @ ys)" "addr_len t = Some (length ys)"
    "reply_received c = (c', calls)"
  shows "outcome faults c xs snt c' calls"
  using assms by (fastforce simp: outcome_def same_args_def phase_def asks_def sending_def receiving_def reply_received_def io_defs)

lemma length_cases:
  "length zs = 2 \<Longrightarrow> \<exists>a b. zs = [a, b]" "length zs = 4 \<Longrightarrow> \<exists>a b c d. zs = [a, b, c, d]"
  by (auto simp: numeral_eq_Suc length_Suc_conv)

text \<open>A part of a message keeps the phase.\<close>

lemma more_outcome:
  assumes "phase (auth_info c) (dest_addr c) c' xs snt" "expects c' d n ys" "auth_info c' = auth_info c" "dest_addr c' = dest_addr c"
    "calls = [Recv (d + length ys) (n - length ys)]" "receiving (sstate c')"
  shows "outcome faults c xs snt c' calls"
  using assms by (auto simp: outcome_def same_args_def asks_def expects_def receiving_def sending_def)

lemma recv_hello_outcome:
  assumes "realloc_ok faults r" "phase (auth_info c) (dest_addr c) c xs snt" "receiving (sstate c)" "data \<noteq> []"
    "length data \<le> recv_total c - recv_len c" "socks_receive r c data = (c', calls)" "wf_args (auth_info c) (dest_addr c)"
    "sstate c = STATE_SENT_HELLO"
  shows "outcome faults c (xs @ data) snt c' calls"
proof -
  have p: "snt = hello (auth_info c)" "expects c 0 2 xs"
    using assms(2,8) by (simp_all add: phase_def)
  from p(2) assms(4-6,3) show ?thesis
  proof (cases rule: receive_cases)
    case more
    with assms(8) p show ?thesis
      by (intro more_outcome [OF _ more(1,4,5,3)]) (simp_all add: phase_def receiving_def)
  next
    case (complete c1)
    obtain v m where vm: "xs @ data = [v, m]"
      using length_cases(1) [OF complete(1)] by blast
    have "the_buffer c1 ! 0 = v" "the_buffer c1 ! 1 = m"
      using slice_nth [OF complete(2)] complete(3) vm p(2) by (simp_all add: expects_def)
    moreover have "hello_received r c1 = (c', calls)" "wf_args (auth_info c1) (dest_addr c1)" "sstate c1 = STATE_SENT_HELLO"
      using complete(4,5,6,8) assms(7,8) by simp_all
    ultimately have "outcome faults c1 [v, m] (hello (auth_info c1)) c' calls"
      using hello_received_outcome [OF assms(1)] by blast
    then show ?thesis
      unfolding vm p(1) complete(5) by (rule outcome_args) (simp add: same_args_def complete(5,6))
  qed
qed

lemma recv_password_outcome:
  assumes "realloc_ok faults r" "phase (auth_info c) (dest_addr c) c xs snt" "receiving (sstate c)" "data \<noteq> []"
    "length data \<le> recv_total c - recv_len c" "socks_receive r c data = (c', calls)" "wf_args (auth_info c) (dest_addr c)"
    "sstate c = STATE_SENT_PASSWORD"
  shows "outcome faults c (xs @ data) snt c' calls"
proof -
  obtain ys where p: "password_sent (auth_info c) snt" "xs = [5, 2] @ ys" "expects c 0 2 ys"
    using assms(2,8) by (auto simp: phase_def)
  from p(3) assms(4-6,3) show ?thesis
  proof (cases rule: receive_cases)
    case more
    with assms(8) p show ?thesis
      by (intro more_outcome [OF _ more(1,4,5,3)]) (auto simp: phase_def receiving_def)
  next
    case (complete c1)
    obtain v t where vt: "ys @ data = [v, t]"
      using length_cases(1) [OF complete(1)] by blast
    have "the_buffer c1 ! 0 = v" "the_buffer c1 ! 1 = t"
      using slice_nth [OF complete(2)] complete(3) vt p(3) by (simp_all add: expects_def)
    moreover have "password_reply_received r c1 = (c', calls)" "wf_args (auth_info c1) (dest_addr c1)"
      "sstate c1 = STATE_SENT_PASSWORD" "password_sent (auth_info c1) snt"
      using complete(4,5,6,8) assms(7,8) p(1) by simp_all
    ultimately have "outcome faults c1 [5, 2, v, t] snt c' calls"
      using password_reply_outcome [OF assms(1)] by blast
    then have "outcome faults c1 (xs @ data) snt c' calls"
      using p(2) vt by simp
    then show ?thesis
      by (rule outcome_args) (simp add: same_args_def complete(5,6))
  qed
qed

lemma recv_request_outcome:
  assumes "realloc_ok faults r" "phase (auth_info c) (dest_addr c) c xs snt" "receiving (sstate c)" "data \<noteq> []"
    "length data \<le> recv_total c - recv_len c" "socks_receive r c data = (c', calls)" "wf_args (auth_info c) (dest_addr c)"
    "sstate c = STATE_SENT_REQUEST"
  shows "outcome faults c (xs @ data) snt c' calls"
proof -
  obtain ys where p: "replying (auth_info c) (dest_addr c) xs snt ys" "expects c 0 4 ys" "length (the_buffer c) = 22"
    using assms(2,8) by (auto simp: phase_def)
  have p': "replying (auth_info c) (dest_addr c) (xs @ data) snt (ys @ data)"
    using p(1) by (auto simp: replying_def)
  from p(2) assms(4-6,3) show ?thesis
  proof (cases rule: receive_cases)
    case more
    with assms(8) p p' show ?thesis
      by (intro more_outcome [OF _ more(1,4,5,3)]) (auto simp: phase_def receiving_def)
  next
    case (complete c1)
    obtain v rep rsv t where vt: "ys @ data = [v, rep, rsv, t]"
      using length_cases(2) [OF complete(1)] by blast
    have buf: "the_buffer c1 ! 0 = v" "the_buffer c1 ! 1 = rep" "the_buffer c1 ! 3 = t"
      using slice_nth [OF complete(2)] complete(3) vt p(3) by simp_all
    have "replying (auth_info c1) (dest_addr c1) (xs @ data) snt [v, rep, rsv, t]"
      using p' vt complete(5,6) by simp
    moreover have "reply_header_received c1 = (c', calls)" "length (the_buffer c1) = 22" "sstate c1 = STATE_SENT_REQUEST"
      using complete(3,4,8) assms(8) p(3) by simp_all
    ultimately have "outcome faults c1 (xs @ data) snt c' calls"
      using reply_header_outcome [OF _ buf] complete(7) by blast
    then show ?thesis
      by (rule outcome_args) (simp add: same_args_def complete(5,6))
  qed
qed

lemma recv_header_outcome:
  assumes "realloc_ok faults r" "phase (auth_info c) (dest_addr c) c xs snt" "receiving (sstate c)" "data \<noteq> []"
    "length data \<le> recv_total c - recv_len c" "socks_receive r c data = (c', calls)" "wf_args (auth_info c) (dest_addr c)"
    "sstate c = STATE_RECEIVED_REPLY_HEADER"
  shows "outcome faults c (xs @ data) snt c' calls"
proof -
  obtain rsv t n ys where p: "replying (auth_info c) (dest_addr c) xs snt ([5, 0, rsv, t] @ ys)" "addr_len t = Some n"
    "expects c 4 n ys"
    using assms(2,8) by (auto simp: phase_def)
  have p': "replying (auth_info c) (dest_addr c) (xs @ data) snt ([5, 0, rsv, t] @ ys @ data)"
    using p(1) by (auto simp: replying_def)
  from p(3) assms(4-6,3) show ?thesis
  proof (cases rule: receive_cases)
    case more
    with assms(8) p p' show ?thesis
      by (intro more_outcome [OF _ more(1,4,5,3)]) (auto simp: phase_def receiving_def)
  next
    case (complete c1)
    have "reply_received c1 = (c', calls)"
      using complete(8) assms(8) by simp
    moreover have "replying (auth_info c1) (dest_addr c1) (xs @ data) snt ([5, 0, rsv, t] @ ys @ data)"
      using p' complete(5,6) by simp
    moreover have "addr_len t = Some (length (ys @ data))"
      using p(2) complete(1) by simp
    ultimately have "outcome faults c1 (xs @ data) snt c' calls"
      using reply_outcome by blast
    then show ?thesis
      by (rule outcome_args) (simp add: same_args_def complete(5,6))
  qed
qed

lemma recv_outcome:
  assumes "realloc_ok faults r" "phase (auth_info c) (dest_addr c) c xs snt" "receiving (sstate c)" "data \<noteq> []"
    "length data \<le> recv_total c - recv_len c" "socks_receive r c data = (c', calls)" "wf_args (auth_info c) (dest_addr c)"
  shows "outcome faults c (xs @ data) snt c' calls"
  using assms(3) recv_hello_outcome [OF assms] recv_password_outcome [OF assms] recv_request_outcome [OF assms]
    recv_header_outcome [OF assms]
  by (auto simp: receiving_def)

definition socks_inv :: "bool \<Rightarrow> BSocksClient_auth_info list \<Rightarrow> BAddr \<Rightarrow> BSocksClient \<Rightarrow> socks_call list \<Rightarrow> bytes \<Rightarrow> bool" where
  "socks_inv faults ai dest c calls xs =
     (auth_info c = ai \<and> dest_addr c = dest \<and>
      (if alive calls then phase ai dest c xs (sent calls) \<and> asks c calls
       else faults \<or> failed ai dest c xs (sent calls)))"

lemma outcome_inv:
  assumes "socks_inv faults ai dest c calls xs" "outcome faults c xs' (sent calls) c' calls'" "alive calls"
  shows "socks_inv faults ai dest c' (calls @ calls') xs'"
  using assms by (auto simp: socks_inv_def outcome_def same_args_def asks_def split: if_splits)

lemma socks_run_inv:
  assumes "socks_run faults ai dest c calls xs" "wf_args ai dest" "faults \<or> length ai \<in> {1..255}"
  shows "socks_inv faults ai dest c calls xs"
  using assms
proof (induction rule: socks_run.induct)
  case (run_init c calls)
  then show ?case
    by (auto simp: BSocksClient_Init_def socks_inv_def phase_def asks_def sending_def receiving_def)
next
  case (run_connect c calls xs r con is_error c' calls')
  then have inv: "socks_inv faults ai dest c calls xs"
    by blast
  then have "xs = [] \<and> sent calls = [] \<and> auth_info c = ai"
    using run_connect.hyps(2,3) by (auto simp: socks_inv_def phase_def)
  with connect_outcome [OF run_connect.hyps(4,5) _ run_connect.hyps(6)] run_connect.prems(2) show ?case
    by (intro outcome_inv [OF inv _ run_connect.hyps(2)]) simp
next
  case (run_sent c calls xs r c' calls')
  then have inv: "socks_inv faults ai dest c calls xs"
    by blast
  then show ?case
    using sent_outcome [OF run_sent.hyps(4) _ run_sent.hyps(3,5)] run_sent.hyps(2)
    by (intro outcome_inv [OF inv _ run_sent.hyps(2)]) (simp add: socks_inv_def)
next
  case (run_recv c calls xs r data c' calls')
  then have inv: "socks_inv faults ai dest c calls xs"
    by blast
  then show ?case
    using recv_outcome [OF run_recv.hyps(4) _ run_recv.hyps(3,5,6,7)] run_recv.hyps(2) run_recv.prems(1)
    by (intro outcome_inv [OF inv _ run_recv.hyps(2)]) (simp add: socks_inv_def)
next
  case (run_event c calls xs closed calls')
  then show ?case
    by (auto simp: socks_inv_def connection_handler_def io_defs)
qed

lemma spec_reply_short: "length ys < 4 \<Longrightarrow> spec_reply ys = Waiting"
  by (cases ys rule: spec_reply.cases) auto

lemma spec_password_short: "length ys < 2 \<Longrightarrow> spec_password snt dest ys = (snt, Waiting)"
  by (cases ys rule: remdups_adj.cases) auto

lemma socks_spec_short: "length xs < 2 \<Longrightarrow> socks_spec ai dest xs = (hello ai, Waiting)"
  by (cases xs rule: remdups_adj.cases) auto

lemma password_spec:
  assumes "password_sent ai snt"
  shows "socks_spec ai dest (5 # 2 # ys) = spec_password snt dest ys"
proof -
  obtain a where "List.find (\<lambda>a. auth_type a = 2) ai = Some a" "good_credentials a" "snt = hello ai @ credentials a"
    using assms by (auto simp: password_sent_def)
  then show ?thesis
    using find_password by force
qed

lemma phase_spec:
  assumes "phase ai dest c xs snt" "sstate c \<noteq> STATE_CONNECTING"
  shows "socks_spec ai dest xs = (snt, if sstate c = STATE_UP then Up else Waiting)"
  using assms
  by (cases "sstate c")
    (auto simp: phase_def expects_def replying_def password_spec authed_spec spec_reply_short spec_password_short
      socks_spec_short authed_spec [where ys = "[]", simplified] simp del: socks_spec.simps)

lemma run_follows_spec:
  assumes "socks_run False ai dest c calls xs" "wf_args ai dest" "length ai \<in> {1..255}" "sstate c \<noteq> STATE_CONNECTING"
  shows "sent calls = fst (socks_spec ai dest xs)" "sstate c = STATE_UP \<longleftrightarrow> snd (socks_spec ai dest xs) = Up"
    "alive calls \<longleftrightarrow> snd (socks_spec ai dest xs) \<noteq> Failed"
proof -
  have inv: "socks_inv False ai dest c calls xs"
    using socks_run_inv [OF assms(1,2)] assms(3) by simp
  have "sent calls = fst (socks_spec ai dest xs) \<and> (sstate c = STATE_UP \<longleftrightarrow> snd (socks_spec ai dest xs) = Up) \<and>
    (alive calls \<longleftrightarrow> snd (socks_spec ai dest xs) \<noteq> Failed)"
  proof (cases "alive calls")
    case True
    with inv phase_spec [OF _ assms(4), of ai dest xs "sent calls"] show ?thesis
      by (simp add: socks_inv_def)
  next
    case False
    with inv show ?thesis
      by (auto simp: socks_inv_def failed_def)
  qed
  then show "sent calls = fst (socks_spec ai dest xs)" "sstate c = STATE_UP \<longleftrightarrow> snd (socks_spec ai dest xs) = Up"
    "alive calls \<longleftrightarrow> snd (socks_spec ai dest xs) \<noteq> Failed"
    by blast+
qed

subsection \<open>The exchange of the RFCs\<close>

text \<open>The verdict on a reply, whose bound address is an IPv4 address, a domain name with its length in front, or an
  IPv6 address, followed by the port; and the exchange, in which the method chosen is the first offered with its
  number.\<close>

definition complete :: "nat \<Rightarrow> bytes \<Rightarrow> verdict" where
  "complete n bound = (if length bound = n then Up else Waiting)"

fun rfc_reply :: "bytes \<Rightarrow> verdict" where
  "rfc_reply (ver # rep # rsv # atyp # bound) =
     (if ver \<noteq> 5 \<or> rep \<noteq> 0 then Failed
      else if atyp = 1 then complete 6 bound
      else if atyp = 3 then (case bound of [] \<Rightarrow> Waiting | n # _ \<Rightarrow> complete (1 + unat n + 2) bound)
      else if atyp = 4 then complete 18 bound
      else Failed)"
| "rfc_reply _ = Waiting"

fun rfc_password :: "bytes \<Rightarrow> BAddr \<Rightarrow> bytes \<Rightarrow> bytes \<times> verdict" where
  "rfc_password out dest (ver # status # rest) =
     (if ver \<noteq> 1 \<or> status \<noteq> 0 then (out, Failed) else (out @ request dest, rfc_reply rest))"
| "rfc_password out dest _ = (out, Waiting)"

fun rfc_spec :: "BSocksClient_auth_info list \<Rightarrow> BAddr \<Rightarrow> bytes \<Rightarrow> bytes \<times> verdict" where
  "rfc_spec ai dest (ver # m # rest) =
     (if ver \<noteq> 5 then (hello ai, Failed)
      else case List.find (\<lambda>a. auth_type a = uint m) ai of
        None \<Rightarrow> (hello ai, Failed)
      | Some a \<Rightarrow>
          if auth_type a = 0 then (hello ai @ request dest, rfc_reply rest)
          else rfc_password (hello ai @ credentials a) dest rest)"
| "rfc_spec ai dest _ = (hello ai, Waiting)"

text \<open>The server chose user name and password, and RFC 1929 has no message for them.\<close>

fun bad_credentials :: "BSocksClient_auth_info list \<Rightarrow> bytes \<Rightarrow> bool" where
  "bad_credentials ai (ver # m # rest) \<longleftrightarrow>
     ver = 5 \<and> (case List.find (\<lambda>a. auth_type a = uint m) ai of None \<Rightarrow> False | Some a \<Rightarrow> auth_type a \<noteq> 0 \<and> \<not> good_credentials a)"
| "bad_credentials ai _ \<longleftrightarrow> False"

text \<open>The server's positive reply, of which the first four bytes have come, has a domain name.\<close>

fun domain_header :: "bytes \<Rightarrow> bool" where
  "domain_header (ver # rep # rsv # atyp # bound) \<longleftrightarrow> ver = 5 \<and> rep = 0 \<and> atyp = 3"
| "domain_header _ \<longleftrightarrow> False"

fun domain_password :: "bytes \<Rightarrow> bool" where
  "domain_password (ver # status # rest) \<longleftrightarrow> ver = 1 \<and> status = 0 \<and> domain_header rest"
| "domain_password _ \<longleftrightarrow> False"

fun domain_reply :: "BSocksClient_auth_info list \<Rightarrow> bytes \<Rightarrow> bool" where
  "domain_reply ai (ver # m # rest) \<longleftrightarrow>
     ver = 5 \<and> (case List.find (\<lambda>a. auth_type a = uint m) ai of
        None \<Rightarrow> False | Some a \<Rightarrow> if auth_type a = 0 then domain_header rest else domain_password rest)"
| "domain_reply ai _ \<longleftrightarrow> False"

lemma spec_reply_rfc: "spec_reply ys = (if domain_header ys then Failed else rfc_reply ys)"
  by (cases ys rule: spec_reply.cases) (auto simp: addr_len.simps complete_def)

lemma spec_password_rfc:
  "spec_password snt dest ys = (fst (rfc_password snt dest ys), if domain_password ys then Failed else snd (rfc_password snt dest ys))"
  by (cases ys rule: remdups_adj.cases) (auto simp: spec_reply_rfc)

lemma socks_spec_rfc:
  "socks_spec ai dest xs =
    (if bad_credentials ai xs then (hello ai, Failed)
     else (fst (rfc_spec ai dest xs), if domain_reply ai xs then Failed else snd (rfc_spec ai dest xs)))"
  by (cases xs rule: remdups_adj.cases) (auto simp: spec_reply_rfc spec_password_rfc split: option.splits)

text \<open>C13. In a run without faults, whatever pieces the server's bytes arrive in, the client has at every moment sent exactly what
  RFC 1928 and RFC 1929 demand after the bytes received so far, and it is up exactly when they are a complete
  positive reply, of which nothing more has been taken from the stream, with two exceptions. If the
  server chooses user name and password and one of the client's is empty or longer than 255 bytes, it sends nothing
  more and reports an error; and it reports an error when a positive reply has a domain name as its bound
  address. Otherwise it has reported an error exactly when the server's bytes refuse the request or are none the RFCs allow.\<close>

theorem SocksClient_follows_protocol:
  assumes "socks_run False ai dest c calls xs" "wf_args ai dest" "length ai \<in> {1..255}" "sstate c \<noteq> STATE_CONNECTING"
  shows "sent calls = (if bad_credentials ai xs then hello ai else fst (rfc_spec ai dest xs)) \<and>
    (sstate c = STATE_UP \<longleftrightarrow> snd (rfc_spec ai dest xs) = Up \<and> \<not> bad_credentials ai xs \<and> \<not> domain_reply ai xs) \<and>
    (alive calls \<longleftrightarrow> snd (rfc_spec ai dest xs) \<noteq> Failed \<and> \<not> bad_credentials ai xs \<and> \<not> domain_reply ai xs)"
  using run_follows_spec [OF assms] by (simp add: socks_spec_rfc split: if_splits)

definition sample_auth :: "BSocksClient_auth_info list" where
  "sample_auth = [BSocksClient_auth_none]"

definition sample_client :: BSocksClient where
  "sample_client = \<lparr>auth_info = sample_auth, dest_addr = BAddr_IPv4 0 0, sstate = STATE_CONNECTING, sbuffer = None,
     recv_dest = 0, recv_len = 0, recv_total = 0\<rparr>"

abbreviation sample_realloc :: reallocator where
  "sample_realloc \<equiv> \<lambda>_ n. Some (replicate n 0)"

lemma sample_wf: "wf_args sample_auth (BAddr_IPv4 0 0)" "length sample_auth \<in> {1..255}"
  by (simp_all add: wf_args_def sample_auth_def BSocksClient_auth_none_def)

lemma sample_connected:
  "connector_handler sample_realloc True sample_client False =
    (sample_client\<lparr>sbuffer := Some [5, 1, 0], sstate := STATE_SENDING_HELLO\<rparr>,
     [Con_init, RecvAsync_init, SendAsync_init, Sender_init, Realloc, Send [5, 1, 0]])"
proof -
  have "bsize_abs (bsize_add (bsize_fromsize 2) (bsize_mul (bsize_fromsize 1) (bsize_fromsize 1)) :: 32 bsize_t) = Some 3"
    using hello_size [of 1] by simp
  then show ?thesis
    by (simp add: connector_handler_def sample_client_def sample_auth_def BSocksClient_auth_none_def io_defs Let_def reserve_abs
      bsize_abs_value put_def the_buffer_def numeral_eq_Suc)
qed

lemma sample_socks_run:
  "socks_run False sample_auth (BAddr_IPv4 0 0) (fst (connector_handler sample_realloc True sample_client False))
    ([Connector_init] @ snd (connector_handler sample_realloc True sample_client False)) []"
proof (rule run_connect)
  show "socks_run False sample_auth (BAddr_IPv4 0 0) sample_client [Connector_init] []"
    by (rule run_init) (simp add: BSocksClient_Init_def sample_client_def)
  show "sstate sample_client = STATE_CONNECTING" "realloc_ok False sample_realloc"
    by (simp_all add: sample_client_def realloc_ok_def)
qed simp_all

theorem SocksClient_follows_protocol_witness:
  "sent ([Connector_init] @ snd (connector_handler sample_realloc True sample_client False)) =
     fst (rfc_spec sample_auth (BAddr_IPv4 0 0) []) \<and> hello sample_auth = [5, 1, 0]"
  using SocksClient_follows_protocol [OF sample_socks_run sample_wf]
  by (simp add: sample_connected hello_def sample_auth_def BSocksClient_auth_none_def)

text \<open>C24. Also with faults at any place, the client asks the stream for at least one byte, and never for more than
  its buffer has room for.\<close>

theorem SocksClient_receives_within_buffer:
  assumes "socks_run faults ai dest c calls xs" "wf_args ai dest" "faults \<or> length ai \<in> {1..255}" "alive calls" "receiving (sstate c)"
  shows "\<exists>off n. last calls = Recv off n \<and> 0 < n \<and> off + n \<le> length (the_buffer c)"
proof -
  have "phase ai dest c xs (sent calls)" "asks c calls"
    using socks_run_inv [OF assms(1-3)] assms(4) by (simp_all add: socks_inv_def)
  with assms(5) show ?thesis
    by (cases "sstate c") (auto simp: phase_def expects_def asks_def sending_def receiving_def)
qed

theorem SocksClient_receives_within_buffer_witness:
  "let (c, calls) = send_handler_done sample_realloc (fst (connector_handler sample_realloc True sample_client False))
   in \<exists>off n. last calls = Recv off n \<and> 0 < n \<and> off + n \<le> length (the_buffer c)"
proof -
  let ?c = "fst (connector_handler sample_realloc True sample_client False)"
    and ?calls = "[Connector_init] @ snd (connector_handler sample_realloc True sample_client False)"
  obtain c' calls' where step: "send_handler_done sample_realloc ?c = (c', calls')"
    by force
  have "calls' = [Realloc, Recv 0 2]" "sstate c' = STATE_SENT_HELLO"
    using step by (auto simp: sample_connected send_handler_done_def expect_reply_def start_receive_def do_receive_def
      reserve_abs [OF fixed_sizes(1)] Let_def)
  moreover have "socks_run False sample_auth (BAddr_IPv4 0 0) c' (?calls @ calls') []"
    by (rule run_sent [OF sample_socks_run _ _ _ step]) (simp_all add: sample_connected sending_def realloc_ok_def)
  ultimately show ?thesis
    using SocksClient_receives_within_buffer [of False sample_auth "BAddr_IPv4 0 0" c' "?calls @ calls'" "[]"] sample_wf step
    by (simp add: sample_connected receiving_def)
qed

section \<open>Resources\<close>

text \<open>What the object owns.  A call that takes something twice, gives back what is not owned, or uses
  something that is not there has no result.\<close>

datatype resource = R_connector | R_con | R_recv | R_send | R_sender | R_buffer

definition take_res :: "resource \<Rightarrow> resource set \<Rightarrow> resource set \<Rightarrow> resource set option" where
  "take_res x needs R = (if x \<in> R \<or> \<not> needs \<subseteq> R then None else Some (insert x R))"

definition give_res :: "resource \<Rightarrow> resource set \<Rightarrow> resource set \<Rightarrow> resource set option" where
  "give_res x users R = (if x \<notin> R \<or> users \<inter> R \<noteq> {} then None else Some (R - {x}))"

fun res_step :: "socks_call \<Rightarrow> resource set \<Rightarrow> resource set option" where
  "res_step Connector_init R = take_res R_connector {} R"
| "res_step Connector_free R = give_res R_connector {R_con} R"
| "res_step Con_init R = take_res R_con {R_connector} R"
| "res_step Con_free R = give_res R_con {R_recv, R_send} R"
| "res_step RecvAsync_init R = take_res R_recv {R_con} R"
| "res_step RecvAsync_free R = give_res R_recv {} R"
| "res_step SendAsync_init R = take_res R_send {R_con} R"
| "res_step SendAsync_free R = give_res R_send {R_sender} R"
| "res_step Sender_init R = take_res R_sender {R_send} R"
| "res_step Sender_free R = give_res R_sender {} R"
| "res_step (Send _) R = (if {R_sender, R_buffer} \<subseteq> R then Some R else None)"
| "res_step (Recv _ _) R = (if {R_recv, R_buffer} \<subseteq> R then Some R else None)"
| "res_step Realloc R = Some (insert R_buffer R)"
| "res_step Buffer_free R = give_res R_buffer {} R"
| "res_step (Handler _) R = Some R"

fun res_run :: "socks_call list \<Rightarrow> resource set \<Rightarrow> resource set option" where
  "res_run [] R = Some R"
| "res_run (x # xs) R = (case res_step x R of None \<Rightarrow> None | Some R' \<Rightarrow> res_run xs R')"

lemma res_run_append: "res_run (xs @ ys) R = (case res_run xs R of None \<Rightarrow> None | Some R' \<Rightarrow> res_run ys R')"
  by (induction xs arbitrary: R) (auto split: option.split)

definition owned :: "BSocksClient \<Rightarrow> resource set" where
  "owned c = {R_connector} \<union> (if sstate c = STATE_CONNECTING then {} else {R_con, R_recv, R_send}) \<union>
     (if sstate c = STATE_CONNECTING \<or> sstate c = STATE_UP then {} else {R_sender}) \<union>
     (if sbuffer c = None then {} else {R_buffer})"

definition buffered :: "BSocksClient \<Rightarrow> bool" where
  "buffered c = (sbuffer c \<noteq> None \<or> sstate c = STATE_CONNECTING \<or> sstate c = STATE_UP)"

lemmas res_defs = take_res_def give_res_def owned_def buffered_def io_defs

lemma reserve_owned: "reserve_buffer r c sz = Some c1 \<Longrightarrow> sstate c1 = sstate c \<and> sbuffer c1 \<noteq> None"
  by (auto simp: reserve_buffer_def split: if_splits option.splits)

lemma connect_owned:
  assumes "connector_handler r con c is_error = (c', calls)" "sstate c = STATE_CONNECTING"
  shows "res_run calls (owned c) = Some (owned c')" "buffered c'"
  using assms
  by (auto simp: connector_handler_def Let_def res_defs dest: reserve_owned split: if_splits option.splits)

lemma auth_finished_owned:
  assumes "auth_finished r c = (c', calls)" "sstate c \<noteq> STATE_CONNECTING" "sstate c \<noteq> STATE_UP" "sbuffer c \<noteq> None"
  shows "res_run calls (owned c) = Some (owned c')" "buffered c'"
  using assms
  by (auto simp: auth_finished_def Let_def res_defs insert_absorb dest: reserve_owned split: if_splits option.splits BAddr.splits)

lemma send_password_owned:
  assumes "send_password r c a = (c', calls)" "sstate c \<noteq> STATE_CONNECTING" "sstate c \<noteq> STATE_UP" "sbuffer c \<noteq> None"
  shows "res_run calls (owned c) = Some (owned c')" "buffered c'"
  using assms
  by (auto simp: send_password_def Let_def res_defs insert_absorb dest: reserve_owned split: if_splits option.splits)

lemma hello_received_owned:
  assumes "hello_received r c = (c', calls)" "sstate c = STATE_SENT_HELLO" "sbuffer c \<noteq> None"
  shows "res_run calls (owned c) = Some (owned c')" "buffered c'"
proof -
  have "auth_finished r c = (c', calls) \<or> (\<exists>a. send_password r c a = (c', calls)) \<or>
    c' = c \<and> (calls = [Handler BSOCKSCLIENT_EVENT_ERROR] \<or> calls = [])"
    using assms(1) by (auto simp: hello_received_def Let_def io_defs split: if_splits option.splits)
  then show "res_run calls (owned c) = Some (owned c')" "buffered c'"
    using auth_finished_owned [of r c c' calls] send_password_owned [of r c _ c' calls] assms(2,3) by (auto simp: buffered_def)
qed

lemma recv_owned:
  assumes "socks_receive r c data = (c', calls)" "receiving (sstate c)" "buffered c"
  shows "res_run calls (owned c) = Some (owned c')" "buffered c'"
proof -
  define c1 where "c1 = c\<lparr>sbuffer := Some (put data (recv_dest c + recv_len c) (the_buffer c)), recv_len := recv_len c + length data\<rparr>"
  have c1: "sstate c1 = sstate c" "sbuffer c1 \<noteq> None" "owned c1 = owned c" "buffered c1"
    using assms(2,3) by (auto simp: c1_def owned_def buffered_def receiving_def)
  consider "c' = c1" "calls = do_receive c1" | "hello_received r c1 = (c', calls)" "sstate c = STATE_SENT_HELLO"
    | "reply_header_received c1 = (c', calls)" "sstate c = STATE_SENT_REQUEST"
    | "password_reply_received r c1 = (c', calls)" "sstate c = STATE_SENT_PASSWORD"
    | "reply_received c1 = (c', calls)" "sstate c = STATE_RECEIVED_REPLY_HEADER"
    using assms(1,2) unfolding socks_receive_eq [OF assms(2) c1_def] receiving_def
    by (cases "recv_len c1 < recv_total c1"; cases "sstate c"; simp)
  then have "res_run calls (owned c1) = Some (owned c') \<and> buffered c'"
  proof cases
    case 1
    with c1(1,2) assms(2) show ?thesis
      by (auto simp: res_defs receiving_def)
  next
    case 2
    with hello_received_owned [OF 2(1)] c1 show ?thesis
      by simp
  next
    case 3
    with c1 show ?thesis
      by (auto simp: reply_header_received_def start_receive_def Let_def res_defs split: if_splits)
  next
    case 4
    with c1 auth_finished_owned [of r c1 c' calls] show ?thesis
      by (auto simp: password_reply_received_def buffered_def io_defs split: if_splits)
  next
    case 5
    with c1(1,2) show ?thesis
      by (auto simp: reply_received_def res_defs)
  qed
  then show "res_run calls (owned c) = Some (owned c')" "buffered c'"
    by (simp_all add: c1(3))
qed

lemma expect_reply_owned:
  assumes "expect_reply r c sz n s = (c', calls)" "sstate c \<noteq> STATE_CONNECTING" "sstate c \<noteq> STATE_UP" "sbuffer c \<noteq> None"
    "s \<noteq> STATE_CONNECTING" "s \<noteq> STATE_UP"
  shows "res_run calls (owned c) = Some (owned c') \<and> buffered c'"
proof (cases "reserve_buffer r c sz")
  case None
  with assms show ?thesis
    by (auto simp: expect_reply_def io_defs buffered_def)
next
  case (Some c1)
  then have "c' = c1\<lparr>recv_dest := 0, recv_len := 0, recv_total := n, sstate := s\<rparr>" "calls = [Realloc, Recv 0 n]"
    using assms(1) by (simp_all add: expect_reply_def start_receive_def do_receive_def Let_def)
  with assms reserve_owned [OF Some] show ?thesis
    by (auto simp: owned_def buffered_def)
qed

lemma send_done_owned:
  assumes "send_handler_done r c = (c', calls)" "sending (sstate c)" "buffered c"
  shows "res_run calls (owned c) = Some (owned c') \<and> buffered c'"
proof -
  have "sstate c \<noteq> STATE_CONNECTING" "sstate c \<noteq> STATE_UP" "sbuffer c \<noteq> None"
    using assms(2,3) by (auto simp: sending_def buffered_def)
  moreover obtain sz n s where "expect_reply r c sz n s = (c', calls)" "s \<noteq> STATE_CONNECTING" "s \<noteq> STATE_UP"
    using assms(1,2) by (auto simp: send_handler_done_def sending_def)
  ultimately show ?thesis
    using expect_reply_owned by blast
qed

lemma socks_run_owned:
  assumes "socks_run faults ai dest c calls xs"
  shows "res_run calls {} = Some (owned c) \<and> buffered c"
  using assms
proof (induction rule: socks_run.induct)
  case (run_init c calls)
  then show ?case
    by (auto simp: BSocksClient_Init_def res_defs)
next
  case (run_event c calls xs closed calls')
  then show ?case
    by (auto simp: connection_handler_def io_defs res_run_append)
qed (auto simp: res_run_append connect_owned send_done_owned recv_owned)

lemma free_owned:
  assumes "buffered c"
  shows "res_run (BSocksClient_Free c) (owned c) = Some {}"
  by (auto simp: BSocksClient_Free_def res_defs)

text \<open>C16. At whatever moment the client is freed, after an error in any state, with memory or the connection failing
  at any place, or when it is up: everything it took is given back exactly once and in order, no interface
  is given back while something uses it, and nothing was used before it was there.\<close>

theorem SocksClient_resources:
  assumes "socks_run faults ai dest c calls xs"
  shows "res_run calls {} = Some (owned c) \<and> res_run (calls @ BSocksClient_Free c) {} = Some {}"
  using socks_run_owned [OF assms] free_owned by (simp add: res_run_append)

theorem SocksClient_resources_witness:
  "res_run (([Connector_init] @ snd (connector_handler sample_realloc True sample_client False)) @
     BSocksClient_Free (fst (connector_handler sample_realloc True sample_client False))) {} = Some {}"
  using SocksClient_resources [OF sample_socks_run] by simp

section \<open>Coming up\<close>

lemma spec_reply_prefix: "spec_reply (ys @ zs) = Up \<Longrightarrow> zs \<noteq> [] \<Longrightarrow> spec_reply ys = Waiting"
  by (cases ys rule: spec_reply.cases) (auto split: if_splits option.splits)

lemma spec_password_prefix:
  "spec_password snt dest (ys @ zs) = (out, Up) \<Longrightarrow> zs \<noteq> [] \<Longrightarrow> snd (spec_password snt dest ys) = Waiting"
  by (cases ys rule: remdups_adj.cases) (auto split: if_splits dest: spec_reply_prefix)

lemma socks_spec_prefix:
  "socks_spec ai dest (ys @ zs) = (out, Up) \<Longrightarrow> zs \<noteq> [] \<Longrightarrow> snd (socks_spec ai dest ys) = Waiting"
  by (cases ys rule: remdups_adj.cases)
    (auto split: if_splits option.splits dest: spec_reply_prefix spec_password_prefix)

lemma send_done_receiving:
  assumes "realloc_ok False r" "sending (sstate c)" "send_handler_done r c = (c', calls)"
  shows "receiving (sstate c')"
  using assms(2,3) expect_reply_outcome [OF assms(1) fixed_sizes(1)] expect_reply_outcome [OF assms(1) fixed_sizes(4)]
  by (fastforce simp: sending_def receiving_def send_handler_done_def)

text \<open>When there is something left to receive, a run can go on to the point where it is asked for.\<close>

lemma run_to_receiving:
  assumes "socks_run False ai dest c calls xs" "wf_args ai dest" "length ai \<in> {1..255}" "sstate c \<noteq> STATE_CONNECTING"
    "snd (socks_spec ai dest xs) = Waiting"
  shows "\<exists>c' calls'. socks_run False ai dest c' calls' xs \<and> receiving (sstate c') \<and> alive calls'"
proof -
  have al: "alive calls" "sstate c \<noteq> STATE_UP"
    using run_follows_spec [OF assms(1-4)] assms(5) by simp_all
  show ?thesis
  proof (cases "sending (sstate c)")
    case True
    obtain c' calls' where step: "send_handler_done sample_realloc c = (c', calls')"
      by force
    have ok: "realloc_ok False sample_realloc"
      by (simp add: realloc_ok_def)
    have run: "socks_run False ai dest c' (calls @ calls') xs"
      by (rule run_sent [OF assms(1) al(1) True ok step])
    have "receiving (sstate c')"
      by (rule send_done_receiving [OF ok True step])
    moreover from this have "alive (calls @ calls')"
      using run_follows_spec(3) [OF run assms(2,3)] assms(5) by (auto simp: receiving_def)
    ultimately show ?thesis
      using run by blast
  next
    case False
    with al assms(1,4) show ?thesis
      by (cases "sstate c") (auto simp: sending_def receiving_def)
  qed
qed

lemma run_prefix:
  assumes "wf_args ai dest" "length ai \<in> {1..255}" "socks_spec ai dest (ys @ zs) = (out, Up)"
  shows "\<exists>c calls. socks_run False ai dest c calls ys \<and> sstate c \<noteq> STATE_CONNECTING"
  using assms(3)
proof (induction ys arbitrary: zs rule: rev_induct)
  case Nil
  obtain c calls where init: "BSocksClient_Init True ai dest = Some (c, calls)"
    by (simp add: BSocksClient_Init_def)
  obtain c' calls' where step: "connector_handler sample_realloc True c False = (c', calls')"
    by force
  have c: "sstate c = STATE_CONNECTING" "alive calls" "auth_info c = ai"
    using init by (auto simp: BSocksClient_Init_def)
  have ok: "realloc_ok False sample_realloc"
    by (simp add: realloc_ok_def)
  have run: "socks_run False ai dest c' (calls @ calls') []"
    by (rule run_connect [OF run_init [OF init] c(2,1) ok _ step]) simp
  have "\<not> (length (auth_info c) = 0 \<or> 255 < length (auth_info c))"
    using assms(2) c(3) by auto
  then have "sstate c' = STATE_SENDING_HELLO"
    using step assms(2) c(3) by (auto simp: connector_handler_def Let_def reserve_abs [OF hello_size])
  with run show ?case
    by auto
next
  case (snoc y ys)
  then obtain c calls where run: "socks_run False ai dest c calls ys" "sstate c \<noteq> STATE_CONNECTING"
    by force
  have "snd (socks_spec ai dest ys) = Waiting"
    using socks_spec_prefix [of ai dest ys "y # zs" out] snoc.prems by simp
  from run_to_receiving [OF run(1) assms(1,2) run(2) this]
  obtain c1 calls1 where run1: "socks_run False ai dest c1 calls1 ys" "receiving (sstate c1)" "alive calls1"
    by blast
  have len: "length [y] \<le> recv_total c1 - recv_len c1"
    using socks_run_inv [OF run1(1) assms(1)] assms(2) run1(2,3)
    by (cases "sstate c1") (auto simp: socks_inv_def phase_def expects_def receiving_def)
  obtain c2 calls2 where step: "socks_receive sample_realloc c1 [y] = (c2, calls2)"
    by force
  have run2: "socks_run False ai dest c2 (calls1 @ calls2) (ys @ [y])"
    by (rule run_recv [OF run1(1,3,2) _ _ len step]) (simp_all add: realloc_ok_def)
  moreover have "sstate c2 \<noteq> STATE_CONNECTING"
    using socks_run_inv [OF run2 assms(1)] assms(2) by (auto simp: socks_inv_def phase_def failed_def split: if_splits)
  ultimately show ?case
    by blast
qed

section \<open>The exchange ends\<close>

text \<open>How many calls a live client may still make.\<close>

fun calls_left :: "socks_state \<Rightarrow> nat \<Rightarrow> nat" where
  "calls_left STATE_UP n = 1"
| "calls_left STATE_RECEIVED_REPLY_HEADER n = n + 7"
| "calls_left STATE_SENT_REQUEST n = n + 25"
| "calls_left STATE_SENDING_REQUEST n = 31"
| "calls_left STATE_SENT_PASSWORD n = n + 32"
| "calls_left STATE_SENDING_PASSWORD n = 36"
| "calls_left STATE_SENT_HELLO n = n + 37"
| "calls_left STATE_SENDING_HELLO n = 41"
| "calls_left STATE_CONNECTING n = 47"

definition socks_left :: "BSocksClient \<Rightarrow> nat" where
  "socks_left c = calls_left (sstate c) (recv_total c - recv_len c)"

text \<open>A step makes a call, and takes the calls it makes from those that are left.\<close>

definition step_counts :: "nat \<Rightarrow> BSocksClient \<Rightarrow> socks_call list \<Rightarrow> bool" where
  "step_counts left c' calls \<longleftrightarrow> calls \<noteq> [] \<and> (if alive calls then length calls + socks_left c' \<le> left else length calls \<le> left)"

lemma step_counts_less: "step_counts left c' calls \<Longrightarrow> \<not> alive calls \<or> socks_left c' < left"
proof -
  assume counts: "step_counts left c' calls"
  then have "0 < length calls"
    by (simp add: step_counts_def)
  with counts show ?thesis
    by (cases "alive calls") (simp_all add: step_counts_def del: length_greater_0_conv)
qed

lemma auth_finished_counts:
  "auth_finished r c = (c', calls) \<Longrightarrow> BAddr_ip (dest_addr c) \<Longrightarrow> 33 \<le> n \<Longrightarrow> step_counts n c' calls"
  by (auto simp: auth_finished_def step_counts_def socks_left_def io_defs reserve_buffer_def Let_def split: option.splits BAddr.splits if_splits)

lemma send_password_counts: "send_password r c a = (c', calls) \<Longrightarrow> 38 \<le> n \<Longrightarrow> step_counts n c' calls"
  by (auto simp: send_password_def step_counts_def socks_left_def io_defs reserve_buffer_def Let_def split: option.splits if_splits)

lemma hello_counts:
  assumes "hello_received r c = (c', calls)" "wf_args (auth_info c) (dest_addr c)"
  shows "step_counts 38 c' calls"
proof -
  have "step_counts 38 c [Handler BSOCKSCLIENT_EVENT_ERROR]"
    by (simp add: step_counts_def)
  then show ?thesis
    using assms auth_finished_counts [of r c c' calls 38] send_password_counts [of r c _ c' calls 38]
    by (auto simp: hello_received_def io_defs Let_def wf_args_def dest!: find_type split: if_splits option.splits)
qed

lemma connect_counts: "connector_handler r con c is_error = (c', calls) \<Longrightarrow> step_counts 47 c' calls"
  by (auto simp: connector_handler_def step_counts_def socks_left_def io_defs Let_def split: if_splits option.splits)

lemma sent_counts:
  assumes "send_handler_done r c = (c', calls)" "sending (sstate c)"
  shows "step_counts (socks_left c) c' calls"
  using assms by (auto simp: send_handler_done_def sending_def expect_reply_def start_receive_def step_counts_def socks_left_def io_defs
      reserve_buffer_def Let_def split: option.splits if_splits)

lemma calls_left_less: "receiving s \<Longrightarrow> m < n \<Longrightarrow> Suc (calls_left s m) \<le> calls_left s n"
  by (auto simp: receiving_def)

lemma header_counts: "reply_header_received c = (c', calls) \<Longrightarrow> step_counts 26 c' calls"
  by (auto simp: reply_header_received_def start_receive_def step_counts_def socks_left_def io_defs Let_def split: if_splits)

lemma password_counts: "password_reply_received r c = (c', calls) \<Longrightarrow> BAddr_ip (dest_addr c) \<Longrightarrow> step_counts 33 c' calls"
  using auth_finished_counts [of r c c' calls 33]
  by (auto simp: password_reply_received_def io_defs Let_def step_counts_def split: if_splits)

lemma reply_counts: "reply_received c = (c', calls) \<Longrightarrow> step_counts 8 c' calls"
  by (auto simp: reply_received_def step_counts_def socks_left_def io_defs Let_def split: if_splits)

lemma step_counts_mono: "step_counts m c' calls \<Longrightarrow> m \<le> n \<Longrightarrow> step_counts n c' calls"
  by (auto simp: step_counts_def split: if_splits)

lemma received_counts:
  assumes "socks_receive r c data = (c', calls)" "receiving (sstate c)" "data \<noteq> []" "length data \<le> recv_total c - recv_len c"
    "wf_args (auth_info c) (dest_addr c)" "sstate c = STATE_RECEIVED_REPLY_HEADER \<longrightarrow> recv_total c - recv_len c \<le> 18"
  shows "step_counts (socks_left c) c' calls"
proof -
  define c1 where "c1 = c\<lparr>sbuffer := Some (put data (recv_dest c + recv_len c) (the_buffer c)), recv_len := recv_len c + length data\<rparr>"
  have c1: "auth_info c1 = auth_info c" "dest_addr c1 = dest_addr c" "sstate c1 = sstate c" "recv_total c1 = recv_total c"
    "recv_len c1 = recv_len c + length data" "0 < length data"
    using assms(3) by (simp_all add: c1_def)
  show ?thesis
  proof (cases "recv_len c1 < recv_total c1")
    case True
    then have "c' = c1" "calls = [Recv (recv_dest c1 + recv_len c1) (recv_total c1 - recv_len c1)]"
      using assms(1) by (auto simp: socks_receive_def recv_handler_done_def Let_def c1_def do_receive_def)
    moreover have "recv_total c1 - recv_len c1 < recv_total c - recv_len c"
      using True c1(4-6) by linarith
    ultimately show ?thesis
      using calls_left_less [OF assms(2)] c1(3) by (simp add: step_counts_def socks_left_def)
  next
    case False
    then have "recv_total c - recv_len c = length data"
      using c1(4,5) assms(4) by linarith
    moreover have "(case sstate c of STATE_SENT_HELLO \<Rightarrow> hello_received r c1 | STATE_SENT_REQUEST \<Rightarrow> reply_header_received c1
        | STATE_SENT_PASSWORD \<Rightarrow> password_reply_received r c1 | STATE_RECEIVED_REPLY_HEADER \<Rightarrow> reply_received c1) = (c', calls)"
      using assms(1,2) False by (auto simp: socks_receive_def recv_handler_done_def Let_def c1_def receiving_def)
    moreover have wf: "wf_args (auth_info c1) (dest_addr c1)" "BAddr_ip (dest_addr c1)"
      using assms(5) c1(1,2) by (simp_all add: wf_args_def)
    ultimately show ?thesis
      using assms(2) c1(6) step_counts_mono [OF hello_counts [of r c1 c' calls, OF _ wf(1)], of "length data + 37"]
        step_counts_mono [OF header_counts [of c1 c' calls], of "length data + 25"]
        step_counts_mono [OF password_counts [of r c1 c' calls, OF _ wf(2)], of "length data + 32"]
        step_counts_mono [OF reply_counts [of c1 c' calls], of "length data + 7"]
      by (auto simp: receiving_def socks_left_def Suc_le_eq)
  qed
qed

text \<open>A step of the SOCKS client, with the calls it makes and the bytes it takes from the stream; anything may
  fail.\<close>

inductive socks_step :: "BSocksClient \<Rightarrow> BSocksClient \<Rightarrow> socks_call list \<Rightarrow> bytes \<Rightarrow> bool" where
  step_connect: "sstate c = STATE_CONNECTING \<Longrightarrow> realloc_ok True r \<Longrightarrow> connector_handler r con c is_error = (c', calls) \<Longrightarrow>
    socks_step c c' calls []"
| step_sent: "SocksClient.sending (sstate c) \<Longrightarrow> realloc_ok True r \<Longrightarrow> send_handler_done r c = (c', calls) \<Longrightarrow> socks_step c c' calls []"
| step_recv: "receiving (sstate c) \<Longrightarrow> realloc_ok True r \<Longrightarrow> data \<noteq> [] \<Longrightarrow> length data \<le> recv_total c - recv_len c \<Longrightarrow>
    socks_receive r c data = (c', calls) \<Longrightarrow> socks_step c c' calls data"
| step_event: "sstate c \<noteq> STATE_CONNECTING \<Longrightarrow> connection_handler c closed = calls \<Longrightarrow> socks_step c c calls []"

text \<open>What holds of a live client.\<close>

lemma live_client:
  assumes "socks_run True ai dest c calls xs" "wf_args ai dest" "alive calls"
  shows "socks_left c \<le> 47"
    "socks_step c c' calls' data \<Longrightarrow> \<not> alive calls' \<or> socks_left c' < socks_left c"
    "sstate c \<noteq> STATE_UP \<Longrightarrow>
       last calls = Connector_init \<or> (\<exists>message. last calls = Send message \<and> message \<noteq> []) \<or> (\<exists>off n. last calls = Recv off n \<and> 0 < n)"
proof -
  have inv: "auth_info c = ai" "dest_addr c = dest" "phase ai dest c xs (sent calls)" "asks c calls"
    using socks_run_inv [OF assms(1,2)] assms(3) by (simp_all add: socks_inv_def)
  then have wf: "wf_args (auth_info c) (dest_addr c)" and header: "sstate c = STATE_RECEIVED_REPLY_HEADER \<longrightarrow> recv_total c - recv_len c \<le> 18"
    using assms(2) by (auto simp: phase_def expects_def addr_len.simps split: if_splits)
  show "socks_left c \<le> 47"
    using inv(3) header by (cases "sstate c") (auto simp: socks_left_def phase_def expects_def)
  show "\<not> alive calls' \<or> socks_left c' < socks_left c" if "socks_step c c' calls' data"
    using that
  proof cases
    case (step_connect r con is_error)
    then show ?thesis
      using step_counts_less [OF connect_counts [of r con c is_error c' calls']] by (simp add: socks_left_def [of c])
  next
    case (step_sent r)
    then show ?thesis
      using step_counts_less [OF sent_counts [of r c c' calls']] by simp
  next
    case (step_recv r)
    then show ?thesis
      using step_counts_less [OF received_counts [of r c data c' calls', OF _ _ _ _ wf header]] by simp
  next
    case (step_event closed)
    then show ?thesis
      by (auto simp: connection_handler_def report_error_def split: if_splits)
  qed
  show "last calls = Connector_init \<or> (\<exists>message. last calls = Send message \<and> message \<noteq> []) \<or> (\<exists>off n. last calls = Recv off n \<and> 0 < n)"
    if "sstate c \<noteq> STATE_UP"
    using that inv(3,4) by (cases "sstate c") (auto simp: asks_def phase_def expects_def receiving_def sending_def)
qed

text \<open>C25. The exchange ends. Whatever the server sends and whatever fails, every step of a live client lowers a count that is at
  most 47, or reports an error, so that after 47 steps at most the client is up or has failed. Until then it is never
  stuck: it waits for the connection to be made, for a message of at least one byte to be sent, or for at least one byte to
  be received.\<close>

theorem SocksClient_terminates:
  assumes "socks_run True ai dest c calls xs" "wf_args ai dest" "alive calls"
  shows "socks_left c \<le> 47 \<and> (\<forall>c' calls' data. socks_step c c' calls' data \<longrightarrow> \<not> alive calls' \<or> socks_left c' < socks_left c) \<and>
    (sstate c \<noteq> STATE_UP \<longrightarrow>
       last calls = Connector_init \<or> (\<exists>message. last calls = Send message \<and> message \<noteq> []) \<or> (\<exists>off n. last calls = Recv off n \<and> 0 < n))"
  using live_client [OF assms] by blast

theorem SocksClient_terminates_witness:
  "socks_left (fst (connector_handler sample_realloc True sample_client False)) \<le> 47 \<and>
   (\<exists>message. last (snd (connector_handler sample_realloc True sample_client False)) = Send message \<and> message \<noteq> [])"
proof -
  have "socks_run True sample_auth (BAddr_IPv4 0 0) (fst (connector_handler sample_realloc True sample_client False))
      ([Connector_init] @ snd (connector_handler sample_realloc True sample_client False)) []"
    by (rule run_connect [OF run_init]) (auto simp: BSocksClient_Init_def sample_client_def realloc_ok_def)
  from SocksClient_terminates [OF this sample_wf(1)] show ?thesis
    by (simp add: sample_connected)
qed

end
