(* ===== verification/InactivityMonitor.thy ===== *)
theory InactivityMonitor
  imports Prelude
begin

text \<open>
  The layer of \<open>flowextra/PacketPassInactivityMonitor.c\<close> that reports when nothing was sent for a
  while.  A running timer is the time it was started with; each handler returns the new state and
  the calls it makes on its neighbours and its user.
\<close>

record PacketPassInactivityMonitor =
  im_mtu :: nat
  im_cancel :: bool
  im_interval :: nat
  im_handler :: bool
  im_timer :: "nat option"

datatype im_action = IM_send bytes | IM_requestcancel | IM_done | IM_inactive

definition monitor_input_handler_send ::
  "PacketPassInactivityMonitor \<Rightarrow> bytes \<Rightarrow> PacketPassInactivityMonitor \<times> im_action list" where
  "monitor_input_handler_send m data = (m\<lparr>im_timer := None\<rparr>, [IM_send data])"

definition monitor_input_handler_requestcancel ::
  "PacketPassInactivityMonitor \<Rightarrow> PacketPassInactivityMonitor \<times> im_action list" where
  "monitor_input_handler_requestcancel m = (m, [IM_requestcancel])"

definition monitor_output_handler_done ::
  "PacketPassInactivityMonitor \<Rightarrow> PacketPassInactivityMonitor \<times> im_action list" where
  "monitor_output_handler_done m = (m\<lparr>im_timer := Some (im_interval m)\<rparr>, [IM_done])"

definition monitor_timer_handler ::
  "PacketPassInactivityMonitor \<Rightarrow> PacketPassInactivityMonitor \<times> im_action list" where
  "monitor_timer_handler m =
     (m\<lparr>im_timer := Some (im_interval m)\<rparr>, if im_handler m then [IM_inactive] else [])"

definition PacketPassInactivityMonitor_Init ::
  "nat \<Rightarrow> bool \<Rightarrow> nat \<Rightarrow> bool \<Rightarrow> PacketPassInactivityMonitor" where
  "PacketPassInactivityMonitor_Init output_mtu output_has_cancel interval handler =
     \<lparr>im_mtu = output_mtu, im_cancel = output_has_cancel, im_interval = interval, im_handler = handler,
      im_timer = Some interval\<rparr>"

definition PacketPassInactivityMonitor_Free :: "PacketPassInactivityMonitor \<Rightarrow> PacketPassInactivityMonitor" where
  "PacketPassInactivityMonitor_Free m = m\<lparr>im_timer := None\<rparr>"

definition PacketPassInactivityMonitor_SetHandler ::
  "PacketPassInactivityMonitor \<Rightarrow> bool \<Rightarrow> PacketPassInactivityMonitor" where
  "PacketPassInactivityMonitor_SetHandler m handler = m\<lparr>im_handler := handler\<rparr>"

definition PacketPassInactivityMonitor_Force :: "PacketPassInactivityMonitor \<Rightarrow> PacketPassInactivityMonitor" where
  "PacketPassInactivityMonitor_Force m = m\<lparr>im_timer := Some 0\<rparr>"

section \<open>When it reports\<close>

text \<open>The monitor between a sender, an output and the timer; the second argument is whether the output
  has a packet, the third whether a report was ever forced.\<close>

inductive im_run :: "PacketPassInactivityMonitor \<Rightarrow> PacketPassInactivityMonitor \<Rightarrow> bool \<Rightarrow> bool \<Rightarrow> bool" for m0 where
  im_start: "im_run m0 m0 False False"
| im_send: "im_run m0 m False forced \<Longrightarrow> im_run m0 (fst (monitor_input_handler_send m data)) True forced"
| im_cancel: "im_run m0 m True forced \<Longrightarrow> im_run m0 (fst (monitor_input_handler_requestcancel m)) True forced"
| im_done: "im_run m0 m True forced \<Longrightarrow> im_run m0 (fst (monitor_output_handler_done m)) False forced"
| im_expired: "im_run m0 m busy forced \<Longrightarrow> im_timer m \<noteq> None \<Longrightarrow> im_run m0 (fst (monitor_timer_handler m)) busy forced"
| im_handler: "im_run m0 m busy forced \<Longrightarrow> im_run m0 (PacketPassInactivityMonitor_SetHandler m handler) busy forced"
| im_force: "im_run m0 m busy forced \<Longrightarrow> im_run m0 (PacketPassInactivityMonitor_Force m) busy True"

lemmas monitor_defs = monitor_input_handler_send_def monitor_input_handler_requestcancel_def monitor_output_handler_done_def
  monitor_timer_handler_def PacketPassInactivityMonitor_SetHandler_def PacketPassInactivityMonitor_Force_def

text \<open>Until a report is forced, the timer runs exactly while the output has no packet, so that
  inactivity is reported in idle moments only; and a forced report can find the output busy.\<close>

theorem InactivityMonitor_reports_idle:
  assumes "im_run (PacketPassInactivityMonitor_Init mtu cancel interval True) m busy False"
  shows "(im_timer m \<noteq> None \<longleftrightarrow> \<not> busy) \<and>
    im_run (PacketPassInactivityMonitor_Init mtu cancel interval True)
      (PacketPassInactivityMonitor_Force (fst (monitor_input_handler_send
        (PacketPassInactivityMonitor_Init mtu cancel interval True) []))) True True"
proof -
  let ?m0 = "PacketPassInactivityMonitor_Init mtu cancel interval True"
  have "\<not> forced \<Longrightarrow> im_timer m \<noteq> None \<longleftrightarrow> \<not> busy" if "im_run ?m0 m busy forced" for m busy forced
    using that by induction (auto simp: monitor_defs PacketPassInactivityMonitor_Init_def)
  with assms show ?thesis
    by (blast intro: im_force im_send im_start)
qed


theorem InactivityMonitor_reports_idle_witness:
  "im_timer (fst (monitor_input_handler_send (PacketPassInactivityMonitor_Init 5 False 1000 True) [1])) = None"
  using InactivityMonitor_reports_idle [OF im_send [OF im_start]] by blast

end
