(* ===== verification/UdpGwClient.thy ===== *)
theory UdpGwClient
  imports FlowBuffers FairQueue InactivityMonitor
begin

text \<open>
  The udpgw client of \<open>udpgw_client/UdpGwClient.c\<close>, with the messages of \<open>protocol/udpgw_proto.h\<close>.  It
  carries UDP packets over one stream: every pair of a local and a remote address has a connection
  with a 16 bit number, found through two trees, and when no number is left the connection that
  was used least recently is given to the new pair.  Each connection writes its messages into a
  packet flow of its own, the flows share the stream through the fair queue, and the connector under
  the queue keeps the packet being sent when the stream comes and goes.

  A connection is named by its address; \<open>connections\<close> is what the structures in memory hold, and the trees
  read their keys there.  The client's own flow, for keep-alive messages, has address 0.  The
  structure \<open>malloc\<close> gives, the arrays of the packet flows and the decoder, and the global flag
  \<open>sendKeepAlive\<close> are arguments.
\<close>

section \<open>Messages\<close>

abbreviation UDPGW_CLIENT_FLAG_KEEPALIVE :: u8 where "UDPGW_CLIENT_FLAG_KEEPALIVE \<equiv> 1"
abbreviation UDPGW_CLIENT_FLAG_REBIND :: u8 where "UDPGW_CLIENT_FLAG_REBIND \<equiv> 2"
abbreviation UDPGW_CLIENT_FLAG_DNS :: u8 where "UDPGW_CLIENT_FLAG_DNS \<equiv> 4"
abbreviation UDPGW_CLIENT_FLAG_IPV6 :: u8 where "UDPGW_CLIENT_FLAG_IPV6 \<equiv> 8"

record udpgw_header =
  uflags :: u8
  uconid :: u16

definition udpgw_header_bytes :: "udpgw_header \<Rightarrow> bytes" where
  "udpgw_header_bytes h = [uflags h] @ mem16 (uconid h)"

definition udpgw_header_load :: "bytes \<Rightarrow> udpgw_header" where
  "udpgw_header_load p = \<lparr>uflags = p ! 0, uconid = badvpn_read_le16 (drop 1 p)\<rparr>"

record udpgw_addr_ipv4 =
  addr_ip :: u32
  addr_port :: u16

definition udpgw_addr_ipv4_bytes :: "udpgw_addr_ipv4 \<Rightarrow> bytes" where
  "udpgw_addr_ipv4_bytes a = mem32 (addr_ip a) @ mem16 (addr_port a)"

definition udpgw_addr_ipv4_load :: "bytes \<Rightarrow> udpgw_addr_ipv4" where
  "udpgw_addr_ipv4_load p = \<lparr>addr_ip = badvpn_read_le32 p, addr_port = badvpn_read_le16 (drop 4 p)\<rparr>"

record udpgw_addr_ipv6 =
  addr_ip6 :: bytes
  addr_port6 :: u16

definition udpgw_addr_ipv6_bytes :: "udpgw_addr_ipv6 \<Rightarrow> bytes" where
  "udpgw_addr_ipv6_bytes a = addr_ip6 a @ mem16 (addr_port6 a)"

definition udpgw_addr_ipv6_load :: "bytes \<Rightarrow> udpgw_addr_ipv6" where
  "udpgw_addr_ipv6_load p = \<lparr>addr_ip6 = take 16 p, addr_port6 = badvpn_read_le16 (drop 16 p)\<rparr>"

section \<open>The client\<close>

record UdpGwClient_conaddr =
  local_addr :: BAddr
  remote_addr :: BAddr

record UdpGwClient_connection =
  conaddr :: UdpGwClient_conaddr
  first_flags :: u8
  first_data :: bytes
  conid :: u16
  first_job :: bool
  send_ppflow :: PacketProtoFlow

record UdpGwClient =
  udp_mtu :: nat
  max_connections :: nat
  send_buffer_size :: int
  udpgw_mtu :: nat
  pp_mtu :: nat
  connections :: "nat \<Rightarrow> UdpGwClient_connection"
  tree_by_conaddr :: "nat bavl"
  tree_by_conid :: "nat bavl"
  connections_list :: "nat list"
  num_connections :: nat
  next_conid :: nat
  send_queue :: PacketPassFairQueue
  send_monitor :: PacketPassInactivityMonitor
  send_connector :: PacketPassConnector
  keepalive_packet :: bytes
  keepalive_sending :: bool
  have_server :: bool
  send_sender :: PacketStreamSender
  recv_decoder :: "PacketProtoDecoder option"

abbreviation (input) keepalive_qflow :: nat where
  "keepalive_qflow \<equiv> 0"

text \<open>The calls that leave the client: a message written into the flow of a connection, a packet handed to
  the keep-alive flow, a received message accepted, and the two handlers of the user.\<close>

datatype ug_action = UG_write nat bytes | UG_keepalive bytes | UG_recv_done
  | UG_received BAddr BAddr bytes | UG_servererror

definition set_connection :: "nat \<Rightarrow> (UdpGwClient_connection \<Rightarrow> UdpGwClient_connection) \<Rightarrow> UdpGwClient \<Rightarrow> UdpGwClient" where
  "set_connection p upd c = c\<lparr>connections := (connections c)(p := upd (connections c p))\<rparr>"

abbreviation conaddr_of :: "UdpGwClient \<Rightarrow> nat \<Rightarrow> UdpGwClient_conaddr" where
  "conaddr_of c p \<equiv> conaddr (connections c p)"

abbreviation conid_of :: "UdpGwClient \<Rightarrow> nat \<Rightarrow> u16" where
  "conid_of c p \<equiv> conid (connections c p)"

definition uint16_comparator :: "u16 \<Rightarrow> u16 \<Rightarrow> int" where
  "uint16_comparator v1 v2 = B_COMPARE v1 v2"

definition conaddr_comparator :: "UdpGwClient_conaddr \<Rightarrow> UdpGwClient_conaddr \<Rightarrow> int" where
  "conaddr_comparator v1 v2 =
     (let r = BAddr_CompareOrder (remote_addr v1) (remote_addr v2) in
      if r \<noteq> 0 then r else BAddr_CompareOrder (local_addr v1) (local_addr v2))"

definition free_server :: "UdpGwClient \<Rightarrow> UdpGwClient" where
  "free_server c = c\<lparr>send_connector := PacketPassConnector_DisconnectOutput (send_connector c), recv_decoder := None\<rparr>"

definition decoder_handler_error :: "UdpGwClient \<Rightarrow> UdpGwClient \<times> ug_action list" where
  "decoder_handler_error c = (c, [UG_servererror])"

definition find_connection_by_conaddr :: "UdpGwClient \<Rightarrow> UdpGwClient_conaddr \<Rightarrow> nat option" where
  "find_connection_by_conaddr c a = BAVL_LookupExact conaddr_comparator (conaddr_of c) (tree_by_conaddr c) a"

definition find_connection_by_conid :: "UdpGwClient \<Rightarrow> u16 \<Rightarrow> nat option" where
  "find_connection_by_conid c i = BAVL_LookupExact uint16_comparator (conid_of c) (tree_by_conid c) i"

text \<open>The address in a message, and what follows it.\<close>

definition parse_remote_addr :: "u8 \<Rightarrow> bytes \<Rightarrow> (BAddr \<times> bytes) option" where
  "parse_remote_addr flags data =
     (if flags AND UDPGW_CLIENT_FLAG_IPV6 \<noteq> 0 then
        (if length data < 18 then None
         else let a = udpgw_addr_ipv6_load data in Some (BAddr_InitIPv6 (addr_ip6 a) (addr_port6 a), drop 18 data))
      else
        (if length data < 6 then None
         else let a = udpgw_addr_ipv4_load data in Some (BAddr_InitIPv4 (addr_ip a) (addr_port a), drop 6 data)))"

definition recv_interface_handler_send :: "UdpGwClient \<Rightarrow> bytes \<Rightarrow> UdpGwClient \<times> ug_action list" where
  "recv_interface_handler_send c data =
     (if length data < 3 then (c, [UG_recv_done])
      else
        let header = udpgw_header_load data; flags = ltoh8 (uflags header); cid = ltoh16 (uconid header) in
        case parse_remote_addr flags (drop 3 data) of
          None \<Rightarrow> (c, [UG_recv_done])
        | Some (remote, payload) \<Rightarrow>
            if length payload > udp_mtu c then (c, [UG_recv_done])
            else case find_connection_by_conid c cid of
              None \<Rightarrow> (c, [UG_recv_done])
            | Some p \<Rightarrow>
                if BAddr_CompareOrder (remote_addr (conaddr_of c p)) remote \<noteq> 0 then (c, [UG_recv_done])
                else (c\<lparr>connections_list := remove1 p (connections_list c) @ [p]\<rparr>,
                      [UG_recv_done, UG_received (local_addr (conaddr_of c p)) (remote_addr (conaddr_of c p)) payload]))"

definition send_monitor_handler :: "int \<Rightarrow> UdpGwClient \<Rightarrow> UdpGwClient \<times> ug_action list" where
  "send_monitor_handler sendKeepAlive c =
     (if sendKeepAlive = 0 then (c, [])
      else if keepalive_sending c then (c, [])
      else (c\<lparr>keepalive_sending := True\<rparr>, [UG_keepalive (keepalive_packet c)]))"

definition keepalive_if_handler_done :: "UdpGwClient \<Rightarrow> UdpGwClient" where
  "keepalive_if_handler_done c = c\<lparr>keepalive_sending := False\<rparr>"

text \<open>The search for a free number is a loop with no bound of its own.\<close>

partial_function (option) find_unused_conid :: "UdpGwClient \<Rightarrow> (UdpGwClient \<times> u16) option" where
  "find_unused_conid c =
     (if find_connection_by_conid c (of_nat (next_conid c)) = None then Some (c, of_nat (next_conid c))
      else find_unused_conid (c\<lparr>next_conid :=
        (if int (next_conid c) = int (max_connections c) - 1 then 0 else next_conid c + 1)\<rparr>))"

definition conaddr_Insert :: "UdpGwClient \<Rightarrow> nat \<Rightarrow> UdpGwClient" where
  "conaddr_Insert c p =
     c\<lparr>tree_by_conaddr := fst (BAVL_Insert conaddr_comparator (conaddr_of c) (tree_by_conaddr c) p)\<rparr>"

definition conid_Insert :: "UdpGwClient \<Rightarrow> nat \<Rightarrow> UdpGwClient" where
  "conid_Insert c p = c\<lparr>tree_by_conid := fst (BAVL_Insert uint16_comparator (conid_of c) (tree_by_conid c) p)\<rparr>"

text \<open>\<open>BAVL_Remove\<close> of a node given by its address.\<close>

definition remove_node :: "nat bavl \<Rightarrow> nat \<Rightarrow> nat bavl" where
  "remove_node t p = (case BAVL_entry p t [] of None \<Rightarrow> t | Some ref \<Rightarrow> BAVL_Remove ref)"

text \<open>The group runs the job that was set last first: the jobs of the new packet flow run before the first job,
  and those of a written packet before the flow is written again.\<close>

definition connection_init ::
  "nat option \<Rightarrow> (int \<Rightarrow> bytes option) \<Rightarrow> UdpGwClient \<Rightarrow> UdpGwClient_conaddr \<Rightarrow> u8 \<Rightarrow> bytes \<Rightarrow> UdpGwClient option" where
  "connection_init malloc alloc c a flags data =
     (case malloc of
        None \<Rightarrow> Some c
      | Some con \<Rightarrow>
          (let c = set_connection con (\<lambda>k. k\<lparr>conaddr := a, first_flags := flags, first_data := data\<rparr>) c in
           case find_unused_conid c of
             None \<Rightarrow> None
           | Some (c, i) \<Rightarrow>
               (let c = set_connection con (\<lambda>k. k\<lparr>conid := i, first_job := True\<rparr>) c;
                    c = c\<lparr>send_queue := PacketPassFairQueueFlow_Init con (send_queue c)\<rparr>
                in case PacketProtoFlow_Init (udpgw_mtu c) (send_buffer_size c) alloc of
                     None \<Rightarrow>
                       Some (set_connection con (\<lambda>k. k\<lparr>first_job := False\<rparr>)
                         (c\<lparr>send_queue := PacketPassFairQueueFlow_Free con (send_queue c)\<rparr>))
                   | Some ppflow \<Rightarrow>
                       (let c = set_connection con (\<lambda>k. k\<lparr>send_ppflow := flow_settle ppflow\<rparr>) c;
                            c = conid_Insert (conaddr_Insert c con) con
                        in Some (c\<lparr>connections_list := connections_list c @ [con], num_connections := num_connections c + 1\<rparr>)))))"

definition connection_free :: "UdpGwClient \<Rightarrow> nat \<Rightarrow> UdpGwClient" where
  "connection_free c con =
     (let c = c\<lparr>num_connections := num_connections c - 1, connections_list := remove1 con (connections_list c),
                tree_by_conid := remove_node (tree_by_conid c) con, tree_by_conaddr := remove_node (tree_by_conaddr c) con,
                send_queue := PacketPassFairQueueFlow_Free con (send_queue c)\<rparr>
      in set_connection con (\<lambda>k. k\<lparr>first_job := False\<rparr>) c)"

text \<open>What \<open>connection_send\<close> writes for an address: the switch over its type.\<close>

fun remote_addr_bytes :: "BAddr \<Rightarrow> bytes" where
  "remote_addr_bytes (BAddr_IPv4 ip port) = udpgw_addr_ipv4_bytes \<lparr>addr_ip = ip, addr_port = port\<rparr>"
| "remote_addr_bytes (BAddr_IPv6 ip port) = udpgw_addr_ipv6_bytes \<lparr>addr_ip6 = ip, addr_port6 = port\<rparr>"
| "remote_addr_bytes _ = []"

definition connection_send :: "UdpGwClient \<Rightarrow> nat \<Rightarrow> u8 \<Rightarrow> bytes \<Rightarrow> UdpGwClient \<times> ug_action list" where
  "connection_send c con flags data =
     (case BufferWriter_StartPacket (ainput (send_ppflow (connections c con))) of
        None \<Rightarrow> (c, [])
      | Some _ \<Rightarrow>
          (let remote = remote_addr (conaddr_of c con);
               flags = (if BAddr_type remote = 2 then flags OR UDPGW_CLIENT_FLAG_IPV6 else flags);
               header = \<lparr>uflags = ltoh8 flags, uconid = ltoh16 (conid_of c con)\<rparr>;
               message = udpgw_header_bytes header @ remote_addr_bytes remote @ data
           in case PacketProtoFlow_write (send_ppflow (connections c con)) message of
                None \<Rightarrow> (c, [])
              | Some f \<Rightarrow> (set_connection con (\<lambda>k. k\<lparr>send_ppflow := f\<rparr>) c, [UG_write con message])))"

text \<open>Executing the job has taken it out of the pending jobs.\<close>

definition connection_first_job_handler :: "UdpGwClient \<Rightarrow> nat \<Rightarrow> UdpGwClient \<times> ug_action list" where
  "connection_first_job_handler c con =
     (let c = set_connection con (\<lambda>k. k\<lparr>first_job := False\<rparr>) c
      in connection_send c con (UDPGW_CLIENT_FLAG_REBIND OR first_flags (connections c con)) (first_data (connections c con)))"

text \<open>With no connection, which an assertion excludes, there is none to reuse.\<close>

definition reuse_connection :: "UdpGwClient \<Rightarrow> UdpGwClient_conaddr \<Rightarrow> UdpGwClient \<times> nat option" where
  "reuse_connection c a =
     (case connections_list c of
        [] \<Rightarrow> (c, None)
      | con # _ \<Rightarrow>
          (let c = c\<lparr>tree_by_conaddr := remove_node (tree_by_conaddr c) con\<rparr>;
               c = set_connection con (\<lambda>k. k\<lparr>conaddr := a\<rparr>) c
           in (conaddr_Insert c con, Some con)))"

definition UdpGwClient_Init ::
  "nat \<Rightarrow> nat \<Rightarrow> int \<Rightarrow> nat \<Rightarrow> (nat \<Rightarrow> UdpGwClient_connection) \<Rightarrow> (flow \<Rightarrow> fq_flow) \<Rightarrow> UdpGwClient option" where
  "UdpGwClient_Init mtu max_con buffer_size keepalive_time memory flow_memory =
     (let max_con = (if max_con > UINT16_MAX + 1 then UINT16_MAX + 1 else max_con);
          ug_mtu = nat (udpgw_compute_mtu TYPE(32) (int mtu));
          packet_mtu = ug_mtu + 2
      in case PacketPassFairQueue_Init packet_mtu False 1 flow_memory of
           None \<Rightarrow> None
         | Some queue \<Rightarrow>
             Some \<lparr>udp_mtu = mtu, max_connections = max_con, send_buffer_size = buffer_size, udpgw_mtu = ug_mtu, pp_mtu = packet_mtu,
               connections = memory, tree_by_conaddr = BAVL_Init, tree_by_conid = BAVL_Init, connections_list = [],
               num_connections = 0, next_conid = 0, send_queue = PacketPassFairQueueFlow_Init keepalive_qflow queue,
               send_monitor = PacketPassInactivityMonitor_Init packet_mtu False keepalive_time True,
               send_connector = PacketPassConnector_Init packet_mtu,
               keepalive_packet = mem16 3 @ udpgw_header_bytes \<lparr>uflags = UDPGW_CLIENT_FLAG_KEEPALIVE, uconid = 0\<rparr>,
               keepalive_sending = False, have_server = False, send_sender = PacketStreamSender_Init, recv_decoder = None\<rparr>)"

text \<open>The loop of \<open>UdpGwClient_Free\<close> over the connections.\<close>

function free_connections :: "UdpGwClient \<Rightarrow> UdpGwClient" where
  "free_connections c =
     (case connections_list c of [] \<Rightarrow> c | con # _ \<Rightarrow> free_connections (connection_free c con))"
  by pat_completeness auto
termination
  by (relation "measure (length \<circ> connections_list)") (auto simp: connection_free_def set_connection_def Let_def)

declare free_connections.simps [simp del]

definition UdpGwClient_Free :: "UdpGwClient \<Rightarrow> UdpGwClient" where
  "UdpGwClient_Free c =
     (let c = free_connections (c\<lparr>send_queue := PacketPassFairQueue_PrepareFree (send_queue c)\<rparr>);
          c = (if have_server c then free_server c else c);
          c = c\<lparr>send_queue := PacketPassFairQueue_Free (PacketPassFairQueueFlow_Free keepalive_qflow (send_queue c))\<rparr>
      in c\<lparr>send_monitor := PacketPassInactivityMonitor_Free (send_monitor c)\<rparr>)"

definition UdpGwClient_SubmitPacket ::
  "nat option \<Rightarrow> (int \<Rightarrow> bytes option) \<Rightarrow> UdpGwClient \<Rightarrow> BAddr \<Rightarrow> BAddr \<Rightarrow> bool \<Rightarrow> bytes \<Rightarrow>
     (UdpGwClient \<times> ug_action list) option" where
  "UdpGwClient_SubmitPacket malloc alloc c local remote is_dns data =
     (let a = \<lparr>local_addr = local, remote_addr = remote\<rparr>;
          con = find_connection_by_conaddr c a;
          flags = 0;
          flags = (if is_dns then flags OR UDPGW_CLIENT_FLAG_DNS else flags);
          (c, con, flags) =
            (if con = None \<and> num_connections c = max_connections c
             then let (c, con) = reuse_connection c a in (c, con, flags OR UDPGW_CLIENT_FLAG_REBIND)
             else (c, con, flags))
      in case con of
           None \<Rightarrow> map_option (\<lambda>c. (c, [])) (connection_init malloc alloc c a flags data)
         | Some con \<Rightarrow>
             Some (connection_send (c\<lparr>connections_list := remove1 con (connections_list c) @ [con]\<rparr>) con flags data))"

definition UdpGwClient_ConnectServer :: "(nat \<Rightarrow> bytes option) \<Rightarrow> UdpGwClient \<Rightarrow> UdpGwClient \<times> bool" where
  "UdpGwClient_ConnectServer malloc c =
     (case PacketProtoDecoder_Init (udpgw_mtu c) malloc of
        None \<Rightarrow> (c, False)
      | Some (decoder, _) \<Rightarrow>
          (let (connector, calls) = PacketPassConnector_ConnectOutput (send_connector c);
               sender = PacketStreamSender_Init;
               sender = (case calls of Con_send data # _ \<Rightarrow> fst (pss_input_handler_send sender data) | _ \<Rightarrow> sender)
           in (c\<lparr>recv_decoder := Some decoder, send_sender := sender, send_connector := connector, have_server := True\<rparr>, True)))"

definition UdpGwClient_DisconnectServer :: "UdpGwClient \<Rightarrow> UdpGwClient" where
  "UdpGwClient_DisconnectServer c = (free_server c)\<lparr>have_server := False\<rparr>"

section \<open>The way of a packet through the client\<close>

text \<open>The packet a flow passes to the queue: that of the client's own flow while it sends a keep-alive message,
  otherwise the packet at the front of the connection's buffer.\<close>

definition flow_packet :: "UdpGwClient \<Rightarrow> flow \<Rightarrow> bytes option" where
  "flow_packet c f =
     (if f = keepalive_qflow then (if keepalive_sending c then Some (keepalive_packet c) else None)
      else let b = fbuffer (send_ppflow (connections c f)) in
        if tx b then ChunkBuffer2_output (pb_buf (pbuf b)) else None)"

text \<open>The calls of the queue: a packet goes through the monitor and the connector to the stream sender, a
  completed packet back to the flow it came from.\<close>

fun queue_call :: "fq_action \<Rightarrow> UdpGwClient \<Rightarrow> UdpGwClient" where
  "queue_call (FQ_send data) c =
     (let (monitor, _) = monitor_input_handler_send (send_monitor c) data;
          (connector, calls) = connector_input_handler_send (send_connector c) data;
          sender = (case calls of Con_send data # _ \<Rightarrow> fst (pss_input_handler_send (send_sender c) data) | _ \<Rightarrow> send_sender c)
      in c\<lparr>send_monitor := monitor, send_connector := connector, send_sender := sender\<rparr>)"
| "queue_call (FQ_done f) c =
     (if f = keepalive_qflow then keepalive_if_handler_done c
      else set_connection f (\<lambda>k. k\<lparr>send_ppflow := PacketProtoFlow_sent (send_ppflow k)\<rparr>) c)"
| "queue_call _ c = c"

definition queue_calls :: "UdpGwClient \<Rightarrow> PacketPassFairQueue \<times> fq_action list \<Rightarrow> UdpGwClient" where
  "queue_calls c = (\<lambda>(queue, calls). fold queue_call calls (c\<lparr>send_queue := queue\<rparr>))"

definition flow_send_job :: "UdpGwClient \<Rightarrow> flow \<Rightarrow> bytes \<Rightarrow> UdpGwClient" where
  "flow_send_job c f data = queue_calls c (fq_input_handler_send (send_queue c) f data)"

definition queue_schedule_job :: "UdpGwClient \<Rightarrow> UdpGwClient" where
  "queue_schedule_job c = queue_calls c (schedule_job_handler (send_queue c))"

text \<open>The stream has taken some bytes of the packet; when it was the last of them, the completion goes back
  through the connector and the monitor to the queue.\<close>

definition stream_done :: "UdpGwClient \<Rightarrow> nat \<Rightarrow> UdpGwClient" where
  "stream_done c n =
     (let (sender, call) = pss_output_handler_done (send_sender c) (int n);
          c = c\<lparr>send_sender := sender\<rparr>
      in case call of
           PSS_send _ \<Rightarrow> c
         | PSS_done \<Rightarrow>
             (let c = c\<lparr>send_connector := fst (connector_output_handler_done (send_connector c)),
                        send_monitor := fst (monitor_output_handler_done (send_monitor c))\<rparr>
              in queue_calls c (fq_output_handler_done (send_queue c))))"


section \<open>The trees of connections\<close>

lemma set_connection_fields [simp]:
  "udp_mtu (set_connection p u c) = udp_mtu c"
  "max_connections (set_connection p u c) = max_connections c"
  "send_buffer_size (set_connection p u c) = send_buffer_size c"
  "udpgw_mtu (set_connection p u c) = udpgw_mtu c"
  "pp_mtu (set_connection p u c) = pp_mtu c"
  "tree_by_conaddr (set_connection p u c) = tree_by_conaddr c"
  "tree_by_conid (set_connection p u c) = tree_by_conid c"
  "connections_list (set_connection p u c) = connections_list c"
  "num_connections (set_connection p u c) = num_connections c"
  "next_conid (set_connection p u c) = next_conid c"
  "send_queue (set_connection p u c) = send_queue c"
  "send_monitor (set_connection p u c) = send_monitor c"
  "send_connector (set_connection p u c) = send_connector c"
  "keepalive_packet (set_connection p u c) = keepalive_packet c"
  "keepalive_sending (set_connection p u c) = keepalive_sending c"
  "have_server (set_connection p u c) = have_server c"
  "send_sender (set_connection p u c) = send_sender c"
  "recv_decoder (set_connection p u c) = recv_decoder c"
  "connections (set_connection p u c) = (connections c)(p := u (connections c p))"
  by (simp_all add: set_connection_def)

definition valid_conaddr :: "UdpGwClient_conaddr \<Rightarrow> bool" where
  "valid_conaddr a \<longleftrightarrow> BAddr_ip (local_addr a) \<and> BAddr_ip (remote_addr a)"

lemma conaddr_comparator_less:
  assumes "valid_conaddr a" "valid_conaddr b"
  shows "conaddr_comparator a b < 0 \<longleftrightarrow> BAddr_CompareOrder (remote_addr a) (remote_addr b) < 0 \<or>
    remote_addr a = remote_addr b \<and> BAddr_CompareOrder (local_addr a) (local_addr b) < 0"
  using assms BAddr_order.cmp_zero [of "remote_addr a" "remote_addr b"]
  by (auto simp: conaddr_comparator_def valid_conaddr_def Let_def)

interpretation conaddr_order: comparator conaddr_comparator valid_conaddr
proof unfold_locales
  fix a b c
  assume v: "valid_conaddr a" "valid_conaddr b"
  then have ip: "BAddr_ip (local_addr a)" "BAddr_ip (remote_addr a)" "BAddr_ip (local_addr b)" "BAddr_ip (remote_addr b)"
    by (simp_all add: valid_conaddr_def)
  show "conaddr_comparator a b \<in> {- 1, 0, 1}"
    using BAddr_order.cmp_range [OF ip(1,3)] BAddr_order.cmp_range [OF ip(2,4)] by (auto simp: conaddr_comparator_def Let_def)
  show "conaddr_comparator a b = 0 \<longleftrightarrow> a = b"
    using BAddr_order.cmp_zero [OF ip(1,3)] BAddr_order.cmp_zero [OF ip(2,4)] by (auto simp: conaddr_comparator_def Let_def)
  show "conaddr_comparator b a = - conaddr_comparator a b"
    using BAddr_order.cmp_swap [OF ip(1,3)] BAddr_order.cmp_swap [OF ip(2,4)] by (simp add: conaddr_comparator_def Let_def)
  assume c: "valid_conaddr c" and "conaddr_comparator a b < 0" "conaddr_comparator b c < 0"
  moreover have "BAddr_ip (local_addr c)" "BAddr_ip (remote_addr c)"
    using c by (simp_all add: valid_conaddr_def)
  ultimately show "conaddr_comparator a c < 0"
    using ip BAddr_order.cmp_trans [of "remote_addr a" "remote_addr b" "remote_addr c"]
      BAddr_order.cmp_trans [of "local_addr a" "local_addr b" "local_addr c"]
    by (auto simp: conaddr_comparator_less [OF v(1,2)] conaddr_comparator_less [OF v(2) c] conaddr_comparator_less [OF v(1) c])
qed

interpretation conid_order: comparator uint16_comparator "\<lambda>_. True"
  by unfold_locales (auto simp: uint16_comparator_def B_COMPARE_def)

interpretation conaddr_tree: bavl_keyed conaddr_comparator valid_conaddr key for key :: "nat \<Rightarrow> UdpGwClient_conaddr"
  by unfold_locales

interpretation conid_tree: bavl_keyed uint16_comparator "\<lambda>_. True" key for key :: "nat \<Rightarrow> u16"
  by unfold_locales

lemma bavl_inv_key:
  assumes "bavl_inv cmp valid key t" "\<And>x. x \<in> elems t \<Longrightarrow> key' x = key x"
  shows "bavl_inv cmp valid key' t"
proof -
  have "map key' (inorder t) = map key (inorder t)"
    using assms(2) by (simp add: elems_def)
  moreover have key: "ordered cmp k (inorder t) \<longleftrightarrow> sorted_wrt (\<lambda>a b. cmp a b < 0) (map k (inorder t))"
    "list_all (valid \<circ> k) (inorder t) \<longleftrightarrow> list_all valid (map k (inorder t))" for k
    by (simp_all add: ordered_def sorted_wrt_map list_all_iff)
  ultimately show ?thesis
    using assms(1) unfolding bavl_inv_def key by (simp only:)
qed

text \<open>The trees hold the connections of the list, each under its address and under its number, and the
  numbers are below the limit, which is at most the number of 16 bit numbers.\<close>

definition ug_table :: "UdpGwClient \<Rightarrow> bool" where
  "ug_table c =
     (bavl_inv conaddr_comparator valid_conaddr (conaddr_of c) (tree_by_conaddr c) \<and>
      elems (tree_by_conaddr c) = set (connections_list c) \<and>
      bavl_inv uint16_comparator (\<lambda>_. True) (conid_of c) (tree_by_conid c) \<and>
      elems (tree_by_conid c) = set (connections_list c) \<and>
      distinct (connections_list c) \<and> num_connections c = length (connections_list c) \<and>
      num_connections c \<le> max_connections c \<and> 0 < max_connections c \<and> max_connections c \<le> 65536 \<and>
      next_conid c < max_connections c \<and> (\<forall>p\<in>set (connections_list c). unat (conid_of c p) < max_connections c))"

lemma ug_table_find:
  assumes "ug_table c"
  shows "find_connection_by_conid c i = Some p \<longleftrightarrow> p \<in> set (connections_list c) \<and> conid_of c p = i"
    "find_connection_by_conid c i = None \<longleftrightarrow> i \<notin> conid_of c ` set (connections_list c)"
    "valid_conaddr a \<Longrightarrow> find_connection_by_conaddr c a = Some p \<longleftrightarrow> p \<in> set (connections_list c) \<and> conaddr_of c p = a"
    "valid_conaddr a \<Longrightarrow> find_connection_by_conaddr c a = None \<longleftrightarrow> a \<notin> conaddr_of c ` set (connections_list c)"
  using assms conid_tree.dict.lookup_iff [of "conid_of c" "tree_by_conid c" i p]
    conid_tree.dict.lookup_None [of "conid_of c" "tree_by_conid c" i]
    conaddr_tree.dict.lookup_iff [of "conaddr_of c" "tree_by_conaddr c" a p]
    conaddr_tree.dict.lookup_None [of "conaddr_of c" "tree_by_conaddr c" a]
  by (simp_all add: ug_table_def find_connection_by_conid_def find_connection_by_conaddr_def)

lemma ug_table_inj:
  assumes "ug_table c"
  shows "inj_on (conid_of c) (set (connections_list c))" "inj_on (conaddr_of c) (set (connections_list c))"
    "\<forall>p\<in>set (connections_list c). valid_conaddr (conaddr_of c p)"
proof -
  show "inj_on (conid_of c) (set (connections_list c))" "inj_on (conaddr_of c) (set (connections_list c))"
    using assms conid_tree.elems_keys_unique [of "conid_of c" "tree_by_conid c"] conaddr_tree.elems_keys_unique [of "conaddr_of c" "tree_by_conaddr c"]
    by (auto simp: ug_table_def inj_on_def)
  show "\<forall>p\<in>set (connections_list c). valid_conaddr (conaddr_of c p)"
    using assms by (auto simp: ug_table_def bavl_inv_def elems_def list_all_iff)
qed


lemma ug_table_cong:
  assumes "ug_table c" "tree_by_conaddr c' = tree_by_conaddr c" "tree_by_conid c' = tree_by_conid c"
    "distinct (connections_list c')" "set (connections_list c') = set (connections_list c)"
    "num_connections c' = num_connections c" "max_connections c' = max_connections c" "next_conid c' < max_connections c"
    "\<And>p. p \<in> set (connections_list c) \<Longrightarrow> conaddr_of c' p = conaddr_of c p \<and> conid_of c' p = conid_of c p"
  shows "ug_table c'"
proof -
  have t: "bavl_inv conaddr_comparator valid_conaddr (conaddr_of c) (tree_by_conaddr c)"
    "elems (tree_by_conaddr c) = set (connections_list c)"
    "bavl_inv uint16_comparator (\<lambda>_. True) (conid_of c) (tree_by_conid c)" "elems (tree_by_conid c) = set (connections_list c)"
    using assms(1) by (simp_all add: ug_table_def)
  have "bavl_inv conaddr_comparator valid_conaddr (conaddr_of c') (tree_by_conaddr c)"
    "bavl_inv uint16_comparator (\<lambda>_. True) (conid_of c') (tree_by_conid c)"
    by (rule bavl_inv_key [OF t(1)] bavl_inv_key [OF t(3)]; simp add: t(2,4) assms(9))+
  moreover have "length (connections_list c') = length (connections_list c)"
    using assms(1,4,5) by (metis distinct_card ug_table_def)
  ultimately show ?thesis
    using assms by (auto simp: ug_table_def)
qed

text \<open>Whatever the starting point, the search for a free number ends while there is a free one.\<close>

lemma free_conid:
  assumes "ug_table c" "num_connections c < max_connections c"
  shows "\<exists>n < max_connections c. (of_nat n :: u16) \<notin> conid_of c ` set (connections_list c)"
proof (rule ccontr)
  assume "\<not> ?thesis"
  then have "(of_nat :: nat \<Rightarrow> u16) ` {..<max_connections c} \<subseteq> conid_of c ` set (connections_list c)"
    by auto
  then have "card ((of_nat :: nat \<Rightarrow> u16) ` {..<max_connections c}) \<le> card (conid_of c ` set (connections_list c))"
    by (rule card_mono [rotated]) simp
  also have "\<dots> \<le> length (connections_list c)"
    by (rule le_trans [OF card_image_le card_length]) simp
  finally have "card ((of_nat :: nat \<Rightarrow> u16) ` {..<max_connections c}) < max_connections c"
    using assms by (simp add: ug_table_def)
  moreover have "inj_on (of_nat :: nat \<Rightarrow> u16) {..<max_connections c}"
  proof (rule inj_on_inverseI)
    fix x
    assume "x \<in> {..<max_connections c}"
    then have "x < 65536"
      using assms(1) by (simp add: ug_table_def)
    then show "unat (of_nat x :: u16) = x"
      by (rule unat_of_nat_u16)
  qed
  then have "card ((of_nat :: nat \<Rightarrow> u16) ` {..<max_connections c}) = max_connections c"
    by (simp add: card_image)
  ultimately show False
    by simp
qed

definition steps_to :: "nat \<Rightarrow> nat \<Rightarrow> nat \<Rightarrow> nat" where
  "steps_to m d n = (if n \<le> d then d - n else d + m - n)"

lemma find_unused_conid_from:
  assumes "ug_table c" "d < max_connections c" "(of_nat d :: u16) \<notin> conid_of c ` set (connections_list c)" "next_conid c < max_connections c"
  shows "\<exists>n < max_connections c. find_unused_conid c = Some (c\<lparr>next_conid := n\<rparr>, of_nat n) \<and>
    (of_nat n :: u16) \<notin> conid_of c ` set (connections_list c)"
  using assms
proof (induction "steps_to (max_connections c) d (next_conid c)" arbitrary: c rule: less_induct)
  case less
  note table = less.prems(1)
  show ?case
  proof (cases "find_connection_by_conid c (of_nat (next_conid c)) = None")
    case True
    then show ?thesis
      using less.prems ug_table_find(2) [OF table]
      by (intro exI [of _ "next_conid c"]) (simp add: find_unused_conid.simps)
  next
    case False
    define n where "n = (if int (next_conid c) = int (max_connections c) - 1 then 0 else next_conid c + 1)"
    have "next_conid c \<noteq> d"
      using False less.prems(3) ug_table_find(2) [OF table] by auto
    then have "n < max_connections c \<and> steps_to (max_connections c) d n < steps_to (max_connections c) d (next_conid c)"
      using less.prems(2,4) by (auto simp: n_def steps_to_def)
    moreover have "ug_table (c\<lparr>next_conid := n\<rparr>)"
      using calculation table by (simp add: ug_table_def)
    moreover have "find_unused_conid c = find_unused_conid (c\<lparr>next_conid := n\<rparr>)"
      using False by (subst find_unused_conid.simps) (simp only: n_def if_False)
    ultimately show ?thesis
      using less.hyps [of "c\<lparr>next_conid := n\<rparr>"] less.prems by simp
  qed
qed

lemma find_unused_conid_Some:
  assumes "ug_table c" "num_connections c < max_connections c"
  obtains n where "n < max_connections c" "find_unused_conid c = Some (c\<lparr>next_conid := n\<rparr>, of_nat n)"
    "(of_nat n :: u16) \<notin> conid_of c ` set (connections_list c)"
proof -
  obtain d where "d < max_connections c" "(of_nat d :: u16) \<notin> conid_of c ` set (connections_list c)"
    using free_conid [OF assms] by blast
  moreover have "next_conid c < max_connections c"
    using assms(1) by (simp add: ug_table_def)
  ultimately show thesis
    using find_unused_conid_from [OF assms(1)] that by blast
qed

lemma remove_node_inv:
  assumes "bavl_inv conaddr_comparator valid_conaddr (conaddr_of c) t" "p \<in> elems t"
  shows "bavl_inv conaddr_comparator valid_conaddr (conaddr_of c) (remove_node t p)" "elems (remove_node t p) = elems t - {p}"
proof -
  obtain ref where "BAVL_entry p t [] = Some ref" "bavl_inv conaddr_comparator valid_conaddr (conaddr_of c) (BAVL_Remove ref)"
    "elems (BAVL_Remove ref) = elems t - {p}"
    using conaddr_tree.remove_entry [OF assms] by blast
  then show "bavl_inv conaddr_comparator valid_conaddr (conaddr_of c) (remove_node t p)" "elems (remove_node t p) = elems t - {p}"
    by (simp_all add: remove_node_def)
qed

lemma remove_node_conid:
  assumes "bavl_inv uint16_comparator (\<lambda>_. True) (conid_of c) t" "p \<in> elems t"
  shows "bavl_inv uint16_comparator (\<lambda>_. True) (conid_of c) (remove_node t p)" "elems (remove_node t p) = elems t - {p}"
proof -
  obtain ref where "BAVL_entry p t [] = Some ref" "bavl_inv uint16_comparator (\<lambda>_. True) (conid_of c) (BAVL_Remove ref)"
    "elems (BAVL_Remove ref) = elems t - {p}"
    using conid_tree.remove_entry [OF assms] by blast
  then show "bavl_inv uint16_comparator (\<lambda>_. True) (conid_of c) (remove_node t p)" "elems (remove_node t p) = elems t - {p}"
    by (simp_all add: remove_node_def)
qed


section \<open>Operations on the table\<close>

lemma ug_table_add:
  assumes table: "ug_table c" and p: "p \<notin> set (connections_list c)" and room: "num_connections c < max_connections c"
    and a: "valid_conaddr (conaddr_of c' p)" "conaddr_of c' p \<notin> conaddr_of c ` set (connections_list c)"
    and i: "conid_of c' p \<notin> conid_of c ` set (connections_list c)" "unat (conid_of c' p) < max_connections c"
    and keys: "\<And>q. q \<in> set (connections_list c) \<Longrightarrow> conaddr_of c' q = conaddr_of c q \<and> conid_of c' q = conid_of c q"
    and trees: "tree_by_conaddr c' = fst (BAVL_Insert conaddr_comparator (conaddr_of c') (tree_by_conaddr c) p)"
      "tree_by_conid c' = fst (BAVL_Insert uint16_comparator (conid_of c') (tree_by_conid c) p)"
    and rest: "connections_list c' = connections_list c @ [p]" "num_connections c' = num_connections c + 1"
      "max_connections c' = max_connections c" "next_conid c' < max_connections c"
  shows "ug_table c'"
proof -
  have t: "bavl_inv conaddr_comparator valid_conaddr (conaddr_of c) (tree_by_conaddr c)"
    "elems (tree_by_conaddr c) = set (connections_list c)"
    "bavl_inv uint16_comparator (\<lambda>_. True) (conid_of c) (tree_by_conid c)" "elems (tree_by_conid c) = set (connections_list c)"
    using table by (simp_all add: ug_table_def)
  have inv: "bavl_inv conaddr_comparator valid_conaddr (conaddr_of c') (tree_by_conaddr c)"
    "bavl_inv uint16_comparator (\<lambda>_. True) (conid_of c') (tree_by_conid c)"
    by (rule bavl_inv_key [OF t(1)] bavl_inv_key [OF t(3)]; simp add: t(2,4) keys)+
  have new: "conaddr_of c' p \<notin> conaddr_of c' ` elems (tree_by_conaddr c)" "conid_of c' p \<notin> conid_of c' ` elems (tree_by_conid c)"
    using a(2) i(1) keys t(2,4) by auto
  obtain t1 r1 where "BAVL_Insert conaddr_comparator (conaddr_of c') (tree_by_conaddr c) p = (t1, r1, True)"
    "bavl_inv conaddr_comparator valid_conaddr (conaddr_of c') t1" "elems t1 = insert p (set (connections_list c))"
    using conaddr_tree.dict.ins_new [OF inv(1) a(1) new(1)] t(2) by auto
  moreover obtain t2 r2 where "BAVL_Insert uint16_comparator (conid_of c') (tree_by_conid c) p = (t2, r2, True)"
    "bavl_inv uint16_comparator (\<lambda>_. True) (conid_of c') t2" "elems t2 = insert p (set (connections_list c))"
    using conid_tree.dict.ins_new [OF inv(2) TrueI new(2)] t(4) by auto
  moreover have "\<forall>q\<in>set (connections_list c). unat (conid_of c' q) < max_connections c"
    using table keys by (simp add: ug_table_def)
  ultimately show ?thesis
    using table p room i(2) trees rest by (simp add: ug_table_def)
qed

lemma ug_table_rebind:
  assumes table: "ug_table c" and p: "p \<in> set (connections_list c)"
    and a: "valid_conaddr (conaddr_of c' p)" "conaddr_of c' p \<notin> conaddr_of c ` set (connections_list c)"
    and keys: "\<And>q. q \<noteq> p \<Longrightarrow> conaddr_of c' q = conaddr_of c q" "\<And>q. conid_of c' q = conid_of c q"
    and trees: "tree_by_conaddr c' = fst (BAVL_Insert conaddr_comparator (conaddr_of c') (remove_node (tree_by_conaddr c) p) p)"
      "tree_by_conid c' = tree_by_conid c"
    and rest: "connections_list c' = connections_list c" "num_connections c' = num_connections c"
      "max_connections c' = max_connections c" "next_conid c' = next_conid c"
  shows "ug_table c'"
proof -
  have t: "bavl_inv conaddr_comparator valid_conaddr (conaddr_of c) (tree_by_conaddr c)"
    "elems (tree_by_conaddr c) = set (connections_list c)"
    "bavl_inv uint16_comparator (\<lambda>_. True) (conid_of c) (tree_by_conid c)" "elems (tree_by_conid c) = set (connections_list c)"
    using table by (simp_all add: ug_table_def)
  let ?t = "remove_node (tree_by_conaddr c) p"
  have rem: "bavl_inv conaddr_comparator valid_conaddr (conaddr_of c) ?t" "elems ?t = set (connections_list c) - {p}"
    using remove_node_inv [OF t(1), of p] p t(2) by simp_all
  have "bavl_inv conaddr_comparator valid_conaddr (conaddr_of c') ?t"
    by (rule bavl_inv_key [OF rem(1)]) (simp add: rem(2) keys(1))
  moreover have "conaddr_of c' p \<notin> conaddr_of c' ` elems ?t"
    using a(2) keys(1) by (auto simp: rem(2))
  ultimately obtain t1 r1 where "BAVL_Insert conaddr_comparator (conaddr_of c') ?t p = (t1, r1, True)"
    "bavl_inv conaddr_comparator valid_conaddr (conaddr_of c') t1" "elems t1 = insert p (set (connections_list c) - {p})"
    using conaddr_tree.dict.ins_new [of "conaddr_of c'" ?t p] a(1) rem(2) by auto
  moreover have "bavl_inv uint16_comparator (\<lambda>_. True) (conid_of c') (tree_by_conid c)"
    by (rule bavl_inv_key [OF t(3)]) (simp add: keys(2))
  ultimately show ?thesis
    using table p trees rest keys(2) by (auto simp: ug_table_def)
qed



text \<open>The three ways \<open>connection_init\<close> goes when there is a free number.\<close>

lemma connection_init_cases:
  assumes table: "ug_table c" and room: "num_connections c < max_connections c"
    and fresh: "\<forall>p. malloc = Some p \<longrightarrow> p \<notin> set (connections_list c)"
  obtains
    (no_memory) "malloc = None" "connection_init malloc alloc c a flags data = Some c"
  | (no_flow) p n con where "malloc = Some p" "n < max_connections c" "PacketProtoFlow_Init (udpgw_mtu c) (send_buffer_size c) alloc = None"
      "connection_init malloc alloc c a flags data = Some (c\<lparr>next_conid := n, connections := (connections c)(p := con),
         send_queue := PacketPassFairQueueFlow_Free p (PacketPassFairQueueFlow_Init p (send_queue c))\<rparr>)"
  | (new) p n f con where "malloc = Some p" "n < max_connections c" "of_nat n \<notin> conid_of c ` set (connections_list c)"
      "PacketProtoFlow_Init (udpgw_mtu c) (send_buffer_size c) alloc = Some f"
      "conaddr con = a" "first_flags con = flags" "first_data con = data" "conid con = of_nat n" "first_job con" "send_ppflow con = flow_settle f"
      "connection_init malloc alloc c a flags data = Some (let c = c\<lparr>next_conid := n, connections := (connections c)(p := con),
         send_queue := PacketPassFairQueueFlow_Init p (send_queue c)\<rparr>; c = conid_Insert (conaddr_Insert c p) p
         in c\<lparr>connections_list := connections_list c @ [p], num_connections := num_connections c + 1\<rparr>)"
proof (cases malloc)
  case None
  then show thesis
    by (intro no_memory) (simp_all add: connection_init_def)
next
  case (Some p)
  define c1 where "c1 = set_connection p (\<lambda>k. k\<lparr>conaddr := a, first_flags := flags, first_data := data\<rparr>) c"
  have p: "p \<notin> set (connections_list c)"
    using fresh Some by blast
  have c1: "ug_table c1"
    by (rule ug_table_cong [OF table]) (use table p in \<open>auto simp: c1_def set_connection_def ug_table_def\<close>)
  have "num_connections c1 < max_connections c1"
    using room by (simp add: c1_def set_connection_def)
  from find_unused_conid_Some [OF c1 this] obtain n where n: "n < max_connections c1"
    "find_unused_conid c1 = Some (c1\<lparr>next_conid := n\<rparr>, of_nat n)" "(of_nat n :: u16) \<notin> conid_of c1 ` set (connections_list c1)" .
  have "of_nat n \<notin> conid_of c ` set (connections_list c)" "n < max_connections c"
    using n(1,3) p by (auto simp: c1_def set_connection_def)
  note new' = new [OF Some this(2,1)] and no_flow' = no_flow [OF Some this(2)]
  have fields: "send_queue c1 = send_queue c" "udpgw_mtu c1 = udpgw_mtu c" "send_buffer_size c1 = send_buffer_size c"
    by (simp_all add: c1_def)
  have init: "connection_init malloc alloc c a flags data = (case PacketProtoFlow_Init (udpgw_mtu c) (send_buffer_size c) alloc of
      None \<Rightarrow> Some (set_connection p (\<lambda>k. k\<lparr>first_job := False\<rparr>)
        ((set_connection p (\<lambda>k. k\<lparr>conid := of_nat n, first_job := True\<rparr>) (c1\<lparr>next_conid := n\<rparr>))
          \<lparr>send_queue := PacketPassFairQueueFlow_Free p (PacketPassFairQueueFlow_Init p (send_queue c))\<rparr>))
    | Some f \<Rightarrow> Some (let c = set_connection p (\<lambda>k. k\<lparr>send_ppflow := flow_settle f\<rparr>)
        ((set_connection p (\<lambda>k. k\<lparr>conid := of_nat n, first_job := True\<rparr>) (c1\<lparr>next_conid := n\<rparr>))
          \<lparr>send_queue := PacketPassFairQueueFlow_Init p (send_queue c)\<rparr>);
        c = conid_Insert (conaddr_Insert c p) p
        in c\<lparr>connections_list := connections_list c @ [p], num_connections := num_connections c + 1\<rparr>))"
    using Some n(2) unfolding connection_init_def
    by (simp add: c1_def [symmetric] Let_def fields cong: option.case_cong)
  show thesis
  proof (cases "PacketProtoFlow_Init (udpgw_mtu c) (send_buffer_size c) alloc")
    case None
    let ?con = "(connections c p)\<lparr>conaddr := a, first_flags := flags, first_data := data, conid := of_nat n, first_job := False\<rparr>"
    have "set_connection p (\<lambda>k. k\<lparr>first_job := False\<rparr>)
        ((set_connection p (\<lambda>k. k\<lparr>conid := of_nat n, first_job := True\<rparr>) (c1\<lparr>next_conid := n\<rparr>))
          \<lparr>send_queue := PacketPassFairQueueFlow_Free p (PacketPassFairQueueFlow_Init p (send_queue c))\<rparr>) =
      c\<lparr>next_conid := n, connections := (connections c)(p := ?con),
        send_queue := PacketPassFairQueueFlow_Free p (PacketPassFairQueueFlow_Init p (send_queue c))\<rparr>"
      by (rule UdpGwClient.equality) (simp_all add: c1_def)
    with None show thesis
      by (intro no_flow' [of ?con]) (simp_all only: init option.case)
  next
    case (Some f)
    let ?con = "(connections c p)\<lparr>conaddr := a, first_flags := flags, first_data := data, conid := of_nat n, first_job := True, send_ppflow := flow_settle f\<rparr>"
    have "set_connection p (\<lambda>k. k\<lparr>send_ppflow := flow_settle f\<rparr>)
        ((set_connection p (\<lambda>k. k\<lparr>conid := of_nat n, first_job := True\<rparr>) (c1\<lparr>next_conid := n\<rparr>))
          \<lparr>send_queue := PacketPassFairQueueFlow_Init p (send_queue c)\<rparr>) =
      c\<lparr>next_conid := n, connections := (connections c)(p := ?con), send_queue := PacketPassFairQueueFlow_Init p (send_queue c)\<rparr>"
      by (rule UdpGwClient.equality) (simp_all add: c1_def)
    then have "connection_init malloc alloc c a flags data = Some (let c = c\<lparr>next_conid := n, connections := (connections c)(p := ?con),
         send_queue := PacketPassFairQueueFlow_Init p (send_queue c)\<rparr>; c = conid_Insert (conaddr_Insert c p) p
         in c\<lparr>connections_list := connections_list c @ [p], num_connections := num_connections c + 1\<rparr>)"
      by (simp only: init Some option.case)
    then show thesis
      by (intro new' [OF Some, of ?con]) simp_all
  qed
qed

end
