(* ===== verification/UdpGwRun.thy ===== *)
theory UdpGwRun
  imports UdpGwClient
begin

text \<open>
  The udpgw client at work: packets are submitted, first jobs and the jobs of the flows and the queue run,
  the stream takes bytes as it likes, servers come and go, messages arrive and the keep-alive timer
  expires, in any order.  The invariant of all such runs ties the table of connections, the packet
  flows, the fair queue, the connector, the monitor and the stream sender together.
\<close>

section \<open>The queue as its user sees it\<close>

lemma schedule_effect:
  assumes "fq_tree m" "queued m \<noteq> {}"
  obtains q where "q \<in> queued m" "snd (schedule m) = [FQ_send (queued_data (flows m q))]"
    "sending_flow (fst (schedule m)) = Some q" "sending_len (fst (schedule m)) = length (queued_data (flows m q))"
    "queued (fst (schedule m)) = queued m - {q}" "\<And>g. queued_data (flows (fst (schedule m)) g) = queued_data (flows m g)"
    "flows_list (fst (schedule m)) = flows_list m" "freeing (fst (schedule m)) = freeing m" "fq_mtu (fst (schedule m)) = fq_mtu m"
proof -
  have "queued_tree m \<noteq> Null"
    using assms elems_empty [of "queued_tree m"] by (simp add: fq_tree_def)
  then obtain q where q: "SAvl_GetFirst (queued_tree m) = Some q"
    using SAvl_GetFirst_None [of "queued_tree m"] by blast
  have "q \<in> queued m"
    using SAvl_GetFirst_least(1) [OF _ q] assms(1) by (auto simp: fq_tree_def)
  moreover have "schedule m = ((set_flow q (\<lambda>f. f\<lparr>is_queued := False\<rparr>) (m\<lparr>queued_tree := SAvl_Remove (queued_tree m) q\<rparr>))
      \<lparr>sending_flow := Some q, sending_len := length (queued_data (flows m q))\<rparr>, [FQ_send (queued_data (flows m q))])"
    by (simp add: schedule_def q Let_def)
  ultimately show thesis
    by (intro that [of q]) (auto simp: queued_def)
qed

lemma send_effect:
  assumes "fq_inv m" "f \<in> set (flows_list m)" "\<not> freeing m" "sending_flow m \<noteq> Some f" "\<not> is_queued (flows m f)"
    "fq_input_handler_send m f data = (m', calls)"
  shows "flows_list m' = flows_list m \<and> freeing m' = freeing m \<and> fq_mtu m' = fq_mtu m \<and>
    (\<forall>g. queued_data (flows m' g) = (if g = f then data else queued_data (flows m g))) \<and>
    (if sending_flow m = None \<and> \<not> schedule_job m
     then calls = [FQ_send data] \<and> sending_flow m' = Some f \<and> sending_len m' = length data \<and> queued m' = {} \<and> queued m = {}
     else calls = [] \<and> sending_flow m' = sending_flow m \<and> sending_len m' = sending_len m \<and> queued m' = insert f (queued m))"
proof -
  define t where "t = (if previous_flow m = Some f then vtime (flows m f) else max (vtime (flows m f)) (get_current_time m))"
  define F where "F = (flows m)(f := (flows m f)\<lparr>vtime := t, queued_data := data\<rparr>)"
  define m4 where "m4 = m\<lparr>previous_flow := (if previous_flow m = Some f then None else previous_flow m),
    flows := F(f := (F f)\<lparr>is_queued := True\<rparr>),
    queued_tree := fst (SAvl_Insert (compare_flows F) (queued_tree m) f)\<rparr>"
  have eq: "fq_input_handler_send m f data = (if sending_flow m4 = None \<and> \<not> schedule_job m4 then schedule m4 else (m4, []))"
    by (cases m) (auto simp: fq_input_handler_send_def set_flow_def Let_def m4_def F_def t_def)
  have nq: "f \<notin> queued m"
    using assms(5) by (simp add: queued_def)
  have tree: "fq_tree m4" "queued m4 = insert f (queued m)"
    by (rule enqueue_tree [OF _ nq assms(2) F_def]; use assms(1) in \<open>simp add: m4_def fq_inv_def\<close>)+
  have m4: "flows_list m4 = flows_list m" "freeing m4 = freeing m" "fq_mtu m4 = fq_mtu m" "sending_flow m4 = sending_flow m"
    "schedule_job m4 = schedule_job m" "sending_len m4 = sending_len m"
    "queued_data (flows m4 g) = (if g = f then data else queued_data (flows m g))" for g
    by (simp_all add: m4_def F_def)
  have idle: "queued m = {}" if "sending_flow m = None" "\<not> schedule_job m"
    using assms(1,3) that by (simp add: fq_inv_defs)
  show ?thesis
  proof (cases "sending_flow m = None \<and> \<not> schedule_job m")
    case True
    then have "queued m4 = {f}"
      using idle tree(2) by simp
    moreover from this obtain q where "q \<in> queued m4" "calls = [FQ_send (queued_data (flows m4 q))]"
      "sending_flow m' = Some q" "sending_len m' = length (queued_data (flows m4 q))" "queued m' = queued m4 - {q}"
      "\<And>g. queued_data (flows m' g) = queued_data (flows m4 g)"
      "flows_list m' = flows_list m4" "freeing m' = freeing m4" "fq_mtu m' = fq_mtu m4"
      using schedule_effect [OF tree(1)] True m4(4,5) assms(6) unfolding eq by (simp, blast)
    ultimately show ?thesis
      using True m4 idle by simp
  next
    case False
    then show ?thesis
      using m4 tree(2) assms(6) by (auto simp: eq)
  qed
qed

lemma schedule_job_effect:
  assumes "fq_inv m" "schedule_job m" "\<not> freeing m"
    "schedule_job_handler m = (m', calls)"
  shows "flows_list m' = flows_list m \<and> freeing m' = freeing m \<and> fq_mtu m' = fq_mtu m \<and> sending_flow m = None \<and>
    (\<forall>g. queued_data (flows m' g) = queued_data (flows m g)) \<and>
    (if queued m = {} then calls = [] \<and> sending_flow m' = None \<and> queued m' = {}
     else \<exists>q\<in>queued m. calls = [FQ_send (queued_data (flows m q))] \<and> sending_flow m' = Some q \<and>
       sending_len m' = length (queued_data (flows m q)) \<and> queued m' = queued m - {q})"
proof -
  define m1 where "m1 = m\<lparr>schedule_job := False, previous_flow := None\<rparr>"
  have m1: "fq_tree m1" "queued m1 = queued m" "flows m1 = flows m" "flows_list m1 = flows_list m" "freeing m1 = freeing m" "fq_mtu m1 = fq_mtu m"
    using assms(1) by (simp_all add: fq_inv_defs m1_def queued_def)
  have idle: "sending_flow m = None"
    using assms(1,2) by (cases "sending_flow m") (auto simp: fq_inv_defs)
  have "queued_tree m = Null \<longleftrightarrow> queued m = {}"
    using assms(1) elems_empty [of "queued_tree m"] by (simp add: fq_inv_defs)
  then have eq: "schedule_job_handler m = (if queued m = {} then (m1, []) else schedule m1)"
    by (simp add: schedule_job_handler_def m1_def Let_def savl_defs)
  show ?thesis
  proof (cases "queued m = {}")
    case True
    then show ?thesis
      using m1 idle assms(4) by (auto simp: eq) (auto simp: m1_def)
  next
    case False
    then have "queued m1 \<noteq> {}" "schedule m1 = (m', calls)"
      using m1(2) assms(4) by (simp_all add: eq)
    then obtain q where "q \<in> queued m1" "calls = [FQ_send (queued_data (flows m1 q))]"
      "sending_flow m' = Some q" "sending_len m' = length (queued_data (flows m1 q))" "queued m' = queued m1 - {q}"
      "\<And>g. queued_data (flows m' g) = queued_data (flows m1 g)"
      "flows_list m' = flows_list m1" "freeing m' = freeing m1" "fq_mtu m' = fq_mtu m1"
      using schedule_effect [OF m1(1)] by (metis fst_conv snd_conv)
    then show ?thesis
      using False idle m1 by auto
  qed
qed

lemma done_effect:
  assumes "fq_inv m" "sending_flow m = Some f"
  defines "m' \<equiv> fst (fq_output_handler_done m)"
  shows "flows_list m' = flows_list m" "freeing m' = freeing m" "fq_mtu m' = fq_mtu m" "queued m' = queued m" "sending_flow m' = None"
    "schedule_job m'" "queued_data (flows m' g) = queued_data (flows m g)"
    "\<exists>rest. snd (fq_output_handler_done m) = FQ_done f # rest \<and> (rest = [] \<or> (\<exists>u. rest = [FQ_busy u]))"
proof -
  note sent = sent_exact [OF assms(1,2) refl, folded m'_def]
  show "flows_list m' = flows_list m" "freeing m' = freeing m" "fq_mtu m' = fq_mtu m" "sending_flow m' = None" "schedule_job m'"
    by (subst sent(3), simp)+
  show "queued m' = queued m" "queued_data (flows m' g) = queued_data (flows m g)"
    using sent(2,5) by simp_all
  show "\<exists>rest. snd (fq_output_handler_done m) = FQ_done f # rest \<and> (rest = [] \<or> (\<exists>u. rest = [FQ_busy u]))"
    using assms(2) by (simp add: fq_output_handler_done_def Let_def split: option.split)
qed


section \<open>Runs of the client\<close>

fun writes :: "ug_action list \<Rightarrow> (flow \<times> bytes) list" where
  "writes [] = []"
| "writes (UG_write p m # acts) = (p, m) # writes acts"
| "writes (_ # acts) = writes acts"

text \<open>Besides the client, a run records the messages written into each flow, the packets completed before and
  since the last server was connected, and the bytes the present server's stream has taken.  The users
  of the client keep their side of the assertions, jobs run before the next packet is
  submitted, and \<open>malloc\<close> does not give memory that is in use.\<close>

inductive ug_run :: "UdpGwClient \<Rightarrow> UdpGwClient \<Rightarrow> (flow \<times> bytes) list \<Rightarrow> (flow \<times> bytes) list \<Rightarrow> (flow \<times> bytes) list \<Rightarrow> bytes \<Rightarrow> bool"
  for c0 where
  ug_start: "ug_run c0 c0 [] [] [] []"
| ug_submit: "ug_run c0 c w old here wire \<Longrightarrow> BAddr_ip local \<Longrightarrow> BAddr_ip remote \<Longrightarrow> length data \<le> udp_mtu c \<Longrightarrow>
    (\<forall>p\<in>set (connections_list c). \<not> first_job (connections c p)) \<Longrightarrow>
    (\<forall>p. malloc = Some p \<longrightarrow> p \<notin> insert 0 (set (connections_list c))) \<Longrightarrow>
    (\<forall>n a. alloc n = Some a \<longrightarrow> int (length a) = 4 * n) \<Longrightarrow>
    UdpGwClient_SubmitPacket malloc alloc c local remote is_dns data = Some (c', acts) \<Longrightarrow>
    ug_run c0 c' (w @ writes acts) old here wire"
| ug_first_job: "ug_run c0 c w old here wire \<Longrightarrow> p \<in> set (connections_list c) \<Longrightarrow> first_job (connections c p) \<Longrightarrow>
    connection_first_job_handler c p = (c', acts) \<Longrightarrow> ug_run c0 c' (w @ writes acts) old here wire"
| ug_message: "ug_run c0 c w old here wire \<Longrightarrow> have_server c \<Longrightarrow> length data \<le> udpgw_mtu c \<Longrightarrow>
    ug_run c0 (fst (recv_interface_handler_send c data)) w old here wire"
| ug_timer: "ug_run c0 c w old here wire \<Longrightarrow> im_timer (send_monitor c) \<noteq> None \<Longrightarrow>
    ug_run c0 (fst (send_monitor_handler k (c\<lparr>send_monitor := fst (monitor_timer_handler (send_monitor c))\<rparr>))) w old here wire"
| ug_flow_job: "ug_run c0 c w old here wire \<Longrightarrow> f \<in> set (flows_list (send_queue c)) \<Longrightarrow> sending_flow (send_queue c) \<noteq> Some f \<Longrightarrow>
    \<not> is_queued (flows (send_queue c) f) \<Longrightarrow> flow_packet c f = Some data \<Longrightarrow> ug_run c0 (flow_send_job c f data) w old here wire"
| ug_schedule: "ug_run c0 c w old here wire \<Longrightarrow> schedule_job (send_queue c) \<Longrightarrow> ug_run c0 (queue_schedule_job c) w old here wire"
| ug_stream_some: "ug_run c0 c w old here wire \<Longrightarrow> have_server c \<Longrightarrow> 0 < n \<Longrightarrow> in_used (send_sender c) + int n < in_len (send_sender c) \<Longrightarrow>
    ug_run c0 (stream_done c n) w old here (wire @ take n (drop (nat (in_used (send_sender c))) (in_data (send_sender c))))"
| ug_stream_all: "ug_run c0 c w old here wire \<Longrightarrow> have_server c \<Longrightarrow> 0 < n \<Longrightarrow> in_used (send_sender c) + int n = in_len (send_sender c) \<Longrightarrow>
    sending_flow (send_queue c) = Some f \<Longrightarrow> con_in (send_connector c) = Some d \<Longrightarrow>
    ug_run c0 (stream_done c n) w old (here @ [(f, d)]) (wire @ take n (drop (nat (in_used (send_sender c))) (in_data (send_sender c))))"
| ug_connect: "ug_run c0 c w old here wire \<Longrightarrow> \<not> have_server c \<Longrightarrow> UdpGwClient_ConnectServer malloc c = (c', True) \<Longrightarrow>
    ug_run c0 c' w (old @ here) [] []"
| ug_disconnect: "ug_run c0 c w old here wire \<Longrightarrow> have_server c \<Longrightarrow> ug_run c0 (UdpGwClient_DisconnectServer c) w old here wire"

definition of_flow :: "flow \<Rightarrow> (flow \<times> bytes) list \<Rightarrow> bytes list" where
  "of_flow p xs = map snd (filter (\<lambda>x. fst x = p) xs)"

text \<open>The messages written into a flow whose packets are not completed yet.\<close>

definition unsent :: "(flow \<times> bytes) list \<Rightarrow> (flow \<times> bytes) list \<Rightarrow> flow \<Rightarrow> bytes list" where
  "unsent w outs p = drop (length (of_flow p outs)) (of_flow p w)"

text \<open>The packets completed for a flow are the frames of the first messages written into it.\<close>

definition in_order :: "(flow \<times> bytes) list \<Rightarrow> (flow \<times> bytes) list \<Rightarrow> flow \<Rightarrow> bool" where
  "in_order w outs p = (map frame (take (length (of_flow p outs)) (of_flow p w)) = of_flow p outs)"

definition ug_params :: "UdpGwClient \<Rightarrow> bool" where
  "ug_params c = (udpgw_mtu c = udp_mtu c + 21 \<and> udpgw_mtu c \<le> UINT16_MAX \<and> 0 < send_buffer_size c \<and>
     4 * ChunkBuffer2_calc_blocks (2 + int (udpgw_mtu c)) (send_buffer_size c) \<le> INT_MAX \<and> keepalive_packet c = frame [1, 0, 0])"

definition ug_flow :: "UdpGwClient \<Rightarrow> (flow \<times> bytes) list \<Rightarrow> (flow \<times> bytes) list \<Rightarrow> flow \<Rightarrow> bool" where
  "ug_flow c w outs p = (let f = send_ppflow (connections c p) in
     FlowBuffers.flow_inv (send_buffer_size c) f (unsent w outs p) \<and> input_mtu (pbuf (fbuffer f)) = 2 + int (udpgw_mtu c) \<and>
     in_order w outs p \<and> length (first_data (connections c p)) \<le> udp_mtu c)"

definition ug_logs :: "UdpGwClient \<Rightarrow> (flow \<times> bytes) list \<Rightarrow> (flow \<times> bytes) list \<Rightarrow> bool" where
  "ug_logs c w outs = (fst ` set w \<subseteq> set (connections_list c) \<and> fst ` set outs \<subseteq> insert 0 (set (connections_list c)) \<and>
     (\<forall>d. (0, d) \<in> set outs \<longrightarrow> d = keepalive_packet c) \<and> (\<forall>x\<in>set w. length (snd x) \<le> udpgw_mtu c))"

definition ug_queue :: "UdpGwClient \<Rightarrow> bool" where
  "ug_queue c = (let m = send_queue c in
     fq_inv m \<and> \<not> freeing m \<and> set (flows_list m) = insert 0 (set (connections_list c)) \<and> 0 \<notin> set (connections_list c) \<and>
     fq_mtu m = 2 + udpgw_mtu c \<and> (\<forall>f\<in>queued m. flow_packet c f = Some (queued_data (flows m f))) \<and>
     (case sending_flow m of
        None \<Rightarrow> con_in (send_connector c) = None
      | Some f \<Rightarrow> con_in (send_connector c) \<noteq> None \<and> flow_packet c f = con_in (send_connector c)))"

definition ug_link :: "UdpGwClient \<Rightarrow> (flow \<times> bytes) list \<Rightarrow> bytes \<Rightarrow> bool" where
  "ug_link c here wire = (con_output (send_connector c) = have_server c \<and>
     (im_timer (send_monitor c) = None \<longleftrightarrow> con_in (send_connector c) \<noteq> None) \<and>
     (have_server c \<longrightarrow> (let s = send_sender c; sent = concat (map snd here) in
        case con_in (send_connector c) of
          None \<Rightarrow> in_len s = - 1 \<and> 0 \<le> in_used s \<and> wire = sent
        | Some d \<Rightarrow> in_data s = d \<and> in_len s = int (length d) \<and> 0 \<le> in_used s \<and> in_used s < in_len s \<and>
            wire = sent @ take (nat (in_used s)) d)))"

definition ug_inv :: "UdpGwClient \<Rightarrow> (flow \<times> bytes) list \<Rightarrow> (flow \<times> bytes) list \<Rightarrow> (flow \<times> bytes) list \<Rightarrow> bytes \<Rightarrow> bool" where
  "ug_inv c w old here wire =
     (ug_params c \<and> ug_table c \<and> (\<forall>p\<in>set (connections_list c). ug_flow c w (old @ here) p) \<and> ug_logs c w (old @ here) \<and>
      ug_queue c \<and> ug_link c here wire)"

lemma of_flow_simps [simp]:
  "of_flow p [] = []" "of_flow p (x # xs) = (if fst x = p then snd x # of_flow p xs else of_flow p xs)"
  "of_flow p (xs @ ys) = of_flow p xs @ of_flow p ys"
  by (simp_all add: of_flow_def)

lemma of_flow_empty: "p \<notin> fst ` set xs \<Longrightarrow> of_flow p xs = []"
  by (induction xs) auto

lemma writes_append: "writes (xs @ ys) = writes xs @ writes ys"
  by (induction xs rule: writes.induct) auto

text \<open>The packet at the front of a flow is the frame of its first unsent message.\<close>

lemma flow_front:
  assumes "FlowBuffers.flow_inv num f ps"
  shows "(if tx (fbuffer f) then ChunkBuffer2_output (pb_buf (pbuf (fbuffer f))) else None) =
    (case ps of [] \<Rightarrow> None | m # _ \<Rightarrow> Some (frame m))"
proof -
  have "cb_holds (pb_buf (pbuf (fbuffer f))) (map frame ps)" "tx (fbuffer f) \<longleftrightarrow> ps \<noteq> []"
    using assms by (simp_all add: FlowBuffers.flow_inv_def pb_inv_def Let_def)
  then show ?thesis
    using ChunkBuffer2.out_Some [of "pb_buf (pbuf (fbuffer f))" "map frame ps"] by (cases ps) auto
qed

lemma flow_packet_conn:
  assumes "ug_flow c w outs p" "p \<noteq> 0"
  shows "flow_packet c p = (case unsent w outs p of [] \<Rightarrow> None | m # _ \<Rightarrow> Some (frame m))"
  using assms flow_front [of "send_buffer_size c" "send_ppflow (connections c p)" "unsent w outs p"]
  by (simp add: flow_packet_def ug_flow_def Let_def)


section \<open>Writing messages\<close>

lemma flow_packet_cong:
  assumes "keepalive_sending c' = keepalive_sending c" "keepalive_packet c' = keepalive_packet c"
    "send_ppflow (connections c' f) = send_ppflow (connections c f)"
  shows "flow_packet c' f = flow_packet c f"
  using assms by (simp add: flow_packet_def)

lemma flow_packet_same:
  "flow_packet (c\<lparr>send_sender := s\<rparr>) f = flow_packet c f" "flow_packet (c\<lparr>send_connector := k\<rparr>) f = flow_packet c f"
  "flow_packet (c\<lparr>recv_decoder := d\<rparr>) f = flow_packet c f" "flow_packet (c\<lparr>have_server := b\<rparr>) f = flow_packet c f"
  by (rule flow_packet_cong; simp)+

lemma ug_params_cong:
  assumes "udp_mtu c' = udp_mtu c" "udpgw_mtu c' = udpgw_mtu c" "send_buffer_size c' = send_buffer_size c" "keepalive_packet c' = keepalive_packet c"
  shows "ug_params c' = ug_params c"
  using assms by (simp add: ug_params_def)

lemma ug_logs_cong:
  assumes "set (connections_list c') = set (connections_list c)" "keepalive_packet c' = keepalive_packet c" "udpgw_mtu c' = udpgw_mtu c"
  shows "ug_logs c' w outs = ug_logs c w outs"
  using assms by (simp add: ug_logs_def)

lemma ug_link_cong:
  assumes "send_connector c' = send_connector c" "send_monitor c' = send_monitor c" "send_sender c' = send_sender c" "have_server c' = have_server c"
  shows "ug_link c' here wire = ug_link c here wire"
  using assms by (simp add: ug_link_def)

lemma ug_queue_cong:
  assumes "ug_queue c" "send_queue c' = send_queue c" "con_in (send_connector c') = con_in (send_connector c)"
    "set (connections_list c') = set (connections_list c)" "udpgw_mtu c' = udpgw_mtu c"
    "\<And>f d. f \<in> set (flows_list (send_queue c)) \<Longrightarrow> flow_packet c f = Some d \<Longrightarrow> flow_packet c' f = Some d"
  shows "ug_queue c'"
proof -
  have "sending_flow (send_queue c) = Some f \<Longrightarrow> f \<in> set (flows_list (send_queue c))" for f
    using assms(1) by (auto simp: ug_queue_def fq_inv_defs Let_def)
  then show ?thesis
    using assms by (auto simp: ug_queue_def Let_def queued_def split: option.splits)
qed

lemma ug_flow_length: "ug_flow c w outs p \<Longrightarrow> length (of_flow p outs) \<le> length (of_flow p w)"
  by (metis in_order_def length_map length_take min.cobounded1 ug_flow_def)

lemma ug_flow_cong:
  assumes "ug_flow c w outs p" "send_ppflow (connections c' p) = send_ppflow (connections c p)"
    "length (first_data (connections c' p)) \<le> udp_mtu c"
    "send_buffer_size c' = send_buffer_size c" "udpgw_mtu c' = udpgw_mtu c" "udp_mtu c' = udp_mtu c"
  shows "ug_flow c' w outs p"
  using assms by (simp add: ug_flow_def Let_def)

lemma remote_addr_bytes_length: "BAddr_ip a \<Longrightarrow> length (remote_addr_bytes a) \<le> 18"
  by (cases a) (simp_all add: udpgw_addr_ipv4_bytes_def udpgw_addr_ipv6_bytes_def length_mem)

lemma ug_inv_conn:
  assumes "ug_inv c w old here wire" "p \<in> set (connections_list c)"
  shows "ug_flow c w (old @ here) p" "p \<noteq> 0"
proof -
  show "ug_flow c w (old @ here) p"
    using assms by (simp add: ug_inv_def)
  have "0 \<notin> set (connections_list c)"
    using assms(1) by (simp add: ug_inv_def ug_queue_def Let_def)
  with assms(2) show "p \<noteq> 0"
    by metis
qed

lemma write_inv:
  assumes inv: "ug_inv c w old here wire" and p: "p \<in> set (connections_list c)" and len: "length m \<le> udpgw_mtu c"
    and f: "PacketProtoFlow_write (send_ppflow (connections c p)) m = Some f"
  shows "ug_inv (set_connection p (\<lambda>k. k\<lparr>send_ppflow := f\<rparr>) c) (w @ [(p, m)]) old here wire"
proof -
  let ?c = "set_connection p (\<lambda>k. k\<lparr>send_ppflow := f\<rparr>) c" and ?o = "old @ here"
  have flow: "ug_flow c w ?o p" and p0: "p \<noteq> 0"
    using ug_inv_conn [OF inv p] by simp_all
  then have fi: "FlowBuffers.flow_inv (send_buffer_size c) (send_ppflow (connections c p)) (unsent w ?o p)"
    and mtu: "input_mtu (pbuf (fbuffer (send_ppflow (connections c p)))) = 2 + int (udpgw_mtu c)"
    by (simp_all add: ug_flow_def Let_def)
  have "int (PACKETPROTO_ENCLEN (length m)) \<le> input_mtu (pbuf (fbuffer (send_ppflow (connections c p))))"
    using len mtu by (simp add: PACKETPROTO_ENCLEN_def)
  note wr = flow_write_inv [OF fi this f]
  have mtu': "input_mtu (pbuf (fbuffer f)) = 2 + int (udpgw_mtu c)"
    using wr(2) mtu by simp
  have "unsent (w @ [(p, m)]) ?o p = unsent w ?o p @ [m]" "\<And>q. q \<noteq> p \<Longrightarrow> unsent (w @ [(p, m)]) ?o q = unsent w ?o q"
    using ug_flow_length [OF flow] by (auto simp: unsent_def)
  note un = this
  have ord: "in_order (w @ [(p, m)]) ?o q = in_order w ?o q" if "ug_flow c w ?o q" for q
    using ug_flow_length [OF that] by (simp add: in_order_def)
  have new: "ug_flow ?c (w @ [(p, m)]) ?o p"
    using wr(1) mtu' flow ord [OF flow] by (simp add: ug_flow_def Let_def un(1))
  have other: "ug_flow ?c (w @ [(p, m)]) ?o q" if "ug_flow c w ?o q" "q \<noteq> p" for q
    using that un(2) [OF that(2)] ord [OF that(1)] by (simp add: ug_flow_def Let_def)
  have keep: "flow_packet ?c q = Some d" if "flow_packet c q = Some d" for q d
  proof (cases "q = p")
    case True
    then show ?thesis
      using that flow_packet_conn [OF flow p0] flow_packet_conn [OF new p0] un(1) by (auto split: list.splits)
  next
    case False
    then show ?thesis
      using that flow_packet_cong [of ?c c q] by simp
  qed
  have "ug_table ?c"
    by (rule ug_table_cong [of c]) (use inv in \<open>auto simp: ug_inv_def ug_table_def\<close>)
  moreover have "ug_queue ?c"
    by (rule ug_queue_cong [of c]) (use inv keep in \<open>auto simp: ug_inv_def\<close>)
  moreover have "ug_params ?c" "ug_logs ?c (w @ [(p, m)]) ?o" "ug_link ?c here wire"
    using inv p len by (auto simp: ug_inv_def ug_params_def ug_logs_def ug_link_def)
  ultimately show ?thesis
    using inv new other by (auto simp: ug_inv_def)
qed

lemma connection_send_inv:
  assumes inv: "ug_inv c w old here wire" and p: "p \<in> set (connections_list c)" and len: "length data \<le> udp_mtu c"
    and send: "connection_send c p flags data = (c', acts)"
  shows "ug_inv c' (w @ writes acts) old here wire"
proof -
  have "BAddr_ip (remote_addr (conaddr_of c p))"
    using ug_table_inj(3) [of c] inv p by (simp add: ug_inv_def valid_conaddr_def)
  then have "length (remote_addr_bytes (remote_addr (conaddr_of c p)) @ data) + 3 \<le> udpgw_mtu c"
    using remote_addr_bytes_length [of "remote_addr (conaddr_of c p)"] inv len by (simp add: ug_inv_def ug_params_def)
  then have "length (udpgw_header_bytes h @ remote_addr_bytes (remote_addr (conaddr_of c p)) @ data) \<le> udpgw_mtu c" for h
    by (simp add: udpgw_header_bytes_def length_mem)
  from write_inv [OF inv p this] show ?thesis
    using send inv by (auto simp: connection_send_def Let_def split: option.splits)
qed

lemma job_taken_inv:
  assumes inv: "ug_inv c w old here wire"
  shows "ug_inv (set_connection p (\<lambda>k. k\<lparr>first_job := False\<rparr>) c) w old here wire" (is "ug_inv ?c _ _ _ _")
proof -
  have "ug_flow ?c w (old @ here) q" if "q \<in> set (connections_list c)" for q
    by (rule ug_flow_cong [of c]) (use inv that in \<open>auto simp: ug_inv_def ug_flow_def Let_def\<close>)
  moreover have "ug_table ?c"
    by (rule ug_table_cong [of c]) (use inv in \<open>auto simp: ug_inv_def ug_table_def\<close>)
  moreover have "ug_queue ?c"
    by (rule ug_queue_cong [of c]) (use inv in \<open>auto simp: ug_inv_def flow_packet_cong [of ?c c]\<close>)
  moreover have "ug_params ?c" "ug_logs ?c w (old @ here)" "ug_link ?c here wire"
    using inv by (auto simp: ug_inv_def ug_params_def ug_logs_def ug_link_def)
  ultimately show ?thesis
    by (simp add: ug_inv_def)
qed

lemma connection_first_job_inv:
  assumes inv: "ug_inv c w old here wire" and p: "p \<in> set (connections_list c)"
    and send: "connection_first_job_handler c p = (c', acts)"
  shows "ug_inv c' (w @ writes acts) old here wire"
proof -
  have "length (first_data (connections c p)) \<le> udp_mtu c"
    using ug_inv_conn(1) [OF inv p] by (simp add: ug_flow_def Let_def)
  then show ?thesis
    using connection_send_inv [OF job_taken_inv [OF inv, of p], of p] p send by (simp add: connection_first_job_handler_def Let_def)
qed

section \<open>Submitting packets\<close>

text \<open>A step that leaves the flows and what is under them alone.\<close>

lemma ug_inv_table:
  assumes inv: "ug_inv c w old here wire" and table: "ug_table c'"
    and same: "udp_mtu c' = udp_mtu c" "udpgw_mtu c' = udpgw_mtu c" "send_buffer_size c' = send_buffer_size c"
      "keepalive_packet c' = keepalive_packet c" "keepalive_sending c' = keepalive_sending c" "send_queue c' = send_queue c"
      "send_connector c' = send_connector c" "send_monitor c' = send_monitor c" "send_sender c' = send_sender c"
      "have_server c' = have_server c" "set (connections_list c') = set (connections_list c)"
    and flow: "\<And>p. send_ppflow (connections c' p) = send_ppflow (connections c p) \<and> first_data (connections c' p) = first_data (connections c p)"
  shows "ug_inv c' w old here wire"
proof -
  have "ug_flow c' w (old @ here) p" if "p \<in> set (connections_list c)" for p
    by (rule ug_flow_cong [OF ug_inv_conn(1) [OF inv that]])
      (use same flow ug_inv_conn(1) [OF inv that] in \<open>simp_all add: ug_flow_def Let_def\<close>)
  moreover have "ug_queue c'"
    by (rule ug_queue_cong [of c]) (use inv same flow in \<open>auto simp: ug_inv_def flow_packet_cong [of c' c]\<close>)
  moreover have "ug_params c'" "ug_logs c' w (old @ here)" "ug_link c' here wire"
    using inv same ug_params_cong [of c' c] ug_logs_cong [of c' c] ug_link_cong [of c' c] by (simp_all add: ug_inv_def)
  ultimately show ?thesis
    using table same(11) by (simp add: ug_inv_def)
qed

lemma move_inv:
  assumes inv: "ug_inv c w old here wire" and p: "p \<in> set (connections_list c)"
  shows "ug_inv (c\<lparr>connections_list := remove1 p (connections_list c) @ [p]\<rparr>) w old here wire"
proof -
  have table: "ug_table c"
    using inv by (simp add: ug_inv_def)
  then have "ug_table (c\<lparr>connections_list := remove1 p (connections_list c) @ [p]\<rparr>)"
    by (intro ug_table_cong [OF table]) (use p in \<open>auto simp: ug_table_def\<close>)
  then show ?thesis
    by (rule ug_inv_table [OF inv]) (use table p in \<open>auto simp: ug_table_def\<close>)
qed

lemma reuse_inv:
  assumes inv: "ug_inv c w old here wire" and a: "valid_conaddr a" "find_connection_by_conaddr c a = None"
    and list: "connections_list c = p # rest"
  shows "\<exists>c'. reuse_connection c a = (c', Some p) \<and> ug_inv c' w old here wire \<and> connections_list c' = connections_list c \<and>
    conaddr_of c' = (conaddr_of c)(p := a) \<and> conid_of c' = conid_of c \<and> udp_mtu c' = udp_mtu c \<and>
    (\<forall>q. send_ppflow (connections c' q) = send_ppflow (connections c q) \<and> first_job (connections c' q) = first_job (connections c q))"
proof -
  define c1 where "c1 = set_connection p (\<lambda>k. k\<lparr>conaddr := a\<rparr>) (c\<lparr>tree_by_conaddr := remove_node (tree_by_conaddr c) p\<rparr>)"
  have eq: "reuse_connection c a = (conaddr_Insert c1 p, Some p)"
    by (simp add: reuse_connection_def list c1_def Let_def)
  have table: "ug_table c"
    using inv by (simp add: ug_inv_def)
  have key: "conaddr_of c1 = (conaddr_of c)(p := a)" "conid_of c1 = conid_of c"
    by (auto simp: c1_def)
  have "ug_table (conaddr_Insert c1 p)"
    by (rule ug_table_rebind [OF table, of p])
      (use a list ug_table_find(4) [OF table a(1)] in \<open>simp_all add: conaddr_Insert_def key\<close>, simp_all add: c1_def)
  then have "ug_inv (conaddr_Insert c1 p) w old here wire"
    by (rule ug_inv_table [OF inv]) (auto simp: conaddr_Insert_def c1_def)
  moreover have "connections_list (conaddr_Insert c1 p) = connections_list c" "udp_mtu (conaddr_Insert c1 p) = udp_mtu c"
    "connections (conaddr_Insert c1 p) = connections c1"
    by (simp_all add: conaddr_Insert_def c1_def)
  moreover have "send_ppflow (connections c1 q) = send_ppflow (connections c q) \<and> first_job (connections c1 q) = first_job (connections c q)" for q
    by (simp add: c1_def)
  ultimately show ?thesis
    using eq key by simp
qed

lemma flow_init_effect:
  assumes "fq_inv m" "p \<notin> set (flows_list m)"
  defines "m' \<equiv> PacketPassFairQueueFlow_Init p m"
  shows "fq_inv m'" "flows_list m' = flows_list m @ [p]" "freeing m' = freeing m" "fq_mtu m' = fq_mtu m" "queued m' = queued m"
    "sending_flow m' = sending_flow m" "\<And>g. g \<noteq> p \<Longrightarrow> flows m' g = flows m g"
  using assms flow_init_inv [OF assms(1,2)] by (auto simp: PacketPassFairQueueFlow_Init_def queued_def)

lemma flow_init_free_effect:
  assumes "fq_inv m" "p \<notin> set (flows_list m)"
  defines "m' \<equiv> PacketPassFairQueueFlow_Free p (PacketPassFairQueueFlow_Init p m)"
  shows "fq_inv m'" "flows_list m' = flows_list m" "freeing m' = freeing m" "fq_mtu m' = fq_mtu m" "queued m' = queued m"
    "sending_flow m' = sending_flow m" "\<And>g. g \<noteq> p \<Longrightarrow> flows m' g = flows m g"
proof -
  note init = flow_init_effect [OF assms(1,2)]
  have "sending_flow m \<noteq> Some p" "previous_flow m \<noteq> Some p"
    using assms(1,2) by (auto simp: fq_inv_defs)
  then show "fq_inv m'" "flows_list m' = flows_list m" "freeing m' = freeing m" "fq_mtu m' = fq_mtu m"
    "sending_flow m' = sending_flow m" "\<And>g. g \<noteq> p \<Longrightarrow> flows m' g = flows m g"
    using init flow_free_inv [OF init(1), of p] assms(2)
    by (simp_all add: m'_def PacketPassFairQueueFlow_Free_def Let_def remove1_append_notin)
  moreover from this(6) have "flows m' g = flows m g" if "g \<in> set (flows_list m)" for g
    using that assms(2) by metis
  ultimately show "queued m' = queued m"
    by (auto simp: queued_def)
qed


text \<open>The flows of the connections are as they were, and the queue differs in a flow that nobody else has.\<close>

lemma ug_queue_extend:
  assumes q: "ug_queue c" and p: "p \<notin> set (flows_list (send_queue c))"
    and m: "fq_inv m'" "\<not> freeing m'" "fq_mtu m' = fq_mtu (send_queue c)" "queued m' = queued (send_queue c)"
      "sending_flow m' = sending_flow (send_queue c)" "\<And>g. g \<noteq> p \<Longrightarrow> flows m' g = flows (send_queue c) g"
    and c': "send_queue c' = m'" "set (flows_list m') = insert 0 (set (connections_list c'))" "0 \<notin> set (connections_list c')"
      "udpgw_mtu c' = udpgw_mtu c" "con_in (send_connector c') = con_in (send_connector c)"
      "\<And>g. g \<noteq> p \<Longrightarrow> flow_packet c' g = flow_packet c g"
  shows "ug_queue c'"
proof -
  have "f \<noteq> p" if "f \<in> queued (send_queue c) \<or> sending_flow (send_queue c) = Some f" for f
    using q p that by (auto simp: ug_queue_def Let_def fq_inv_defs queued_def)
  then show ?thesis
    using q m c' by (auto simp: ug_queue_def Let_def split: option.splits)
qed

lemma connection_init_inv:
  assumes inv: "ug_inv c w old here wire" and a: "valid_conaddr a" "find_connection_by_conaddr c a = None"
    and room: "num_connections c < max_connections c" and len: "length data \<le> udp_mtu c"
    and malloc: "\<forall>p. malloc = Some p \<longrightarrow> p \<notin> insert 0 (set (connections_list c))"
    and alloc: "\<forall>n x. alloc n = Some x \<longrightarrow> int (length x) = 4 * n"
  shows "\<exists>c'. connection_init malloc alloc c a flags data = Some c' \<and> ug_inv c' w old here wire"
proof -
  have parts: "ug_table c" "ug_queue c" "ug_params c" "ug_logs c w (old @ here)" "ug_link c here wire"
    using inv by (simp_all add: ug_inv_def)
  have fl: "set (flows_list (send_queue c)) = insert 0 (set (connections_list c))" "fq_inv (send_queue c)"
    "\<not> freeing (send_queue c)" "0 \<notin> set (connections_list c)"
    using parts(2) by (simp_all add: ug_queue_def Let_def)
  have "\<forall>p. malloc = Some p \<longrightarrow> p \<notin> set (connections_list c)"
    using malloc by simp
  with parts(1) room show ?thesis
  proof (cases rule: connection_init_cases [where malloc = malloc and alloc = alloc and a = a and flags = flags and data = data])
    case (no_flow p n con)
    let ?m = "PacketPassFairQueueFlow_Free p (PacketPassFairQueueFlow_Init p (send_queue c))"
    let ?c = "c\<lparr>next_conid := n, connections := (connections c)(p := con), send_queue := ?m\<rparr>"
    have p: "p \<notin> set (flows_list (send_queue c))" "p \<notin> set (connections_list c)"
      using malloc no_flow(1) fl(1) by auto
    note eff = flow_init_free_effect [OF fl(2) p(1)]
    have "ug_table ?c"
      by (rule ug_table_cong [OF parts(1)]) (use parts(1) p no_flow(2) in \<open>auto simp: ug_table_def\<close>)
    moreover have "ug_queue ?c"
      by (rule ug_queue_extend [OF parts(2) p(1) eff(1)]) (use eff fl in \<open>auto intro!: flow_packet_cong\<close>)
    moreover have "ug_flow ?c w (old @ here) q" if "q \<in> set (connections_list c)" for q
      by (rule ug_flow_cong [OF ug_inv_conn(1) [OF inv that]])
        (use that p ug_inv_conn(1) [OF inv that] in \<open>auto simp: ug_flow_def Let_def\<close>)
    moreover have "ug_params ?c" "ug_logs ?c w (old @ here)" "ug_link ?c here wire"
      using parts ug_params_cong [of ?c c] ug_logs_cong [of ?c c] ug_link_cong [of ?c c] by simp_all
    ultimately show ?thesis
      using no_flow(4) by (simp add: ug_inv_def)
  next
    case (new p n f con)
    let ?m = "PacketPassFairQueueFlow_Init p (send_queue c)"
    define c1 where "c1 = c\<lparr>next_conid := n, connections := (connections c)(p := con), send_queue := ?m\<rparr>"
    define c' where "c' = (let c = conid_Insert (conaddr_Insert c1 p) p
      in c\<lparr>connections_list := connections_list c @ [p], num_connections := num_connections c + 1\<rparr>)"
    have p: "p \<notin> set (flows_list (send_queue c))" "p \<notin> set (connections_list c)" "p \<noteq> 0"
      using malloc new(1) fl(1) by auto
    note eff = flow_init_effect [OF fl(2) p(1)]
    have c': "connections c' = (connections c)(p := con)" "connections_list c' = connections_list c @ [p]" "send_queue c' = ?m"
      "udp_mtu c' = udp_mtu c" "udpgw_mtu c' = udpgw_mtu c" "send_buffer_size c' = send_buffer_size c" "keepalive_packet c' = keepalive_packet c"
      "keepalive_sending c' = keepalive_sending c" "send_connector c' = send_connector c" "send_monitor c' = send_monitor c"
      "send_sender c' = send_sender c" "have_server c' = have_server c" "num_connections c' = num_connections c + 1"
      "max_connections c' = max_connections c" "next_conid c' = n"
      by (simp_all add: c'_def c1_def conid_Insert_def conaddr_Insert_def)
    have trees: "tree_by_conaddr c' = fst (BAVL_Insert conaddr_comparator (conaddr_of c') (tree_by_conaddr c) p)"
      "tree_by_conid c' = fst (BAVL_Insert uint16_comparator (conid_of c') (tree_by_conid c) p)"
      by (simp_all add: c'_def c1_def conid_Insert_def conaddr_Insert_def Let_def)
    have "unat (of_nat n :: u16) = n"
      using new(2) parts(1) by (simp add: ug_table_def unat_of_nat_u16)
    moreover have "conaddr_of c' q = conaddr_of c q \<and> conid_of c' q = conid_of c q" if "q \<in> set (connections_list c)" for q
      using that p(2) c'(1) by auto
    moreover have "conaddr_of c' p = a" "conid_of c' p = of_nat n" "a \<notin> conaddr_of c ` set (connections_list c)"
      using c'(1) new(5,8) a(2) ug_table_find(4) [OF parts(1) a(1)] by simp_all
    ultimately have "ug_table c'"
      by (intro ug_table_add [OF parts(1) p(2) room _ _ _ _ _ trees]) (use new(2,3) a(1) c' in simp_all)
    moreover have "ug_queue c'"
      by (rule ug_queue_extend [OF parts(2) p(1) eff(1)]) (use eff fl p c' in \<open>auto intro!: flow_packet_cong\<close>)
    moreover have "ug_flow c' w (old @ here) q" if "q \<in> set (connections_list c)" for q
      by (rule ug_flow_cong [OF ug_inv_conn(1) [OF inv that]])
        (use that p c' ug_inv_conn(1) [OF inv that] in \<open>auto simp: ug_flow_def Let_def\<close>)
    moreover have "ug_flow c' w (old @ here) p"
    proof -
      have "of_flow p w = []" "of_flow p (old @ here) = []"
        by (rule of_flow_empty, use parts(4) p in \<open>auto simp: ug_logs_def\<close>)+
      moreover have "FlowBuffers.flow_inv (send_buffer_size c) (flow_settle f) []" "input_mtu (pbuf (fbuffer (flow_settle f))) = 2 + int (udpgw_mtu c)"
        by (rule flow_initial_inv [OF new(4)]; use parts(3) alloc in \<open>unfold ug_params_def, blast\<close>)+
      ultimately show ?thesis
        using c' new(7,10) len by (simp add: ug_flow_def Let_def unsent_def in_order_def)
    qed
    moreover have "ug_params c'" "ug_link c' here wire" "ug_logs c' w (old @ here)"
      using parts c' ug_params_cong [of c' c] ug_link_cong [of c' c] by (auto simp: ug_logs_def)
    ultimately have "ug_inv c' w old here wire"
      using c'(2) by (auto simp: ug_inv_def)
    then show ?thesis
      using new(11) by (auto simp: c'_def c1_def Let_def)
  qed (use malloc inv in auto)
qed


lemma submit_inv:
  assumes inv: "ug_inv c w old here wire" and ip: "BAddr_ip local" "BAddr_ip remote" and len: "length data \<le> udp_mtu c"
    and malloc: "\<forall>p. malloc = Some p \<longrightarrow> p \<notin> insert 0 (set (connections_list c))"
    and alloc: "\<forall>n x. alloc n = Some x \<longrightarrow> int (length x) = 4 * n"
    and submit: "UdpGwClient_SubmitPacket malloc alloc c local remote is_dns data = Some (c', acts)"
  shows "ug_inv c' (w @ writes acts) old here wire"
proof -
  define a where "a = \<lparr>local_addr = local, remote_addr = remote\<rparr>"
  define flags where "flags = (if is_dns then 0 OR UDPGW_CLIENT_FLAG_DNS else 0)"
  have a: "valid_conaddr a"
    using ip by (simp add: a_def valid_conaddr_def)
  have table: "ug_table c"
    using inv by (simp add: ug_inv_def)
  note eq = submit [unfolded UdpGwClient_SubmitPacket_def Let_def, folded a_def, folded flags_def]
  show ?thesis
  proof (cases "find_connection_by_conaddr c a")
    case (Some p)
    have p: "p \<in> set (connections_list c)"
      using Some ug_table_find(3) [OF table a] by simp
    have "connection_send (c\<lparr>connections_list := remove1 p (connections_list c) @ [p]\<rparr>) p flags data = (c', acts)"
      using eq Some by simp
    from connection_send_inv [OF move_inv [OF inv p] _ _ this] len show ?thesis
      by simp
  next
    case None
    show ?thesis
    proof (cases "num_connections c = max_connections c")
      case True
      then obtain p rest where list: "connections_list c = p # rest"
        using table by (cases "connections_list c") (auto simp: ug_table_def)
      obtain c1 where c1: "reuse_connection c a = (c1, Some p)" "ug_inv c1 w old here wire"
        "connections_list c1 = connections_list c" "udp_mtu c1 = udp_mtu c"
        using reuse_inv [OF inv a None list] by blast
      have p: "p \<in> set (connections_list c1)"
        by (simp add: c1(3) list)
      have "connection_send (c1\<lparr>connections_list := remove1 p (connections_list c1) @ [p]\<rparr>) p (flags OR UDPGW_CLIENT_FLAG_REBIND) data = (c', acts)"
        using eq None True c1(1) by simp
      from connection_send_inv [OF move_inv [OF c1(2) p] _ _ this] len c1(4) show ?thesis
        by simp
    next
      case False
      then have "num_connections c < max_connections c"
        using table by (simp add: ug_table_def)
      from connection_init_inv [OF inv a None this len malloc alloc, of flags] show ?thesis
        using eq None False by auto
    qed
  qed
qed

lemma message_inv:
  assumes inv: "ug_inv c w old here wire"
  shows "ug_inv (fst (recv_interface_handler_send c data)) w old here wire"
proof -
  have table: "ug_table c"
    using inv by (simp add: ug_inv_def)
  have "find_connection_by_conid c i = Some p \<Longrightarrow> p \<in> set (connections_list c)" for i p
    using ug_table_find(1) [OF table] by simp
  then show ?thesis
    using inv move_inv [OF inv] by (auto simp: recv_interface_handler_send_def Let_def split: option.splits)
qed


section \<open>Sending packets\<close>

definition same_table :: "UdpGwClient \<Rightarrow> UdpGwClient \<Rightarrow> bool" where
  "same_table c c' = (connections c' = connections c \<and> connections_list c' = connections_list c \<and> tree_by_conaddr c' = tree_by_conaddr c \<and>
     tree_by_conid c' = tree_by_conid c \<and> num_connections c' = num_connections c \<and> max_connections c' = max_connections c \<and>
     next_conid c' = next_conid c \<and> udp_mtu c' = udp_mtu c \<and> udpgw_mtu c' = udpgw_mtu c \<and> send_buffer_size c' = send_buffer_size c \<and>
     keepalive_packet c' = keepalive_packet c)"

text \<open>A step that leaves the table and the packet flows alone.\<close>

lemma ug_inv_lower:
  assumes inv: "ug_inv c w old here wire" and same: "same_table c c'" and queue: "ug_queue c'" and link: "ug_link c' here' wire'"
    and log: "old' @ here' = old @ here"
  shows "ug_inv c' w old' here' wire'"
proof -
  note same' = same [unfolded same_table_def]
  have "ug_table c'"
    by (rule ug_table_cong [of c]) (use inv same' in \<open>simp_all add: ug_inv_def ug_table_def\<close>)
  moreover have "ug_flow c' w (old @ here) p" if "p \<in> set (connections_list c)" for p
    by (rule ug_flow_cong [OF ug_inv_conn(1) [OF inv that]])
      (use same' ug_inv_conn(1) [OF inv that] in \<open>simp_all add: ug_flow_def Let_def\<close>)
  moreover have "ug_params c'" "ug_logs c' w (old @ here)"
    using inv same' ug_params_cong [of c' c] ug_logs_cong [of c' c] by (simp_all add: ug_inv_def)
  ultimately show ?thesis
    unfolding ug_inv_def log using same' queue link by simp
qed

lemma ug_inv_parts:
  assumes "ug_inv c w old here wire"
  shows "ug_queue c" "ug_link c here wire" "ug_table c" "ug_params c" "ug_logs c w (old @ here)"
  using assms by (simp_all add: ug_inv_def)

lemma ug_queueD:
  assumes "ug_queue c"
  shows "fq_inv (send_queue c)" "\<not> freeing (send_queue c)" "set (flows_list (send_queue c)) = insert 0 (set (connections_list c))"
    "0 \<notin> set (connections_list c)" "fq_mtu (send_queue c) = 2 + udpgw_mtu c"
    "f \<in> queued (send_queue c) \<Longrightarrow> flow_packet c f = Some (queued_data (flows (send_queue c) f))"
    "sending_flow (send_queue c) = None \<Longrightarrow> con_in (send_connector c) = None"
    "sending_flow (send_queue c) = Some f \<Longrightarrow> \<exists>d. con_in (send_connector c) = Some d \<and> flow_packet c f = Some d"
  using assms by (auto simp: ug_queue_def Let_def)

lemma timer_inv:
  assumes inv: "ug_inv c w old here wire" and timer: "im_timer (send_monitor c) \<noteq> None"
  shows "ug_inv (fst (send_monitor_handler k (c\<lparr>send_monitor := fst (monitor_timer_handler (send_monitor c))\<rparr>))) w old here wire"
proof -
  define c' where "c' = fst (send_monitor_handler k (c\<lparr>send_monitor := fst (monitor_timer_handler (send_monitor c))\<rparr>))"
  have c: "same_table c c'" "send_queue c' = send_queue c" "send_connector c' = send_connector c" "send_sender c' = send_sender c"
    "have_server c' = have_server c" "keepalive_sending c \<Longrightarrow> keepalive_sending c'" "im_timer (send_monitor c') \<noteq> None"
    by (auto simp: c'_def send_monitor_handler_def monitor_timer_handler_def same_table_def)
  have "flow_packet c' f = Some d" if "flow_packet c f = Some d" for f d
    using that c(1,6) by (auto simp: flow_packet_def same_table_def split: if_splits)
  then have "ug_queue c'"
    by (intro ug_queue_cong [OF ug_inv_parts(1) [OF inv]]) (use c in \<open>simp_all add: same_table_def\<close>)
  moreover have "ug_link c' here wire"
    using ug_inv_parts(2) [OF inv] timer c(7) unfolding ug_link_def c(3,4,5) by auto
  ultimately have "ug_inv c' w old here wire"
    by (rule ug_inv_lower [OF inv c(1)]) simp
  then show ?thesis
    by (simp add: c'_def)
qed

lemma flow_packet_size:
  assumes inv: "ug_inv c w old here wire" and f: "f \<in> set (flows_list (send_queue c))" "flow_packet c f = Some d"
  shows "d \<noteq> []" "length d \<le> fq_mtu (send_queue c)"
proof -
  have params: "keepalive_packet c = frame [1, 0, 0]" "udpgw_mtu c = udp_mtu c + 21" "fq_mtu (send_queue c) = 2 + udpgw_mtu c"
    and fl: "set (flows_list (send_queue c)) = insert 0 (set (connections_list c))"
    using inv by (simp_all add: ug_inv_def ug_params_def ug_queue_def Let_def)
  have "d \<noteq> [] \<and> length d \<le> fq_mtu (send_queue c)"
  proof (cases "f = 0")
    case True
    then have "d = frame [1, 0, 0]"
      using f(2) params(1) by (auto simp: flow_packet_def split: if_splits)
    then show ?thesis
      using params(2,3) by (simp add: frame_def mem16_eq)
  next
    case False
    then have conn: "f \<in> set (connections_list c)"
      using f(1) fl by simp
    note flow = ug_inv_conn(1) [OF inv conn]
    obtain m ms where un: "unsent w (old @ here) f = m # ms" "d = frame m"
      using flow_packet_conn [OF flow False] f(2) by (auto split: list.splits)
    have "int (length (frame m)) \<le> 2 + int (udpgw_mtu c)"
      using flow un(1) by (auto simp: ug_flow_def FlowBuffers.flow_inv_def pb_inv_def Let_def)
    then show ?thesis
      using un(2) params(3) by (auto simp: frame_def mem16_eq)
  qed
  then show "d \<noteq> []" "length d \<le> fq_mtu (send_queue c)"
    by simp_all
qed

text \<open>The client with another queue, when the flows and the connector do not change.\<close>

lemma queue_inv:
  assumes inv: "ug_inv c w old here wire" and m: "fq_inv m" "\<not> freeing m" "flows_list m = flows_list (send_queue c)"
      "fq_mtu m = fq_mtu (send_queue c)" "sending_flow m = sending_flow (send_queue c)"
      "\<And>f. f \<in> queued m \<Longrightarrow> flow_packet c f = Some (queued_data (flows m f))"
  shows "ug_inv (c\<lparr>send_queue := m\<rparr>) w old here wire"
proof (rule ug_inv_lower [OF inv])
  have pk: "flow_packet (c\<lparr>send_queue := m\<rparr>) f = flow_packet c f" for f
    by (rule flow_packet_cong) simp_all
  show "ug_queue (c\<lparr>send_queue := m\<rparr>)"
    using ug_inv_parts(1) [OF inv] m by (cases "sending_flow (send_queue c)") (simp_all add: ug_queue_def Let_def pk)
  show "ug_link (c\<lparr>send_queue := m\<rparr>) here wire"
    using ug_inv_parts(2) [OF inv] by (simp add: ug_link_def)
qed (simp_all add: same_table_def)

text \<open>The queue starts sending a packet.\<close>

lemma start_inv:
  assumes inv: "ug_inv c w old here wire" and m: "fq_inv m" "\<not> freeing m" "flows_list m = flows_list (send_queue c)"
      "fq_mtu m = fq_mtu (send_queue c)" "sending_flow (send_queue c) = None" "sending_flow m = Some f"
      "\<And>g. g \<in> queued m \<Longrightarrow> flow_packet c g = Some (queued_data (flows m g))"
    and f: "f \<in> set (flows_list m)" "flow_packet c f = Some d"
  shows "ug_inv (queue_call (FQ_send d) (c\<lparr>send_queue := m\<rparr>)) w old here wire"
proof (rule ug_inv_lower [OF inv])
  define c' where "c' = queue_call (FQ_send d) (c\<lparr>send_queue := m\<rparr>)"
  have d: "0 < length d"
    using flow_packet_size(1) [OF inv _ f(2)] f(1) m(3) by simp
  have idle: "con_in (send_connector c) = None"
    using ug_queueD(7) [OF ug_inv_parts(1) [OF inv] m(5)] .
  have c: "same_table c c'" "send_queue c' = m" "have_server c' = have_server c" "keepalive_sending c' = keepalive_sending c"
    "im_timer (send_monitor c') = None" "con_in (send_connector c') = Some d" "con_output (send_connector c') = con_output (send_connector c)"
    "con_output (send_connector c) \<Longrightarrow> send_sender c' = (send_sender c)\<lparr>in_len := int (length d), in_data := d, in_used := 0\<rparr>"
    using d by (auto simp: c'_def same_table_def monitor_input_handler_send_def connector_input_handler_send_def
      pss_input_handler_send_def pss_send_data_def)
  then show "same_table c (queue_call (FQ_send d) (c\<lparr>send_queue := m\<rparr>))"
    by (simp add: c'_def)
  have pk: "flow_packet c' g = flow_packet c g" for g
    by (rule flow_packet_cong) (use c in \<open>simp_all add: same_table_def\<close>)
  have "ug_queue c'"
    using ug_queueD [OF ug_inv_parts(1) [OF inv]] m f c(1) by (simp add: ug_queue_def Let_def c(2,6) pk same_table_def)
  then show "ug_queue (queue_call (FQ_send d) (c\<lparr>send_queue := m\<rparr>))"
    by (simp only: c'_def)
  have "ug_link c' here wire"
    using ug_inv_parts(2) [OF inv] c(5-8) d idle unfolding ug_link_def c(3) Let_def by simp
  then show "ug_link (queue_call (FQ_send d) (c\<lparr>send_queue := m\<rparr>)) here wire"
    by (simp only: c'_def)
qed simp


lemma flow_job_inv:
  assumes inv: "ug_inv c w old here wire" and f: "f \<in> set (flows_list (send_queue c))" "sending_flow (send_queue c) \<noteq> Some f"
      "\<not> is_queued (flows (send_queue c) f)" "flow_packet c f = Some data"
  shows "ug_inv (flow_send_job c f data) w old here wire"
proof -
  obtain m calls where mc: "fq_input_handler_send (send_queue c) f data = (m, calls)"
    by (cases "fq_input_handler_send (send_queue c) f data")
  note q = ug_queueD [OF ug_inv_parts(1) [OF inv]]
  note eff = send_effect [OF q(1) f(1) q(2) f(2,3) mc]
  have fq: "fq_inv m"
    using send_inv [OF q(1) f(1) q(2) f(2,3) flow_packet_size(2) [OF inv f(1,4)]] mc by simp
  have job: "flow_send_job c f data = fold queue_call calls (c\<lparr>send_queue := m\<rparr>)"
    by (simp add: flow_send_job_def queue_calls_def mc)
  show ?thesis
  proof (cases "sending_flow (send_queue c) = None \<and> \<not> schedule_job (send_queue c)")
    case True
    then have "calls = [FQ_send data]" "sending_flow m = Some f" "queued m = {}"
      using eff by simp_all
    then show ?thesis
      unfolding job using start_inv [OF inv fq, of f data] eff q(2) True f by simp
  next
    case False
    then have *: "calls = []" "sending_flow m = sending_flow (send_queue c)" "queued m = insert f (queued (send_queue c))"
      using eff by (simp_all split: if_splits)
    have "flow_packet c g = Some (queued_data (flows m g))" if "g \<in> queued m" for g
      using that *(3) eff q(6) [of g] f(4) by auto
    then show ?thesis
      unfolding job using queue_inv [OF inv fq] eff q(2) * by simp
  qed
qed

lemma schedule_step_inv:
  assumes inv: "ug_inv c w old here wire" and job: "schedule_job (send_queue c)"
  shows "ug_inv (queue_schedule_job c) w old here wire"
proof -
  obtain m calls where mc: "schedule_job_handler (send_queue c) = (m, calls)"
    by (cases "schedule_job_handler (send_queue c)")
  note q = ug_queueD [OF ug_inv_parts(1) [OF inv]]
  note eff = schedule_job_effect [OF q(1) job q(2) mc]
  have fq: "fq_inv m"
    using schedule_job_inv [OF q(1) job q(2)] mc by simp
  have step: "queue_schedule_job c = fold queue_call calls (c\<lparr>send_queue := m\<rparr>)"
    by (simp add: queue_schedule_job_def queue_calls_def mc)
  show ?thesis
  proof (cases "queued (send_queue c) = {}")
    case True
    then show ?thesis
      unfolding step using queue_inv [OF inv fq] eff q(2) by simp
  next
    case False
    then obtain g where g: "g \<in> queued (send_queue c)" "calls = [FQ_send (queued_data (flows (send_queue c) g))]" "sending_flow m = Some g"
      "queued m = queued (send_queue c) - {g}"
      using eff by auto
    have "g \<in> set (flows_list m)"
      using g(1) eff by (simp add: queued_def)
    then show ?thesis
      unfolding step using start_inv [OF inv fq _ _ _ _ g(3) _ _ q(6) [OF g(1)]] eff q(2,6) g by simp
  qed
qed

lemma stream_some_inv:
  assumes inv: "ug_inv c w old here wire" and n: "have_server c" "0 < n" "in_used (send_sender c) + int n < in_len (send_sender c)"
  shows "ug_inv (stream_done c n) w old here (wire @ take n (drop (nat (in_used (send_sender c))) (in_data (send_sender c))))"
proof (rule ug_inv_lower [OF inv])
  let ?s = "send_sender c"
  have st: "stream_done c n = c\<lparr>send_sender := ?s\<lparr>in_used := in_used ?s + int n\<rparr>\<rparr>"
    using n(3) by (simp add: stream_done_def pss_output_handler_done_def pss_send_data_def)
  show "same_table c (stream_done c n)"
    by (simp add: st same_table_def)
  show "ug_queue (stream_done c n)"
    by (rule ug_queue_cong [OF ug_inv_parts(1) [OF inv]]) (simp_all add: st flow_packet_same)
  note link = ug_inv_parts(2) [OF inv, unfolded ug_link_def Let_def]
  then obtain d where d: "con_in (send_connector c) = Some d" "in_data ?s = d" "in_len ?s = int (length d)" "0 \<le> in_used ?s"
    "wire = concat (map snd here) @ take (nat (in_used ?s)) d"
    using n by (auto split: option.splits)
  have "nat (in_used ?s + int n) = nat (in_used ?s) + n"
    using d(4) by simp
  then show "ug_link (stream_done c n) here (wire @ take n (drop (nat (in_used ?s)) (in_data ?s)))"
    using link d n(3) by (simp add: st ug_link_def Let_def take_add)
qed simp


text \<open>The packet at the front of a flow is completed.\<close>

lemma flow_completed:
  assumes flow: "ug_flow c w outs f" and f: "f \<noteq> 0" "flow_packet c f = Some d"
    and c': "send_ppflow (connections c' f) = PacketProtoFlow_sent (send_ppflow (connections c f))"
      "first_data (connections c' f) = first_data (connections c f)"
      "send_buffer_size c' = send_buffer_size c" "udpgw_mtu c' = udpgw_mtu c" "udp_mtu c' = udp_mtu c"
  shows "ug_flow c' w (outs @ [(f, d)]) f"
proof -
  obtain m ms where un: "unsent w outs f = m # ms" "d = frame m"
    using flow_packet_conn [OF flow f(1)] f(2) by (auto split: list.splits)
  let ?k = "length (of_flow f outs)"
  have fi: "FlowBuffers.flow_inv (send_buffer_size c) (send_ppflow (connections c f)) (m # ms)" and ord: "in_order w outs f"
    and mtu: "input_mtu (pbuf (fbuffer (send_ppflow (connections c f)))) = 2 + int (udpgw_mtu c)" "length (first_data (connections c f)) \<le> udp_mtu c"
    using flow un(1) by (simp_all add: ug_flow_def Let_def)
  have drop: "drop ?k (of_flow f w) = m # ms"
    using un(1) by (simp add: unsent_def)
  then have "?k < length (of_flow f w)" "of_flow f w ! ?k = m"
    by (metis drop_eq_Nil list.distinct(1) not_le_imp_less, metis nth_via_drop)
  then have "take (Suc ?k) (of_flow f w) = take ?k (of_flow f w) @ [m]"
    by (simp add: take_Suc_conv_app_nth)
  then have "in_order w (outs @ [(f, d)]) f"
    using ord un(2) by (simp add: in_order_def)
  moreover have "unsent w (outs @ [(f, d)]) f = ms"
    using drop by (simp add: unsent_def) (metis drop_Suc drop_drop list.sel(3) tl_drop)
  moreover have "FlowBuffers.flow_inv (send_buffer_size c) (PacketProtoFlow_sent (send_ppflow (connections c f))) ms"
    by (rule flow_sent_inv [OF fi])
  moreover have "input_mtu (pbuf (fbuffer (PacketProtoFlow_sent (send_ppflow (connections c f))))) = 2 + int (udpgw_mtu c)"
    using mtu(1) by simp
  ultimately show ?thesis
    using c' mtu(2) by (simp add: ug_flow_def Let_def)
qed

text \<open>The state after the last byte of a packet was taken.\<close>

lemma stream_all_eq:
  assumes "fq_inv (send_queue c)" "sending_flow (send_queue c) = Some f" "in_used (send_sender c) + int n = in_len (send_sender c)"
  defines "c1 \<equiv> c\<lparr>send_sender := (send_sender c)\<lparr>in_used := in_len (send_sender c), in_len := - 1\<rparr>,
    send_connector := (send_connector c)\<lparr>con_in := None\<rparr>, send_monitor := (send_monitor c)\<lparr>im_timer := Some (im_interval (send_monitor c))\<rparr>,
    send_queue := fst (fq_output_handler_done (send_queue c))\<rparr>"
  shows "stream_done c n = (if f = 0 then c1\<lparr>keepalive_sending := False\<rparr>
    else set_connection f (\<lambda>k. k\<lparr>send_ppflow := PacketProtoFlow_sent (send_ppflow k)\<rparr>) c1)"
proof -
  obtain rest where "snd (fq_output_handler_done (send_queue c)) = FQ_done f # rest" "rest = [] \<or> (\<exists>u. rest = [FQ_busy u])"
    using done_effect(8) [OF assms(1,2)] by blast
  then obtain m where "fq_output_handler_done (send_queue c) = (m, FQ_done f # rest)" "rest = [] \<or> (\<exists>u. rest = [FQ_busy u])"
    by (cases "fq_output_handler_done (send_queue c)") auto
  then show ?thesis
    using assms(3)
    by (auto simp: stream_done_def pss_output_handler_done_def pss_send_data_def connector_output_handler_done_def
      monitor_output_handler_done_def queue_calls_def keepalive_if_handler_done_def c1_def)
qed

lemma stream_all_inv:
  assumes inv: "ug_inv c w old here wire" and n: "have_server c" "in_used (send_sender c) + int n = in_len (send_sender c)"
    and f: "sending_flow (send_queue c) = Some f" "con_in (send_connector c) = Some d"
  shows "ug_inv (stream_done c n) w old (here @ [(f, d)]) (wire @ take n (drop (nat (in_used (send_sender c))) (in_data (send_sender c))))"
    (is "ug_inv _ _ _ _ ?wire")
proof -
  note q = ug_queueD [OF ug_inv_parts(1) [OF inv]]
  note eq = stream_all_eq [OF q(1) f(1) n(2)] and eff = done_effect [OF q(1) f(1)]
  define c' where "c' = stream_done c n"
  have c': "connections_list c' = connections_list c" "udp_mtu c' = udp_mtu c" "udpgw_mtu c' = udpgw_mtu c"
    "send_buffer_size c' = send_buffer_size c" "keepalive_packet c' = keepalive_packet c" "have_server c' = have_server c"
    "max_connections c' = max_connections c" "num_connections c' = num_connections c" "next_conid c' = next_conid c"
    "tree_by_conaddr c' = tree_by_conaddr c" "tree_by_conid c' = tree_by_conid c" "send_queue c' = fst (fq_output_handler_done (send_queue c))"
    "con_in (send_connector c') = None" "con_output (send_connector c') = con_output (send_connector c)" "im_timer (send_monitor c') \<noteq> None"
    "in_len (send_sender c') = - 1 \<and> in_used (send_sender c') = in_len (send_sender c)" "\<And>p. conaddr_of c' p = conaddr_of c p \<and> conid_of c' p = conid_of c p"
    "\<And>p. p \<noteq> f \<Longrightarrow> connections c' p = connections c p" "f \<noteq> 0 \<Longrightarrow> keepalive_sending c' = keepalive_sending c"
    "f \<noteq> 0 \<Longrightarrow> send_ppflow (connections c' f) = PacketProtoFlow_sent (send_ppflow (connections c f))"
    "first_data (connections c' f) = first_data (connections c f)" "f = 0 \<Longrightarrow> connections c' = connections c"
    unfolding c'_def eq by (simp_all split: if_split)
  have fl: "f \<in> set (flows_list (send_queue c))" "f \<notin> queued (send_queue c)"
    using q(1) f(1) by (auto simp: fq_inv_defs queued_def)
  have d: "flow_packet c f = Some d"
    using q(8) [OF f(1)] f(2) by auto
  have pk: "flow_packet c' g = flow_packet c g" if "g \<noteq> f" for g
    using that c'(5,18,19) by (cases "f = 0") (simp_all add: flow_packet_def)
  have "ug_table c'"
    by (rule ug_table_cong [OF ug_inv_parts(3) [OF inv]]) (use c' ug_inv_parts(3) [OF inv] in \<open>simp_all add: ug_table_def\<close>)
  moreover have "flow_packet c' g = Some (queued_data (flows (send_queue c) g))" if "g \<in> queued (send_queue c)" for g
    using q(6) [OF that] pk [of g] that fl(2) by metis
  then have "ug_queue c'"
    using q(2-5) eff(1-5,7) c'(1,3,12,13) sent_inv [OF q(1) f(1) q(2)] unfolding ug_queue_def Let_def by simp
  moreover have "ug_flow c' w ((old @ here) @ [(f, d)]) p" if p: "p \<in> set (connections_list c)" for p
  proof (cases "p = f")
    case True
    then show ?thesis
      using flow_completed [OF ug_inv_conn(1) [OF inv p], of d c'] ug_inv_conn(2) [OF inv p] d c' by simp
  next
    case False
    have "ug_flow c' w (old @ here) p"
      by (rule ug_flow_cong [OF ug_inv_conn(1) [OF inv p]]) (use ug_inv_conn(1) [OF inv p] c' False in \<open>simp_all add: ug_flow_def Let_def\<close>)
    with False show ?thesis
      by (simp add: ug_flow_def Let_def unsent_def in_order_def)
  qed
  moreover have "ug_params c'"
    using ug_inv_parts(4) [OF inv] ug_params_cong [of c' c] c' by simp
  moreover have "f = 0 \<Longrightarrow> d = keepalive_packet c"
    using d by (auto simp: flow_packet_def split: if_splits)
  then have "ug_logs c' w ((old @ here) @ [(f, d)])"
    using ug_inv_parts(5) [OF inv] fl(1) q(3) c'(1,3,5) by (auto simp: ug_logs_def)
  moreover have "ug_link c' (here @ [(f, d)]) ?wire"
  proof -
    have "in_data (send_sender c) = d" "in_len (send_sender c) = int (length d)" "0 \<le> in_used (send_sender c)"
      "wire = concat (map snd here) @ take (nat (in_used (send_sender c))) d" "con_output (send_connector c)"
      using ug_inv_parts(2) [OF inv] n(1) f(2) by (simp_all add: ug_link_def Let_def)
    moreover from this have "d = take (nat (in_used (send_sender c))) d @ take n (drop (nat (in_used (send_sender c))) d)"
      using n(2) by simp
    ultimately show ?thesis
      using c'(6,13-16) n(1) by (simp add: ug_link_def Let_def)
  qed
  ultimately show ?thesis
    using c'(1) unfolding c'_def by (simp add: ug_inv_def)
qed


section \<open>Every run keeps the invariant\<close>

lemma connect_inv:
  assumes inv: "ug_inv c w old here wire" and "\<not> have_server c" and con: "UdpGwClient_ConnectServer malloc c = (c', True)"
  shows "ug_inv c' w (old @ here) [] []"
proof (rule ug_inv_lower [OF inv])
  obtain decoder acts where "PacketProtoDecoder_Init (udpgw_mtu c) malloc = Some (decoder, acts)"
    using con by (auto simp: UdpGwClient_ConnectServer_def split: option.splits)
  then have c': "c' = c\<lparr>recv_decoder := Some decoder, send_sender := (case con_in (send_connector c) of None \<Rightarrow> PacketStreamSender_Init
      | Some data \<Rightarrow> fst (pss_input_handler_send PacketStreamSender_Init data)), send_connector := (send_connector c)\<lparr>con_output := True\<rparr>, have_server := True\<rparr>"
    using con by (auto simp: UdpGwClient_ConnectServer_def PacketPassConnector_ConnectOutput_def Let_def split: option.splits)
  show "same_table c c'"
    by (simp add: c' same_table_def)
  show "ug_queue c'"
    by (rule ug_queue_cong [OF ug_inv_parts(1) [OF inv]]) (simp_all add: c' flow_packet_same)
  note q = ug_queueD [OF ug_inv_parts(1) [OF inv]]
  have "d \<noteq> []" if held: "con_in (send_connector c) = Some d" for d
  proof -
    obtain f where f: "sending_flow (send_queue c) = Some f"
      using q(7) held by (cases "sending_flow (send_queue c)") auto
    moreover have "f \<in> set (flows_list (send_queue c))"
      using q(1) f by (auto simp: fq_inv_defs)
    ultimately show ?thesis
      using flow_packet_size(1) [OF inv] q(8) [OF f] held by auto
  qed
  then show "ug_link c' [] []"
    using ug_inv_parts(2) [OF inv]
    by (auto simp: ug_link_def Let_def c' PacketStreamSender_Init_def pss_input_handler_send_def pss_send_data_def split: option.splits)
qed simp

lemma disconnect_inv:
  assumes inv: "ug_inv c w old here wire"
  shows "ug_inv (UdpGwClient_DisconnectServer c) w old here wire"
proof (rule ug_inv_lower [OF inv])
  have c': "UdpGwClient_DisconnectServer c =
      c\<lparr>send_connector := (send_connector c)\<lparr>con_output := False\<rparr>, recv_decoder := None, have_server := False\<rparr>"
    by (simp add: UdpGwClient_DisconnectServer_def free_server_def PacketPassConnector_DisconnectOutput_def)
  show "same_table c (UdpGwClient_DisconnectServer c)"
    by (simp add: c' same_table_def)
  show "ug_queue (UdpGwClient_DisconnectServer c)"
    by (rule ug_queue_cong [OF ug_inv_parts(1) [OF inv]]) (simp_all add: c' flow_packet_same)
  show "ug_link (UdpGwClient_DisconnectServer c) here wire"
    using ug_inv_parts(2) [OF inv] by (simp add: ug_link_def c')
qed simp

text \<open>What \<open>UdpGwClient_Init\<close> asserts of its arguments, with a buffer whose bytes an \<open>int\<close> counts.\<close>

definition ug_args :: "nat \<Rightarrow> nat \<Rightarrow> int \<Rightarrow> bool" where
  "ug_args mtu max_con buffer_size = (mtu + 21 \<le> UINT16_MAX \<and> 0 < max_con \<and> 0 < buffer_size \<and>
     4 * ChunkBuffer2_calc_blocks (2 + (int mtu + 21)) buffer_size \<le> INT_MAX)"

lemma init_ug_inv:
  assumes init: "UdpGwClient_Init mtu max_con buffer_size keepalive_time memory flow_memory = Some c" and args: "ug_args mtu max_con buffer_size"
  shows "ug_inv c [] [] [] []"
proof -
  have mtu: "udpgw_compute_mtu TYPE(32) (int mtu) = int mtu + 21"
    using udpgw_compute_mtu_value [where 'w = 32, of "int mtu"] args by (simp add: ug_args_def)
  then obtain m where m: "PacketPassFairQueue_Init (23 + mtu) False 1 flow_memory = Some m"
    using init by (auto simp: UdpGwClient_Init_def Let_def nat_add_distrib split: option.splits)
  note fq = flow_init_effect [OF fq_init_inv [OF m], of 0]
  have m': "flows_list m = []" "freeing m = False" "fq_mtu m = 23 + mtu" "sending_flow m = None" "queued m = {}"
    using m by (auto simp: PacketPassFairQueue_Init_def queued_def split: if_splits)
  have c: "udp_mtu c = mtu" "max_connections c = min max_con 65536" "send_buffer_size c = buffer_size" "udpgw_mtu c = mtu + 21"
    "tree_by_conaddr c = Null" "tree_by_conid c = Null" "connections_list c = []" "num_connections c = 0" "next_conid c = 0"
    "send_queue c = PacketPassFairQueueFlow_Init 0 m" "im_timer (send_monitor c) = Some keepalive_time" "con_in (send_connector c) = None"
    "con_output (send_connector c) = False" "keepalive_packet c = frame [1, 0, 0]" "have_server c = False"
    using init m mtu by (auto simp: UdpGwClient_Init_def Let_def nat_add_distrib BAVL_Init_def PacketPassInactivityMonitor_Init_def
      PacketPassConnector_Init_def udpgw_header_bytes_def frame_def mem16_eq)
  have "ug_params c"
    using args by (simp add: ug_params_def ug_args_def c add.assoc)
  moreover have "ug_table c"
    using args by (simp add: ug_table_def c bavl_inv_def ordered_def elems_def ug_args_def)
  moreover have "ug_queue c"
    using fq m' by (simp add: ug_queue_def c Let_def)
  moreover have "ug_logs c [] ([] @ [])" "ug_link c [] []"
    by (simp_all add: ug_logs_def ug_link_def c)
  ultimately show ?thesis
    by (simp add: ug_inv_def c)
qed

lemma ug_run_inv:
  assumes "ug_run c0 c w old here wire" "ug_inv c0 [] [] [] []"
  shows "ug_inv c w old here wire"
  using assms
proof (induction rule: ug_run.induct)
  case (ug_submit c w old here wire local remote data malloc alloc is_dns c' acts)
  then show ?case
    by (intro submit_inv) auto
next
  case (ug_first_job c w old here wire p c' acts)
  then show ?case
    by (intro connection_first_job_inv) auto
next
  case (ug_stream_all c w old here wire n f d)
  then show ?case
    by (intro stream_all_inv) auto
next
  case (ug_connect c w old here wire malloc c')
  then show ?case
    by (intro connect_inv) auto
qed (auto intro: message_inv timer_inv flow_job_inv schedule_step_inv stream_some_inv disconnect_inv)

end
