(* ===== verification/UdpGwProps.thy ===== *)
theory UdpGwProps
  imports UdpGwRun
begin

text \<open>
  What the udpgw client promises, in every run: its table of connections, the search for a free number, what
  submitting a packet does, the messages it writes and accepts, what reaches the stream, and that
  freeing it gives everything back.
\<close>

section \<open>The table of connections\<close>

text \<open>C5. Whatever the client is told to do and however its jobs, its stream and its timer interleave, its two trees pass
  their self-checks and hold exactly the listed connections; addresses and numbers are unique,
  the numbers and the number of connections stay within the limit, and the queue has exactly one flow
  for each connection and one for keep-alive messages.\<close>

theorem UdpGw_invariant:
  assumes "UdpGwClient_Init mtu max_con buffer_size keepalive_time memory flow_memory = Some c0" "ug_args mtu max_con buffer_size"
    "ug_run c0 c w old here wire"
  shows "BAVL_Verify conaddr_comparator (conaddr_of c) (tree_by_conaddr c) \<and> BAVL_Verify uint16_comparator (conid_of c) (tree_by_conid c) \<and>
    elems (tree_by_conaddr c) = set (connections_list c) \<and> elems (tree_by_conid c) = set (connections_list c) \<and>
    distinct (connections_list c) \<and> num_connections c = length (connections_list c) \<and> num_connections c \<le> max_connections c \<and>
    inj_on (conaddr_of c) (set (connections_list c)) \<and> inj_on (conid_of c) (set (connections_list c)) \<and>
    (\<forall>p\<in>set (connections_list c). unat (conid_of c p) < max_connections c) \<and>
    distinct (flows_list (send_queue c)) \<and> set (flows_list (send_queue c)) = insert 0 (set (connections_list c))"
proof -
  have inv: "ug_inv c w old here wire"
    by (rule ug_run_inv [OF assms(3) init_ug_inv [OF assms(1,2)]])
  note table = ug_inv_parts(3) [OF inv] and q = ug_queueD [OF ug_inv_parts(1) [OF inv]]
  have "BAVL_Verify conaddr_comparator (conaddr_of c) (tree_by_conaddr c)" "BAVL_Verify uint16_comparator (conid_of c) (tree_by_conid c)"
    using conaddr_tree.assert_recurser_height [of "conaddr_of c" "tree_by_conaddr c"]
      conid_tree.assert_recurser_height [of "conid_of c" "tree_by_conid c"] table
    by (simp_all add: BAVL_Verify_def ug_table_def)
  with table ug_table_inj [OF table] q(1,3) show ?thesis
    by (simp add: ug_table_def fq_inv_defs)
qed

text \<open>C20. The search for an unused number, a loop without a bound, ends whenever fewer connections than the limit exist,
  wherever it starts, and its result is a number below the limit that no connection has.\<close>

theorem UdpGw_find_unused_conid:
  assumes "UdpGwClient_Init mtu max_con buffer_size keepalive_time memory flow_memory = Some c0" "ug_args mtu max_con buffer_size"
    "ug_run c0 c w old here wire" "num_connections c < max_connections c"
  shows "\<exists>n < max_connections c. find_unused_conid c = Some (c\<lparr>next_conid := n\<rparr>, of_nat n) \<and>
    find_connection_by_conid c (of_nat n) = None"
proof -
  have table: "ug_table c"
    using ug_inv_parts(3) [OF ug_run_inv [OF assms(3) init_ug_inv [OF assms(1,2)]]] .
  obtain n where "n < max_connections c" "find_unused_conid c = Some (c\<lparr>next_conid := n\<rparr>, of_nat n)"
    "(of_nat n :: u16) \<notin> conid_of c ` set (connections_list c)"
    by (rule find_unused_conid_Some [OF table assms(4)])
  then show ?thesis
    using ug_table_find(2) [OF table] by blast
qed

section \<open>Messages\<close>

text \<open>A message as the protocol has it: flags, the connection's number, the remote address and the packet.\<close>

fun udpgw_message :: "u8 \<Rightarrow> u16 \<Rightarrow> BAddr \<Rightarrow> bytes \<Rightarrow> bytes" where
  "udpgw_message flags i (BAddr_IPv4 ip port) data = [flags] @ mem16 i @ mem32 ip @ mem16 port @ data"
| "udpgw_message flags i (BAddr_IPv6 ip port) data = [flags OR 8] @ mem16 i @ ip @ mem16 port @ data"
| "udpgw_message flags i _ data = []"

lemma flow_write_Some: "BufferWriter_StartPacket (ainput f) \<noteq> None \<Longrightarrow> PacketProtoFlow_write f m \<noteq> None"
  by (auto simp: PacketProtoFlow_write_def)

text \<open>\<open>connection_send\<close> writes the message, or drops the packet when the flow's buffer is full.\<close>

lemma connection_send_effect:
  assumes inv: "ug_inv c w old here wire" and p: "p \<in> set (connections_list c)" and len: "length data \<le> udp_mtu c"
    and send: "connection_send c p flags data = (c', acts)"
  shows "acts = (if BufferWriter_StartPacket (ainput (send_ppflow (connections c p))) = None then []
      else [UG_write p (udpgw_message flags (conid_of c p) (remote_addr (conaddr_of c p)) data)])"
    "connections_list c' = connections_list c" "conaddr_of c' = conaddr_of c" "conid_of c' = conid_of c"
proof -
  let ?remote = "remote_addr (conaddr_of c p)" and ?f = "send_ppflow (connections c p)"
  let ?msg = "udpgw_message flags (conid_of c p) ?remote data"
  have ip: "BAddr_ip ?remote"
    using ug_table_inj(3) [OF ug_inv_parts(3) [OF inv]] p by (simp add: valid_conaddr_def)
  have msg: "udpgw_header_bytes \<lparr>uflags = ltoh8 (if BAddr_type ?remote = 2 then flags OR 8 else flags), uconid = ltoh16 (conid_of c p)\<rparr> @
      remote_addr_bytes ?remote @ data = ?msg"
    using ip by (cases ?remote) (simp_all add: udpgw_header_bytes_def udpgw_addr_ipv4_bytes_def udpgw_addr_ipv6_bytes_def ltoh8_def ltoh16_def htol8_def htol16_def)
  have "PacketProtoFlow_write ?f ?msg \<noteq> None" if "BufferWriter_StartPacket (ainput ?f) \<noteq> None"
    by (rule flow_write_Some [OF that])
  then show "acts = (if BufferWriter_StartPacket (ainput ?f) = None then [] else [UG_write p ?msg])"
    "connections_list c' = connections_list c" "conaddr_of c' = conaddr_of c" "conid_of c' = conid_of c"
    using send msg unfolding connection_send_def Let_def by (auto split: option.splits)
qed


lemma ltoh_id: "ltoh8 x = x" "ltoh16 y = y"
  by (simp_all add: ltoh8_def ltoh16_def htol8_def htol16_def)

text \<open>A message is parsed into the address and the data it was made of, and only such messages are.\<close>

lemma parse_message:
  assumes "BAddr_ip remote" "BAddr_type remote = 1 \<Longrightarrow> flags AND 8 = 0"
  shows "3 \<le> length (udpgw_message flags i remote data)"
    "uconid (udpgw_header_load (udpgw_message flags i remote data)) = i"
    "parse_remote_addr (uflags (udpgw_header_load (udpgw_message flags i remote data))) (drop 3 (udpgw_message flags i remote data)) = Some (remote, data)"
proof -
  have bit: "(flags OR 8) AND 8 = (8 :: u8)"
    by (rule bit_word_eqI) (auto simp: bit_simps)
  show "3 \<le> length (udpgw_message flags i remote data)" "uconid (udpgw_header_load (udpgw_message flags i remote data)) = i"
    using assms(1) by (cases remote; simp add: length_mem udpgw_header_load_def load_mem)+
  show "parse_remote_addr (uflags (udpgw_header_load (udpgw_message flags i remote data))) (drop 3 (udpgw_message flags i remote data)) = Some (remote, data)"
    using assms bit
    by (cases remote) (simp_all add: length_mem udpgw_header_load_def parse_remote_addr_def udpgw_addr_ipv4_load_def udpgw_addr_ipv6_load_def
      load_mem BAddr_InitIPv4_def BAddr_InitIPv6_def BAddr_MakeIPv4_def BAddr_MakeIPv6_def Let_def)
qed


lemma flag_or: "flags AND 8 \<noteq> 0 \<Longrightarrow> flags OR 8 = (flags :: u8)"
proof -
  assume "flags AND 8 \<noteq> 0"
  then obtain n where "bit (flags AND 8) n"
    by (metis bit_eq_iff bit_0_eq bot_apply bot_bool_def)
  moreover have eight: "bit (8 :: u8) k \<longleftrightarrow> k = 3" for k
    using bit_exp_iff [where 'a = u8, of 3 k] by auto
  ultimately have "bit flags 3"
    by (auto simp only: bit_and_iff eight)
  then show ?thesis
    by (intro bit_word_eqI) (auto simp only: bit_or_iff eight)
qed

lemma message_parsed:
  assumes "3 \<le> length data" "parse_remote_addr (uflags (udpgw_header_load data)) (drop 3 data) = Some (remote, payload)"
  shows "data = udpgw_message (uflags (udpgw_header_load data)) (uconid (udpgw_header_load data)) remote payload" "BAddr_ip remote"
    "BAddr_type remote = 1 \<Longrightarrow> uflags (udpgw_header_load data) AND 8 = 0"
proof -
  obtain f a b rest where data: "data = f # a # b # rest"
    using assms(1) by (auto simp: numeral_3_eq_3 Suc_le_length_iff)
  have six: "rest = [rest ! 0, rest ! 1, rest ! 2, rest ! 3] @ [rest ! 4, rest ! 5] @ drop 6 rest" if "6 \<le> length rest"
    using that by (auto simp: numeral_eq_Suc Suc_le_length_iff)
  have "drop 16 rest = [rest ! 16, rest ! 17] @ drop 18 rest" if "18 \<le> length rest"
    using that Cons_nth_drop_Suc [of 16 rest] Cons_nth_drop_Suc [of 17 rest] by simp
  then have eighteen: "take 16 rest @ [rest ! 16, rest ! 17] @ drop 18 rest = rest" if "18 \<le> length rest"
    using that append_take_drop_id [of 16 rest] by simp
  have "data = udpgw_message (uflags (udpgw_header_load data)) (uconid (udpgw_header_load data)) remote payload \<and> BAddr_ip remote \<and>
    (BAddr_type remote = 1 \<longrightarrow> uflags (udpgw_header_load data) AND 8 = 0)"
  proof (cases "f AND 8 = 0")
    case True
    then have "6 \<le> length rest" "remote = BAddr_IPv4 (badvpn_read_le32 rest) (badvpn_read_le16 (drop 4 rest))" "payload = drop 6 rest"
      using assms(2) by (auto simp: data udpgw_header_load_def parse_remote_addr_def udpgw_addr_ipv4_load_def BAddr_InitIPv4_def
        BAddr_MakeIPv4_def Let_def split: if_splits)
    then show ?thesis
      using True six by (simp add: data udpgw_header_load_def mem_load)
  next
    case False
    then have "18 \<le> length rest" "remote = BAddr_IPv6 (take 16 rest) (badvpn_read_le16 (drop 16 rest))" "payload = drop 18 rest"
      using assms(2) by (auto simp: data udpgw_header_load_def parse_remote_addr_def udpgw_addr_ipv6_load_def BAddr_InitIPv6_def
        BAddr_MakeIPv6_def Let_def split: if_splits)
    then show ?thesis
      using False eighteen flag_or by (simp add: data udpgw_header_load_def mem_load)
  qed
  then show "data = udpgw_message (uflags (udpgw_header_load data)) (uconid (udpgw_header_load data)) remote payload" "BAddr_ip remote"
    "BAddr_type remote = 1 \<Longrightarrow> uflags (udpgw_header_load data) AND 8 = 0"
    by blast+
qed


text \<open>C6. The client takes a packet from a received message exactly when it is the message of one of its connections for
  that connection's remote address, hands it up with the connection's addresses, and makes the
  connection the most recently used; every other message changes nothing.\<close>

theorem UdpGw_receives:
  assumes "UdpGwClient_Init mtu max_con buffer_size keepalive_time memory flow_memory = Some c0" "ug_args mtu max_con buffer_size"
    "ug_run c0 c w old here wire"
  shows "(\<exists>p\<in>set (connections_list c). \<exists>flags payload.
      data = udpgw_message flags (conid_of c p) (remote_addr (conaddr_of c p)) payload \<and> length payload \<le> udp_mtu c \<and>
      (BAddr_type (remote_addr (conaddr_of c p)) = 1 \<longrightarrow> flags AND 8 = 0) \<and>
      recv_interface_handler_send c data = (c\<lparr>connections_list := remove1 p (connections_list c) @ [p]\<rparr>,
        [UG_recv_done, UG_received (local_addr (conaddr_of c p)) (remote_addr (conaddr_of c p)) payload])) \<or>
    \<not> (\<exists>p\<in>set (connections_list c). \<exists>flags payload.
      data = udpgw_message flags (conid_of c p) (remote_addr (conaddr_of c p)) payload \<and> length payload \<le> udp_mtu c \<and>
      (BAddr_type (remote_addr (conaddr_of c p)) = 1 \<longrightarrow> flags AND 8 = 0)) \<and>
    recv_interface_handler_send c data = (c, [UG_recv_done])"
proof -
  have table: "ug_table c"
    using ug_inv_parts(3) [OF ug_run_inv [OF assms(3) init_ug_inv [OF assms(1,2)]]] .
  define msg where "msg p flags payload \<longleftrightarrow> data = udpgw_message flags (conid_of c p) (remote_addr (conaddr_of c p)) payload \<and>
    length payload \<le> udp_mtu c \<and> (BAddr_type (remote_addr (conaddr_of c p)) = 1 \<longrightarrow> flags AND 8 = 0)" for p flags payload
  have ip: "BAddr_ip (remote_addr (conaddr_of c p))" if "p \<in> set (connections_list c)" for p
    using ug_table_inj(3) [OF table] that by (simp add: valid_conaddr_def)
  show ?thesis
  proof (cases "\<exists>p\<in>set (connections_list c). \<exists>flags payload. msg p flags payload")
    case True
    then obtain p flags payload where p: "p \<in> set (connections_list c)" and m: "msg p flags payload"
      by blast
    note parsed = parse_message [OF ip [OF p], of flags "conid_of c p" payload]
    have "find_connection_by_conid c (conid_of c p) = Some p"
      using ug_table_find(1) [OF table] p by simp
    moreover have "BAddr_CompareOrder (remote_addr (conaddr_of c p)) (remote_addr (conaddr_of c p)) = 0"
      using BAddr_order.cmp_zero [OF ip [OF p] ip [OF p]] by simp
    ultimately have "recv_interface_handler_send c data = (c\<lparr>connections_list := remove1 p (connections_list c) @ [p]\<rparr>,
        [UG_recv_done, UG_received (local_addr (conaddr_of c p)) (remote_addr (conaddr_of c p)) payload])"
      using m parsed unfolding msg_def by (simp add: recv_interface_handler_send_def Let_def ltoh_id)
    with p m show ?thesis
      unfolding msg_def by blast
  next
    case False
    have "recv_interface_handler_send c data = (c, [UG_recv_done])"
    proof (rule ccontr)
      assume nothing: "\<not> ?thesis"
      then obtain remote payload p where m: "3 \<le> length data"
        "parse_remote_addr (uflags (udpgw_header_load data)) (drop 3 data) = Some (remote, payload)" "length payload \<le> udp_mtu c"
        and p: "find_connection_by_conid c (uconid (udpgw_header_load data)) = Some p" "BAddr_CompareOrder (remote_addr (conaddr_of c p)) remote = 0"
        unfolding recv_interface_handler_send_def Let_def ltoh_id
        by (auto split: if_splits option.splits)
      have "p \<in> set (connections_list c)" "uconid (udpgw_header_load data) = conid_of c p"
        using ug_table_find(1) [OF table] p(1) by auto
      moreover from this have "remote = remote_addr (conaddr_of c p)"
        using BAddr_order.cmp_zero [OF ip message_parsed(2) [OF m(1,2)]] p(2) by simp
      ultimately show False
        using False message_parsed [OF m(1,2)] m(3) unfolding msg_def by auto
    qed
    with False show ?thesis
      unfolding msg_def by blast
  qed
qed


section \<open>Submitting a packet\<close>

text \<open>The message written for a packet, if the flow has room.\<close>

definition written :: "UdpGwClient \<Rightarrow> flow \<Rightarrow> u8 \<Rightarrow> BAddr \<Rightarrow> bytes \<Rightarrow> ug_action list" where
  "written c p flags remote data =
     (if BufferWriter_StartPacket (ainput (send_ppflow (connections c p))) = None then []
      else [UG_write p (udpgw_message flags (conid_of c p) remote data)])"

text \<open>A message is refused only if as many messages of the connection wait as its buffer was made for.\<close>

definition sent_or_dropped :: "UdpGwClient \<Rightarrow> (flow \<times> bytes) list \<Rightarrow> (flow \<times> bytes) list \<Rightarrow> flow \<Rightarrow> bytes \<Rightarrow> ug_action list \<Rightarrow> bool" where
  "sent_or_dropped c w outs p message acts \<longleftrightarrow>
     acts = [UG_write p message] \<or> acts = [] \<and> send_buffer_size c \<le> int (length (unsent w outs p))"

lemma flow_refuses:
  assumes inv: "ug_inv c w old here wire" and p: "p \<in> set (connections_list c)"
    and none: "BufferWriter_StartPacket (ainput (send_ppflow (connections c p))) = None"
  shows "send_buffer_size c \<le> int (length (unsent w (old @ here) p))"
proof (rule ccontr)
  let ?f = "send_ppflow (connections c p)"
  assume "\<not> send_buffer_size c \<le> int (length (unsent w (old @ here) p))"
  moreover have fi: "FlowBuffers.flow_inv (send_buffer_size c) ?f (unsent w (old @ here) p)"
    using ug_inv_conn(1) [OF inv p] by (simp add: ug_flow_def Let_def)
  ultimately have "rx (fbuffer ?f)"
    using pb_capacity [of "send_buffer_size c" "fbuffer ?f" "map frame (unsent w (old @ here) p)"] by (simp add: FlowBuffers.flow_inv_def)
  with fi none show False
    by (simp add: FlowBuffers.flow_inv_def BufferWriter_StartPacket_def split: if_splits)
qed

lemma written_sent_or_dropped:
  "ug_inv c w old here wire \<Longrightarrow> p \<in> set (connections_list c) \<Longrightarrow>
    sent_or_dropped c w (old @ here) p (udpgw_message flags (conid_of c p) remote data) (written c p flags remote data)"
  using flow_refuses by (simp add: sent_or_dropped_def written_def)

lemma first_job_writes:
  assumes inv: "ug_inv c w old here wire" and p: "p \<in> set (connections_list c)" and new: "unsent w (old @ here) p = []"
  shows "\<exists>c'. connection_first_job_handler c p =
    (c', [UG_write p (udpgw_message (2 OR first_flags (connections c p)) (conid_of c p) (remote_addr (conaddr_of c p)) (first_data (connections c p)))])"
proof -
  let ?c = "set_connection p (\<lambda>k. k\<lparr>first_job := False\<rparr>) c"
  obtain c' acts where job: "connection_first_job_handler c p = (c', acts)"
    by (cases "connection_first_job_handler c p")
  then have send: "connection_send ?c p (2 OR first_flags (connections c p)) (first_data (connections c p)) = (c', acts)"
    by (simp add: connection_first_job_handler_def Let_def)
  have "0 < send_buffer_size c"
    using ug_inv_parts(4) [OF inv] by (simp add: ug_params_def)
  then have "BufferWriter_StartPacket (ainput (send_ppflow (connections c p))) \<noteq> None"
    using flow_refuses [OF inv p] new by auto
  moreover have "length (first_data (connections c p)) \<le> udp_mtu c"
    using ug_inv_conn(1) [OF inv p] by (simp add: ug_flow_def Let_def)
  ultimately have "acts = [UG_write p (udpgw_message (2 OR first_flags (connections c p)) (conid_of c p) (remote_addr (conaddr_of c p)) (first_data (connections c p)))]"
    using connection_send_effect(1) [OF job_taken_inv [OF inv] _ _ send] p by simp
  with job show ?thesis
    by blast
qed

lemma submit_known:
  assumes inv: "ug_inv c w old here wire" and a: "valid_conaddr \<lparr>local_addr = local, remote_addr = remote\<rparr>" and len: "length data \<le> udp_mtu c"
    and p: "p \<in> set (connections_list c)" "conaddr_of c p = \<lparr>local_addr = local, remote_addr = remote\<rparr>"
  shows "\<exists>c'. UdpGwClient_SubmitPacket malloc alloc c local remote is_dns data = Some (c', written c p (if is_dns then 4 else 0) remote data) \<and>
    connections_list c' = remove1 p (connections_list c) @ [p] \<and> conaddr_of c' = conaddr_of c"
proof -
  let ?c = "c\<lparr>connections_list := remove1 p (connections_list c) @ [p]\<rparr>" and ?flags = "if is_dns then 4 else 0"
  obtain c' acts where send: "connection_send ?c p ?flags data = (c', acts)"
    by (cases "connection_send ?c p ?flags data")
  have "find_connection_by_conaddr c \<lparr>local_addr = local, remote_addr = remote\<rparr> = Some p"
    using ug_table_find(3) [OF ug_inv_parts(3) [OF inv] a] p by simp
  then have "UdpGwClient_SubmitPacket malloc alloc c local remote is_dns data = Some (c', acts)"
    using send by (cases is_dns) (simp_all add: UdpGwClient_SubmitPacket_def Let_def)
  then show ?thesis
    using connection_send_effect [OF move_inv [OF inv p(1)] _ _ send] len p(2) by (simp add: written_def)
qed

lemma submit_full:
  assumes inv: "ug_inv c w old here wire" and a: "valid_conaddr \<lparr>local_addr = local, remote_addr = remote\<rparr>" and len: "length data \<le> udp_mtu c"
    and new: "\<lparr>local_addr = local, remote_addr = remote\<rparr> \<notin> conaddr_of c ` set (connections_list c)" and full: "num_connections c = max_connections c"
  shows "\<exists>c'. UdpGwClient_SubmitPacket malloc alloc c local remote is_dns data =
      Some (c', written c (hd (connections_list c)) ((if is_dns then 4 else 0) OR 2) remote data) \<and>
    connections_list c' = tl (connections_list c) @ [hd (connections_list c)] \<and>
    conaddr_of c' = (conaddr_of c)(hd (connections_list c) := \<lparr>local_addr = local, remote_addr = remote\<rparr>) \<and> conid_of c' = conid_of c"
proof -
  let ?a = "\<lparr>local_addr = local, remote_addr = remote\<rparr>" and ?flags = "(if is_dns then 4 else 0) OR UDPGW_CLIENT_FLAG_REBIND"
  note table = ug_inv_parts(3) [OF inv]
  obtain p rest where list: "connections_list c = p # rest"
    using table full by (cases "connections_list c") (auto simp: ug_table_def)
  have none: "find_connection_by_conaddr c ?a = None"
    using ug_table_find(4) [OF table a] new by simp
  obtain c1 where c1: "reuse_connection c ?a = (c1, Some p)" "ug_inv c1 w old here wire" "connections_list c1 = connections_list c"
    "conaddr_of c1 = (conaddr_of c)(p := ?a)" "conid_of c1 = conid_of c" "udp_mtu c1 = udp_mtu c"
    "\<forall>q. send_ppflow (connections c1 q) = send_ppflow (connections c q)"
    using reuse_inv [OF inv a none list] by blast
  have p: "p \<in> set (connections_list c1)"
    by (simp add: c1(3) list)
  let ?c = "c1\<lparr>connections_list := remove1 p (connections_list c1) @ [p]\<rparr>"
  obtain c' acts where send: "connection_send ?c p ?flags data = (c', acts)"
    by (cases "connection_send ?c p ?flags data")
  note eff = connection_send_effect [OF move_inv [OF c1(2) p] _ _ send]
  have "conaddr_of c1 p = ?a" "conid_of c1 p = conid_of c p"
    using fun_cong [OF c1(4), of p] fun_cong [OF c1(5), of p] by simp_all
  then have "acts = written c p ?flags remote data"
    using eff(1) len c1(6,7) by (simp add: written_def)
  moreover have "connections_list c' = rest @ [p]" "conaddr_of c' = (conaddr_of c)(p := ?a)" "conid_of c' = conid_of c"
    using eff(2-4) len c1(3-6) list by simp_all
  moreover have "UdpGwClient_SubmitPacket malloc alloc c local remote is_dns data = Some (c', acts)"
    using none full c1(1) send by (cases is_dns) (simp_all add: UdpGwClient_SubmitPacket_def Let_def)
  ultimately show ?thesis
    using list by simp
qed

lemma submit_room:
  assumes inv: "ug_inv c w old here wire" and a: "valid_conaddr \<lparr>local_addr = local, remote_addr = remote\<rparr>"
    and new: "\<lparr>local_addr = local, remote_addr = remote\<rparr> \<notin> conaddr_of c ` set (connections_list c)" and room: "num_connections c < max_connections c"
    and fresh: "\<forall>p. malloc = Some p \<longrightarrow> p \<notin> set (connections_list c)"
  shows "\<exists>c'. UdpGwClient_SubmitPacket malloc alloc c local remote is_dns data = Some (c', []) \<and>
    udp_mtu c' = udp_mtu c \<and> max_connections c' = max_connections c \<and> send_buffer_size c' = send_buffer_size c \<and>
    (if malloc = None \<or> PacketProtoFlow_Init (udpgw_mtu c) (send_buffer_size c) alloc = None then connections_list c' = connections_list c
     else let p = the malloc; k = connections c' p in connections_list c' = connections_list c @ [p] \<and>
       conaddr k = \<lparr>local_addr = local, remote_addr = remote\<rparr> \<and> conid k \<notin> conid_of c ` set (connections_list c) \<and>
       first_job k \<and> first_flags k = (if is_dns then 4 else 0) \<and> first_data k = data)"
proof -
  let ?a = "\<lparr>local_addr = local, remote_addr = remote\<rparr>" and ?flags = "if is_dns then 4 else 0"
  note table = ug_inv_parts(3) [OF inv]
  have "find_connection_by_conaddr c ?a = None"
    using ug_table_find(4) [OF table a] new by simp
  then have sub: "UdpGwClient_SubmitPacket malloc alloc c local remote is_dns data =
      map_option (\<lambda>c. (c, [])) (connection_init malloc alloc c ?a ?flags data)"
    using room by (cases is_dns) (simp_all add: UdpGwClient_SubmitPacket_def Let_def)
  show ?thesis
    using table room fresh
  proof (cases rule: connection_init_cases [where malloc = malloc and alloc = alloc and a = ?a and flags = ?flags and data = data])
    case (new p n f con)
    then show ?thesis
      using sub by (auto simp: conid_Insert_def conaddr_Insert_def Let_def)
  qed (use sub in auto)
qed

text \<open>What submitting a packet does, given what was written and completed so far.\<close>

definition submit_effect ::
  "UdpGwClient \<Rightarrow> (flow \<times> bytes) list \<Rightarrow> (flow \<times> bytes) list \<Rightarrow> nat option \<Rightarrow> (int \<Rightarrow> bytes option) \<Rightarrow> BAddr \<Rightarrow> BAddr \<Rightarrow> bool \<Rightarrow> bytes \<Rightarrow>
     UdpGwClient \<Rightarrow> ug_action list \<Rightarrow> bool" where
  "submit_effect c w outs malloc alloc local remote is_dns data c' acts =
    (let a = \<lparr>local_addr = local, remote_addr = remote\<rparr>; flags = (if is_dns then 4 else 0); known = conaddr_of c ` set (connections_list c) in
      (\<forall>p\<in>set (connections_list c). conaddr_of c p = a \<longrightarrow>
        sent_or_dropped c w outs p (udpgw_message flags (conid_of c p) remote data) acts \<and>
        connections_list c' = remove1 p (connections_list c) @ [p] \<and> conaddr_of c' = conaddr_of c) \<and>
      (a \<notin> known \<and> num_connections c = max_connections c \<longrightarrow>
        (let p = hd (connections_list c) in
          sent_or_dropped c w outs p (udpgw_message (flags OR 2) (conid_of c p) remote data) acts \<and>
          connections_list c' = tl (connections_list c) @ [p] \<and> conaddr_of c' = (conaddr_of c)(p := a) \<and> conid_of c' = conid_of c)) \<and>
      (a \<notin> known \<and> num_connections c < max_connections c \<longrightarrow> acts = [] \<and>
        (if malloc = None \<or> PacketProtoFlow_Init (udpgw_mtu c) (send_buffer_size c) alloc = None then connections_list c' = connections_list c
         else let p = the malloc in connections_list c' = connections_list c @ [p] \<and> conaddr_of c' p = a \<and>
           conid_of c' p \<notin> conid_of c ` set (connections_list c) \<and> first_job (connections c' p) \<and>
           snd (connection_first_job_handler c' p) = [UG_write p (udpgw_message (flags OR 2) (conid_of c' p) remote data)])))"

lemma submit_outcome:
  assumes inv: "ug_inv c w old here wire" and ip: "BAddr_ip local" "BAddr_ip remote" and len: "length data \<le> udp_mtu c"
    and fresh: "\<forall>p. malloc = Some p \<longrightarrow> p \<notin> insert 0 (set (connections_list c))"
    and alloc: "\<forall>n x. alloc n = Some x \<longrightarrow> int (length x) = 4 * n"
  shows "\<exists>c' acts. UdpGwClient_SubmitPacket malloc alloc c local remote is_dns data = Some (c', acts) \<and>
    submit_effect c w (old @ here) malloc alloc local remote is_dns data c' acts"
proof -
  define a where "a = \<lparr>local_addr = local, remote_addr = remote\<rparr>"
  define flags :: u8 where "flags = (if is_dns then 4 else 0)"
  note table = ug_inv_parts(3) [OF inv]
  have a: "valid_conaddr a"
    using ip by (simp add: a_def valid_conaddr_def)
  note cases = submit_known [OF inv a [unfolded a_def] len, folded a_def]
    submit_full [OF inv a [unfolded a_def] len, folded a_def] submit_room [OF inv a [unfolded a_def], folded a_def]
  consider (known) p where "p \<in> set (connections_list c)" "conaddr_of c p = a"
    | (full) "a \<notin> conaddr_of c ` set (connections_list c)" "num_connections c = max_connections c"
    | (room) "a \<notin> conaddr_of c ` set (connections_list c)" "num_connections c < max_connections c"
    using table by (cases "num_connections c = max_connections c") (auto simp: ug_table_def)
  then show ?thesis
  proof cases
    case known
    have same: "q = p" if "q \<in> set (connections_list c)" "conaddr_of c q = a" for q
      using inj_onD [OF ug_table_inj(2) [OF table]] that known by simp
    have "a \<in> conaddr_of c ` set (connections_list c)"
      using known by blast
    moreover obtain c' where c': "UdpGwClient_SubmitPacket malloc alloc c local remote is_dns data = Some (c', written c p flags remote data)"
      "connections_list c' = remove1 p (connections_list c) @ [p]" "conaddr_of c' = conaddr_of c"
      using cases(1) [OF known, of malloc alloc is_dns] unfolding flags_def by blast
    moreover note written_sent_or_dropped [OF inv known(1), of flags remote data]
    ultimately show ?thesis
      unfolding submit_effect_def a_def [symmetric] flags_def [symmetric] Let_def using same by blast
  next
    case full
    then have "hd (connections_list c) \<in> set (connections_list c)"
      using table by (auto simp: ug_table_def)
    from written_sent_or_dropped [OF inv this, of "flags OR 2" remote data] full show ?thesis
      unfolding submit_effect_def a_def [symmetric] flags_def [symmetric] Let_def
      using cases(2) [OF full, of malloc alloc is_dns, folded flags_def] by auto
  next
    case room
    from cases(3) [OF room, of malloc alloc is_dns data] fresh obtain c'
      where c': "UdpGwClient_SubmitPacket malloc alloc c local remote is_dns data = Some (c', [])"
        and new: "if malloc = None \<or> PacketProtoFlow_Init (udpgw_mtu c) (send_buffer_size c) alloc = None then connections_list c' = connections_list c
         else let p = the malloc; k = connections c' p in connections_list c' = connections_list c @ [p] \<and> conaddr k = a \<and>
           conid k \<notin> conid_of c ` set (connections_list c) \<and> first_job k \<and> first_flags k = flags \<and> first_data k = data"
      unfolding flags_def by auto
    have inv': "ug_inv c' w old here wire"
      using submit_inv [OF inv ip len fresh alloc c'] by simp
    have "snd (connection_first_job_handler c' p) = [UG_write p (udpgw_message (flags OR 2) (conid_of c' p) remote data)]"
      if p: "malloc = Some p" "connections_list c' = connections_list c @ [p]" "conaddr (connections c' p) = a"
        "first_flags (connections c' p) = flags" "first_data (connections c' p) = data" for p
    proof -
      have "p \<noteq> 0" "p \<notin> set (connections_list c)"
        using fresh p(1) by auto
      then have "p \<notin> fst ` set w"
        using ug_inv_parts(5) [OF inv] by (auto simp: ug_logs_def)
      then have "unsent w (old @ here) p = []"
        by (simp add: unsent_def of_flow_empty)
      from first_job_writes [OF inv' _ this] p show ?thesis
        by (auto simp: a_def or.commute)
    qed
    moreover have "\<forall>p\<in>set (connections_list c). conaddr_of c p \<noteq> a"
      using room(1) by blast
    ultimately show ?thesis
      unfolding submit_effect_def a_def [symmetric] flags_def [symmetric] Let_def using c' new room(2) by (auto simp: Let_def split: if_splits)
  qed
qed

text \<open>C4. Submitting a packet always returns. If its addresses have a connection, that becomes the most recently used one and the
  packet is written as its message. If not, and all numbers are taken, the least recently used connection gets the new
  addresses, keeps its number, and the message, with the rebind flag, says so. In both cases the packet is dropped
  only if at least as many messages of that connection wait to be sent as its buffer was made for. Otherwise a new connection
  with an unused number is made whose first job writes the packet with the rebind flag; when there is no memory
  for it the packet is dropped and the connections stay.\<close>

theorem UdpGw_submits:
  assumes "UdpGwClient_Init mtu max_con buffer_size keepalive_time memory flow_memory = Some c0" "ug_args mtu max_con buffer_size"
    "ug_run c0 c w old here wire" "BAddr_ip local" "BAddr_ip remote" "length data \<le> udp_mtu c"
    "\<forall>p. malloc = Some p \<longrightarrow> p \<notin> insert 0 (set (connections_list c))" "\<forall>n x. alloc n = Some x \<longrightarrow> int (length x) = 4 * n"
  shows "\<exists>c' acts. UdpGwClient_SubmitPacket malloc alloc c local remote is_dns data = Some (c', acts) \<and>
    (let a = \<lparr>local_addr = local, remote_addr = remote\<rparr>; flags = (if is_dns then 4 else 0); known = conaddr_of c ` set (connections_list c) in
      (\<forall>p\<in>set (connections_list c). conaddr_of c p = a \<longrightarrow>
        sent_or_dropped c w (old @ here) p (udpgw_message flags (conid_of c p) remote data) acts \<and>
        connections_list c' = remove1 p (connections_list c) @ [p] \<and> conaddr_of c' = conaddr_of c) \<and>
      (a \<notin> known \<and> num_connections c = max_connections c \<longrightarrow>
        (let p = hd (connections_list c) in
          sent_or_dropped c w (old @ here) p (udpgw_message (flags OR 2) (conid_of c p) remote data) acts \<and>
          connections_list c' = tl (connections_list c) @ [p] \<and> conaddr_of c' = (conaddr_of c)(p := a) \<and> conid_of c' = conid_of c)) \<and>
      (a \<notin> known \<and> num_connections c < max_connections c \<longrightarrow> acts = [] \<and>
        (if malloc = None \<or> PacketProtoFlow_Init (udpgw_mtu c) (send_buffer_size c) alloc = None then connections_list c' = connections_list c
         else let p = the malloc in connections_list c' = connections_list c @ [p] \<and> conaddr_of c' p = a \<and>
           conid_of c' p \<notin> conid_of c ` set (connections_list c) \<and> first_job (connections c' p) \<and>
           snd (connection_first_job_handler c' p) = [UG_write p (udpgw_message (flags OR 2) (conid_of c' p) remote data)])))"
  by (rule submit_outcome [OF ug_run_inv [OF assms(3) init_ug_inv [OF assms(1,2)]] assms(4-8), unfolded submit_effect_def])

section \<open>What reaches the stream\<close>

text \<open>C7. The packets completed for a connection, over all servers, are the frames of the first messages written into its
  flow, in order; those of the client's own flow are keep-alive messages. A server's stream has
  taken the packets completed since it was connected, whole and in order, and a part of the packet
  being sent: a packet that an earlier server had only in part starts again from its first byte.\<close>

theorem UdpGw_delivers:
  assumes "UdpGwClient_Init mtu max_con buffer_size keepalive_time memory flow_memory = Some c0" "ug_args mtu max_con buffer_size"
    "ug_run c0 c w old here wire"
  shows "(\<forall>p\<in>set (connections_list c). \<exists>rest. of_flow p w = rest @ unsent w (old @ here) p \<and> of_flow p (old @ here) = map frame rest) \<and>
    (\<forall>(p, d)\<in>set (old @ here). p \<noteq> 0 \<longrightarrow> p \<in> set (connections_list c)) \<and> (\<forall>d. (0, d) \<in> set (old @ here) \<longrightarrow> d = frame [1, 0, 0]) \<and>
    (have_server c \<longrightarrow> (\<exists>k. wire = concat (map snd here) @ take k (case con_in (send_connector c) of None \<Rightarrow> [] | Some d \<Rightarrow> d)))"
proof -
  have inv: "ug_inv c w old here wire"
    by (rule ug_run_inv [OF assms(3) init_ug_inv [OF assms(1,2)]])
  have "\<exists>rest. of_flow p w = rest @ unsent w (old @ here) p \<and> of_flow p (old @ here) = map frame rest" if "p \<in> set (connections_list c)" for p
    using ug_inv_conn(1) [OF inv that]
    by (intro exI [of _ "take (length (of_flow p (old @ here))) (of_flow p w)"])
      (simp add: ug_flow_def Let_def in_order_def unsent_def)
  moreover have "\<forall>(p, d)\<in>set (old @ here). p \<noteq> 0 \<longrightarrow> p \<in> set (connections_list c)" "\<forall>d. (0, d) \<in> set (old @ here) \<longrightarrow> d = frame [1, 0, 0]"
    using ug_inv_parts(4,5) [OF inv] by (auto simp: ug_logs_def ug_params_def)
  moreover have "\<exists>k. wire = concat (map snd here) @ take k (case con_in (send_connector c) of None \<Rightarrow> [] | Some d \<Rightarrow> d)" if "have_server c"
    using ug_inv_parts(2) [OF inv] that by (auto simp: ug_link_def Let_def split: option.splits)
  ultimately show ?thesis
    by blast
qed


section \<open>Freeing the client\<close>

definition ug_freeing :: "UdpGwClient \<Rightarrow> bool" where
  "ug_freeing c = (ug_table c \<and> fq_inv (send_queue c) \<and> freeing (send_queue c) \<and> 0 \<notin> set (connections_list c) \<and>
     set (flows_list (send_queue c)) = insert 0 (set (connections_list c)))"

lemma connection_free_table:
  assumes table: "ug_table c" and p: "p \<in> set (connections_list c)"
  shows "ug_table (connection_free c p)"
proof -
  have t: "bavl_inv conaddr_comparator valid_conaddr (conaddr_of c) (tree_by_conaddr c)"
    "elems (tree_by_conaddr c) = set (connections_list c)"
    "bavl_inv uint16_comparator (\<lambda>_. True) (conid_of c) (tree_by_conid c)" "elems (tree_by_conid c) = set (connections_list c)"
    using table by (simp_all add: ug_table_def)
  have c': "conaddr_of (connection_free c p) = conaddr_of c" "conid_of (connection_free c p) = conid_of c"
    "tree_by_conaddr (connection_free c p) = remove_node (tree_by_conaddr c) p" "tree_by_conid (connection_free c p) = remove_node (tree_by_conid c) p"
    "connections_list (connection_free c p) = remove1 p (connections_list c)" "num_connections (connection_free c p) = num_connections c - 1"
    "max_connections (connection_free c p) = max_connections c" "next_conid (connection_free c p) = next_conid c"
    by (auto simp: connection_free_def Let_def)
  have "length (connections_list c) > 0"
    using p by auto
  then show ?thesis
    using remove_node_inv [OF t(1), of p] remove_node_conid [OF t(3), of p] t p table
    by (auto simp: ug_table_def c' length_remove1 c'(1,2) [THEN fun_cong])
qed

lemma connection_free_freeing:
  assumes "ug_freeing c" "connections_list c = p # rest"
  shows "ug_freeing (connection_free c p)"
proof -
  have table: "ug_table c" and q: "fq_inv (send_queue c)" "freeing (send_queue c)" "set (flows_list (send_queue c)) = insert 0 (set (connections_list c))"
    and p: "p \<in> set (connections_list c)" "p \<in> set (flows_list (send_queue c))" "p \<noteq> 0" "distinct (p # rest)" "0 \<notin> set rest"
    using assms by (auto simp: ug_freeing_def ug_table_def)
  have c': "send_queue (connection_free c p) = PacketPassFairQueueFlow_Free p (send_queue c)" "connections_list (connection_free c p) = rest"
    using assms(2) by (simp_all add: connection_free_def Let_def)
  have "flows_list (PacketPassFairQueueFlow_Free p (send_queue c)) = remove1 p (flows_list (send_queue c))"
    "freeing (PacketPassFairQueueFlow_Free p (send_queue c)) = freeing (send_queue c)"
    by (simp_all add: PacketPassFairQueueFlow_Free_def Let_def)
  moreover have "distinct (flows_list (send_queue c))"
    using q(1) by (simp add: fq_inv_defs)
  ultimately show ?thesis
    using connection_free_table [OF table p(1)] flow_free_inv [OF q(1) p(2)] q p assms(2) by (auto simp: ug_freeing_def c')
qed

lemma free_connections_freeing:
  "ug_freeing c \<Longrightarrow> ug_freeing (free_connections c) \<and> connections_list (free_connections c) = []"
proof (induction c rule: free_connections.induct)
  case (1 c)
  show ?case
  proof (cases "connections_list c")
    case Nil
    with 1(2) show ?thesis
      by (subst (1 2) free_connections.simps) simp
  next
    case (Cons p rest)
    then show ?thesis
      using 1(1) [OF Cons] connection_free_freeing [OF 1(2) Cons] by (subst (1 2) free_connections.simps) simp
  qed
qed

lemma free_connections_keeps:
  "have_server (free_connections c) = have_server c" "send_connector (free_connections c) = send_connector c"
proof (induction c rule: free_connections.induct)
  case (1 c)
  note IH = 1
  have "have_server (free_connections c) = have_server c \<and> send_connector (free_connections c) = send_connector c"
  proof (cases "connections_list c")
    case (Cons p rest)
    then show ?thesis
      using IH [OF Cons] by (subst (1 2) free_connections.simps) (simp add: connection_free_def Let_def)
  qed (subst (1 2) free_connections.simps, simp)
  then show "have_server (free_connections c) = have_server c" "send_connector (free_connections c) = send_connector c"
    by simp_all
qed

lemma last_flow_free:
  assumes "fq_inv m" "freeing m" "set (flows_list m) = {f}"
  shows "flows_list (PacketPassFairQueueFlow_Free f m) = []" "queued_tree (PacketPassFairQueueFlow_Free f m) = Null"
    "sending_flow (PacketPassFairQueueFlow_Free f m) = None"
proof -
  let ?m = "PacketPassFairQueueFlow_Free f m"
  have "distinct (flows_list m)"
    using assms(1) by (simp add: fq_inv_defs)
  then have "set (remove1 f (flows_list m)) = {}"
    using assms(3) by simp
  then show none: "flows_list ?m = []"
    by (simp add: PacketPassFairQueueFlow_Free_def Let_def)
  have inv: "fq_inv ?m"
    using flow_free_inv [of m f] assms by simp
  moreover have "queued ?m = {}"
    by (simp add: queued_def none)
  ultimately show "queued_tree ?m = Null"
    using elems_empty [of "queued_tree ?m"] by (simp add: fq_inv_defs)
  show "sending_flow ?m = None"
    using inv none by (cases "sending_flow ?m") (auto simp: fq_inv_defs)
qed

text \<open>C22. Freeing the client at any moment frees every connection: trees, list and queue are empty, as the free operations of the
  queue and the flows require, the queue's job, the timer and the output of the connector are gone.\<close>

theorem UdpGw_frees:
  assumes "UdpGwClient_Init mtu max_con buffer_size keepalive_time memory flow_memory = Some c0" "ug_args mtu max_con buffer_size"
    "ug_run c0 c w old here wire" "c' = UdpGwClient_Free c"
  shows "connections_list c' = [] \<and> num_connections c' = 0 \<and> tree_by_conaddr c' = Null \<and> tree_by_conid c' = Null \<and>
    flows_list (send_queue c') = [] \<and> queued_tree (send_queue c') = Null \<and> sending_flow (send_queue c') = None \<and>
    \<not> schedule_job (send_queue c') \<and> im_timer (send_monitor c') = None \<and> (have_server c \<longrightarrow> \<not> con_output (send_connector c') \<and> recv_decoder c' = None)"
proof -
  have inv: "ug_inv c w old here wire"
    by (rule ug_run_inv [OF assms(3) init_ug_inv [OF assms(1,2)]])
  note q = ug_queueD [OF ug_inv_parts(1) [OF inv]]
  define c1 where "c1 = c\<lparr>send_queue := PacketPassFairQueue_PrepareFree (send_queue c)\<rparr>"
  define c2 where "c2 = free_connections c1"
  have "ug_table c1"
    by (rule ug_table_cong [OF ug_inv_parts(3) [OF inv]]) (use ug_inv_parts(3) [OF inv] in \<open>auto simp: c1_def ug_table_def\<close>)
  moreover have "fq_inv (PacketPassFairQueue_PrepareFree (send_queue c))"
    using fq_step_inv [OF fq_prepare_free q(1)] .
  ultimately have "ug_freeing c1"
    using q(3,4) by (simp add: ug_freeing_def c1_def PacketPassFairQueue_PrepareFree_def)
  then have c2: "ug_table c2" "fq_inv (send_queue c2)" "freeing (send_queue c2)" "set (flows_list (send_queue c2)) = {0}" "connections_list c2 = []"
    using free_connections_freeing [of c1] by (simp_all add: c2_def ug_freeing_def)
  then have "num_connections c2 = 0" "tree_by_conaddr c2 = Null" "tree_by_conid c2 = Null"
    using elems_empty [of "tree_by_conaddr c2"] elems_empty [of "tree_by_conid c2"] by (simp_all add: ug_table_def)
  moreover have "have_server c2 = have_server c"
    unfolding c2_def free_connections_keeps by (simp add: c1_def)
  ultimately show ?thesis
    using last_flow_free [OF c2(2-4)] c2(5)
    unfolding assms(4) UdpGwClient_Free_def c1_def [symmetric] Let_def c2_def [symmetric]
    by (simp add: free_server_def PacketPassConnector_DisconnectOutput_def PacketPassFairQueue_Free_def PacketPassInactivityMonitor_Free_def)
qed


section \<open>Sample runs\<close>

text \<open>A client for packets of 4 bytes with one connection.\<close>

abbreviation sample_qflow :: fq_flow where
  "sample_qflow \<equiv> \<lparr>vtime = 0, is_queued = False, queued_data = [], handler_busy = None\<rparr>"

definition sample_ug :: UdpGwClient where
  "sample_ug = the (UdpGwClient_Init 4 1 1 1000 undefined (\<lambda>_. sample_qflow))"

abbreviation sample_alloc :: "int \<Rightarrow> bytes option" where
  "sample_alloc \<equiv> \<lambda>n. if n < 0 then None else Some (replicate (nat (4 * n)) 0)"

abbreviation sample_local :: BAddr where "sample_local \<equiv> BAddr_IPv4 1 2"
abbreviation sample_remote :: BAddr where "sample_remote \<equiv> BAddr_IPv4 3 4"

lemma sample_mtu: "udpgw_compute_mtu TYPE(32) 4 = 25"
  using udpgw_compute_mtu_value [where 'w = 32, of 4] by simp

lemma sample_ug_eq:
  "UdpGwClient_Init 4 1 1 1000 undefined (\<lambda>_. sample_qflow) = Some sample_ug"
  "sample_ug = \<lparr>udp_mtu = 4, max_connections = 1, send_buffer_size = 1, udpgw_mtu = 25, pp_mtu = 27, connections = undefined,
     tree_by_conaddr = Null, tree_by_conid = Null, connections_list = [], num_connections = 0, next_conid = 0,
     send_queue = \<lparr>fq_mtu = 27, use_cancel = False, packet_weight = 1, sending_flow = None, sending_len = 0, previous_flow = None,
       queued_tree = Null, flows_list = [0], freeing = False, schedule_job = False,
       flows = \<lambda>_. sample_qflow\<rparr>,
     send_monitor = \<lparr>im_mtu = 27, im_cancel = False, im_interval = 1000, im_handler = True, im_timer = Some 1000\<rparr>,
     send_connector = \<lparr>con_mtu = 27, con_in = None, con_output = False\<rparr>, keepalive_packet = [3, 0, 1, 0, 0], keepalive_sending = False,
     have_server = False, send_sender = \<lparr>in_len = - 1, in_data = [], in_used = 0\<rparr>, recv_decoder = None\<rparr>"
proof -
  have "unat (- 1 :: u64) = 2 ^ 64 - 1"
    by (simp add: unsigned_minus_1_eq_mask mask_eq_exp_minus_1)
  then obtain m where m: "PacketPassFairQueue_Init 27 False 1 (\<lambda>_. sample_qflow) = Some m" "m = \<lparr>fq_mtu = 27, use_cancel = False, packet_weight = 1,
      sending_flow = None, sending_len = 0, previous_flow = None, queued_tree = Null, flows_list = [], freeing = False, schedule_job = False,
      flows = \<lambda>_. sample_qflow\<rparr>"
    by (simp add: PacketPassFairQueue_Init_def savl_defs BAVL_Init_def)
  have "UdpGwClient_Init 4 1 1 1000 undefined (\<lambda>_. sample_qflow) = Some (the (UdpGwClient_Init 4 1 1 1000 undefined (\<lambda>_. sample_qflow)))"
    using m(1) by (simp add: UdpGwClient_Init_def Let_def sample_mtu)
  then show "UdpGwClient_Init 4 1 1 1000 undefined (\<lambda>_. sample_qflow) = Some sample_ug"
    by (simp only: sample_ug_def)
  show "sample_ug = \<lparr>udp_mtu = 4, max_connections = 1, send_buffer_size = 1, udpgw_mtu = 25, pp_mtu = 27, connections = undefined,
     tree_by_conaddr = Null, tree_by_conid = Null, connections_list = [], num_connections = 0, next_conid = 0,
     send_queue = \<lparr>fq_mtu = 27, use_cancel = False, packet_weight = 1, sending_flow = None, sending_len = 0, previous_flow = None,
       queued_tree = Null, flows_list = [0], freeing = False, schedule_job = False,
       flows = \<lambda>_. sample_qflow\<rparr>,
     send_monitor = \<lparr>im_mtu = 27, im_cancel = False, im_interval = 1000, im_handler = True, im_timer = Some 1000\<rparr>,
     send_connector = \<lparr>con_mtu = 27, con_in = None, con_output = False\<rparr>, keepalive_packet = [3, 0, 1, 0, 0], keepalive_sending = False,
     have_server = False, send_sender = \<lparr>in_len = - 1, in_data = [], in_used = 0\<rparr>, recv_decoder = None\<rparr>"
    using m unfolding sample_ug_def
    by (simp add: UdpGwClient_Init_def Let_def sample_mtu BAVL_Init_def PacketPassFairQueueFlow_Init_def set_flow_def fun_upd_idem
      PacketPassInactivityMonitor_Init_def PacketPassConnector_Init_def PacketStreamSender_Init_def udpgw_header_bytes_def mem16_eq)
qed

lemmas sample_ug_init = sample_ug_eq(1)

lemma sample_ug_args: "ug_args 4 1 1"
  by (simp add: ug_args_def ChunkBuffer2_calc_blocks_def bdivide_up_def)

lemma sample_ug_fields [simp]:
  "udp_mtu sample_ug = 4" "max_connections sample_ug = 1" "send_buffer_size sample_ug = 1" "udpgw_mtu sample_ug = 25"
  "connections_list sample_ug = []" "num_connections sample_ug = 0" "im_timer (send_monitor sample_ug) = Some 1000"
  "keepalive_packet sample_ug = [3, 0, 1, 0, 0]" "have_server sample_ug = False" "keepalive_sending sample_ug = False"
  by (simp_all add: sample_ug_eq(2))

lemma sample_ug_flow: "PacketProtoFlow_Init 25 1 sample_alloc \<noteq> None"
  by (simp add: PacketProtoFlow_Init_def PACKETPROTO_ENCLEN_def PacketBuffer_Init_def ChunkBuffer2_calc_blocks_def bdivide_up_def Let_def)

lemma sample_ug_connected:
  obtains c where "ug_run sample_ug c [] [] [] []" "connections_list c = [1]" "udp_mtu c = 4" "conid_of c 1 = 0"
    "conaddr_of c 1 = \<lparr>local_addr = sample_local, remote_addr = sample_remote\<rparr>" "first_job (connections c 1)"
    "first_flags (connections c 1) = 0" "first_data (connections c 1) = [7, 8]" "send_buffer_size c = 1"
proof -
  obtain c where c: "UdpGwClient_SubmitPacket (Some 1) sample_alloc sample_ug sample_local sample_remote False [7, 8] = Some (c, [])"
    "connections_list c = [1]" "conaddr_of c 1 = \<lparr>local_addr = sample_local, remote_addr = sample_remote\<rparr>"
    "first_job (connections c 1)" "first_flags (connections c 1) = 0" "first_data (connections c 1) = [7, 8]"
    "udp_mtu c = 4" "max_connections c = 1" "send_buffer_size c = 1"
    using submit_room [OF init_ug_inv [OF sample_ug_init sample_ug_args], of sample_local sample_remote "Some 1" sample_alloc False "[7, 8]"] sample_ug_flow
    by (auto simp: valid_conaddr_def Let_def)
  have run: "ug_run sample_ug c [] [] [] []"
    using ug_submit [OF ug_start _ _ _ _ _ _ c(1)] by simp
  have "unat (conid_of c 1) < 1"
    using ug_inv_parts(3) [OF ug_run_inv [OF run init_ug_inv [OF sample_ug_init sample_ug_args]]] c(2,8) by (simp add: ug_table_def)
  then have "conid_of c 1 = 0"
    by (simp add: unat_eq_zero)
  with that run c show thesis
    by blast
qed

lemma sample_written:
  obtains c where "ug_run sample_ug c [(1, udpgw_message 2 0 sample_remote [7, 8])] [] [] []" "connections_list c = [1]"
proof -
  obtain c where c: "ug_run sample_ug c [] [] [] []" "connections_list c = [1]" "udp_mtu c = 4" "conid_of c 1 = 0"
    "conaddr_of c 1 = \<lparr>local_addr = sample_local, remote_addr = sample_remote\<rparr>" "first_job (connections c 1)"
    "first_flags (connections c 1) = 0" "first_data (connections c 1) = [7, 8]" "send_buffer_size c = 1"
    by (rule sample_ug_connected)
  let ?c = "set_connection 1 (\<lambda>k. k\<lparr>first_job := False\<rparr>) c"
  have inv: "ug_inv c [] [] [] []"
    by (rule ug_run_inv [OF c(1) init_ug_inv [OF sample_ug_init sample_ug_args]])
  have "rx (fbuffer (send_ppflow (connections c 1)))"
    using ug_inv_conn(1) [OF inv, of 1] c(2,9) pb_capacity [of 1 "fbuffer (send_ppflow (connections c 1))" "[]"]
    by (simp add: ug_flow_def Let_def unsent_def FlowBuffers.flow_inv_def)
  then have room: "BufferWriter_StartPacket (ainput (send_ppflow (connections c 1))) \<noteq> None"
    using ug_inv_conn(1) [OF inv, of 1] c(2) by (simp add: ug_flow_def Let_def FlowBuffers.flow_inv_def BufferWriter_StartPacket_def)
  obtain c' acts where job: "connection_first_job_handler c 1 = (c', acts)"
    by (cases "connection_first_job_handler c 1")
  have send: "connection_send ?c 1 2 [7, 8] = (c', acts)"
    using job c(7,8) by (simp add: connection_first_job_handler_def Let_def)
  have "acts = [UG_write 1 (udpgw_message 2 0 sample_remote [7, 8])] \<and> connections_list c' = [1]"
    using connection_send_effect [OF job_taken_inv [OF inv] _ _ send] room c(2-5) by simp
  then show thesis
    using that ug_first_job [OF c(1) _ c(6) job] c(2) by auto
qed

text \<open>The timer expires, a server is connected, and its stream takes the keep-alive message in two parts.\<close>

definition sample_keepalive :: UdpGwClient where
  "sample_keepalive = flow_send_job (fst (UdpGwClient_ConnectServer (\<lambda>n. Some (replicate n 0))
     (fst (send_monitor_handler 1 (sample_ug\<lparr>send_monitor := fst (monitor_timer_handler (send_monitor sample_ug))\<rparr>))))) 0 [3, 0, 1, 0, 0]"

lemma sample_keepalive_eq:
  "ug_run sample_ug sample_keepalive [] [] [] []" "have_server sample_keepalive" "con_in (send_connector sample_keepalive) = Some [3, 0, 1, 0, 0]"
  "send_sender sample_keepalive = \<lparr>in_len = 5, in_data = [3, 0, 1, 0, 0], in_used = 0\<rparr>" "sending_flow (send_queue sample_keepalive) = Some 0"
proof -
  define c1 where "c1 = fst (send_monitor_handler 1 (sample_ug\<lparr>send_monitor := fst (monitor_timer_handler (send_monitor sample_ug))\<rparr>))"
  define c2 where "c2 = fst (UdpGwClient_ConnectServer (\<lambda>n. Some (replicate n 0)) c1)"
  have run1: "ug_run sample_ug c1 [] [] [] []"
    unfolding c1_def by (rule ug_timer [OF ug_start]) simp
  have c1: "\<not> have_server c1" "send_connector c1 = send_connector sample_ug" "send_queue c1 = send_queue sample_ug" "keepalive_sending c1"
    "keepalive_packet c1 = [3, 0, 1, 0, 0]"
    by (simp_all add: c1_def send_monitor_handler_def)
  have "UdpGwClient_ConnectServer (\<lambda>n. Some (replicate n 0)) c1 = (c2, True)"
    by (simp add: c2_def UdpGwClient_ConnectServer_def PacketProtoDecoder_Init_def Let_def split: prod.split)
  from ug_connect [OF run1 c1(1) this] have run2: "ug_run sample_ug c2 [] [] [] []"
    by simp
  have c2: "have_server c2" "con_output (send_connector c2)" "send_queue c2 = send_queue sample_ug" "keepalive_sending c2" "keepalive_packet c2 = [3, 0, 1, 0, 0]"
    "send_sender c2 = PacketStreamSender_Init"
    using c1 by (simp_all add: c2_def UdpGwClient_ConnectServer_def PacketProtoDecoder_Init_def PacketPassConnector_ConnectOutput_def Let_def sample_ug_eq(2))
  have queue: "send_queue sample_ug = \<lparr>fq_mtu = 27, use_cancel = False, packet_weight = 1, sending_flow = None, sending_len = 0, previous_flow = None,
       queued_tree = Null, flows_list = [0], freeing = False, schedule_job = False, flows = \<lambda>_. sample_qflow\<rparr>"
    by (simp add: sample_ug_eq(2))
  have pk: "flow_packet c2 0 = Some [3, 0, 1, 0, 0]"
    using c2 by (simp add: flow_packet_def)
  have keep: "sample_keepalive = flow_send_job c2 0 [3, 0, 1, 0, 0]"
    by (simp add: sample_keepalive_def c2_def c1_def)
  show "ug_run sample_ug sample_keepalive [] [] [] []"
    unfolding keep by (rule ug_flow_job [OF run2 _ _ _ pk]) (simp_all add: c2(3) queue)
  obtain m where m: "fq_input_handler_send (send_queue c2) 0 [3, 0, 1, 0, 0] = (m, [FQ_send [3, 0, 1, 0, 0]])" "sending_flow m = Some 0"
  proof -
    have inv: "ug_inv c2 [] [] [] []"
      by (rule ug_run_inv [OF run2 init_ug_inv [OF sample_ug_init sample_ug_args]])
    obtain m calls where mc: "fq_input_handler_send (send_queue c2) 0 [3, 0, 1, 0, 0] = (m, calls)"
      by (cases "fq_input_handler_send (send_queue c2) 0 [3, 0, 1, 0, 0]")
    with send_effect [OF ug_queueD(1) [OF ug_inv_parts(1) [OF inv]] _ _ _ _ mc] that show thesis
      by (simp add: c2(3) queue)
  qed
  show "have_server sample_keepalive" "con_in (send_connector sample_keepalive) = Some [3, 0, 1, 0, 0]"
    "send_sender sample_keepalive = \<lparr>in_len = 5, in_data = [3, 0, 1, 0, 0], in_used = 0\<rparr>" "sending_flow (send_queue sample_keepalive) = Some 0"
    unfolding keep using m c2 by (simp_all add: flow_send_job_def queue_calls_def monitor_input_handler_send_def
      connector_input_handler_send_def pss_input_handler_send_def pss_send_data_def PacketStreamSender_Init_def)
qed


lemma sample_keepalive_part: "ug_run sample_ug (stream_done sample_keepalive 2) [] [] [] [3, 0]"
  using ug_stream_some [OF sample_keepalive_eq(1,2), of 2] by (simp add: sample_keepalive_eq(4))

lemma sample_keepalive_sent: "ug_run sample_ug (stream_done (stream_done sample_keepalive 2) 3) [] [] [(0, [3, 0, 1, 0, 0])] [3, 0, 1, 0, 0]"
proof -
  have "stream_done sample_keepalive 2 = sample_keepalive\<lparr>send_sender := \<lparr>in_len = 5, in_data = [3, 0, 1, 0, 0], in_used = 2\<rparr>\<rparr>"
    by (simp add: stream_done_def pss_output_handler_done_def pss_send_data_def sample_keepalive_eq(4))
  then show ?thesis
    using ug_stream_all [OF sample_keepalive_part, of 3 0 "[3, 0, 1, 0, 0]"] sample_keepalive_eq(2,3,5) by simp
qed

section \<open>Witnesses\<close>

theorem UdpGw_invariant_witness:
  "\<exists>c. ug_run sample_ug c [] [] [] [] \<and> connections_list c = [1] \<and> elems (tree_by_conid c) = {1} \<and> set (flows_list (send_queue c)) = {0, 1}"
proof -
  obtain c where c: "ug_run sample_ug c [] [] [] []" "connections_list c = [1]"
    by (rule sample_ug_connected)
  from UdpGw_invariant [OF sample_ug_init sample_ug_args c(1)] c show ?thesis
    by (intro exI [of _ c]) simp
qed

theorem UdpGw_find_unused_conid_witness:
  "\<exists>n < 1. find_unused_conid sample_ug = Some (sample_ug\<lparr>next_conid := n\<rparr>, of_nat n) \<and> find_connection_by_conid sample_ug (of_nat n) = None"
  using UdpGw_find_unused_conid [OF sample_ug_init sample_ug_args ug_start] by simp

theorem UdpGw_receives_witness:
  "\<exists>c. connections_list c = [1] \<and> snd (recv_interface_handler_send c (udpgw_message 0 0 sample_remote [9])) =
    [UG_recv_done, UG_received sample_local sample_remote [9]]"
proof -
  obtain c where c: "ug_run sample_ug c [] [] [] []" "connections_list c = [1]" "udp_mtu c = 4" "conid_of c 1 = 0"
    "conaddr_of c 1 = \<lparr>local_addr = sample_local, remote_addr = sample_remote\<rparr>"
    by (rule sample_ug_connected)
  have "snd (recv_interface_handler_send c (udpgw_message 0 0 sample_remote [9])) = [UG_recv_done, UG_received sample_local sample_remote [9]]"
    using UdpGw_receives [OF sample_ug_init sample_ug_args c(1), of "udpgw_message 0 0 sample_remote [9]"] c(2-5)
    by (auto dest!: spec [of _ "[9]"])
  with c(2) show ?thesis
    by blast
qed

theorem UdpGw_submits_witness:
  "\<exists>c'. UdpGwClient_SubmitPacket (Some 1) sample_alloc sample_ug sample_local sample_remote True [7, 8] = Some (c', []) \<and>
    connections_list c' = [1] \<and>
    snd (connection_first_job_handler c' 1) = [UG_write 1 (udpgw_message 6 (conid_of c' 1) sample_remote [7, 8])]"
proof -
  have alloc: "\<forall>n x. sample_alloc n = Some x \<longrightarrow> int (length x) = 4 * n"
    by simp
  from UdpGw_submits [OF sample_ug_init sample_ug_args ug_start, of sample_local sample_remote "[7, 8]" "Some 1" sample_alloc True] alloc show ?thesis
    using sample_ug_flow by (auto simp: Let_def simp del: udpgw_message.simps)
qed

theorem UdpGw_delivers_witness:
  "have_server (stream_done sample_keepalive 2) \<and>
   (\<exists>k. [3, 0] = take k (case con_in (send_connector (stream_done sample_keepalive 2)) of None \<Rightarrow> [] | Some d \<Rightarrow> d))"
proof -
  have "have_server (stream_done sample_keepalive 2)"
    using sample_keepalive_eq by (simp add: stream_done_def pss_output_handler_done_def pss_send_data_def)
  then show ?thesis
    using UdpGw_delivers [OF sample_ug_init sample_ug_args sample_keepalive_part] by auto
qed


theorem UdpGw_frees_witness:
  "\<exists>c. connections_list c = [1] \<and> connections_list (UdpGwClient_Free c) = [] \<and> flows_list (send_queue (UdpGwClient_Free c)) = []"
proof -
  obtain c where c: "ug_run sample_ug c [] [] [] []" "connections_list c = [1]"
    by (rule sample_ug_connected)
  from UdpGw_frees [OF sample_ug_init sample_ug_args c(1) refl] c(2) show ?thesis
    by (intro exI [of _ c]) simp
qed

end
