(* ===== verification/SocksUdpGw.thy ===== *)
theory SocksUdpGw
  imports SocksClient UdpGwProps
begin

text \<open>
  The udpgw client over SOCKS of \<open>tun2socks/SocksUdpGwClient.c\<close>: it keeps a SOCKS client for the udpgw
  server's address, gives the connection to the udpgw client when it is up, and starts over some time
  after it failed.  The calls of the SOCKS client are those of \<open>SocksClient\<close>; whether the connector can be
  set up and the memory of the decoder are arguments.  The timer is whether it runs.
\<close>

section \<open>Operations\<close>

record SocksUdpGwClient =
  sg_udp_mtu :: nat
  socks_server_addr :: BAddr
  sg_auth_info :: "BSocksClient_auth_info list"
  remote_udpgw_addr :: BAddr
  udpgw_client :: UdpGwClient
  reconnect_timer :: bool
  have_socks :: bool
  socks_client :: BSocksClient
  socks_up :: bool

definition free_socks :: "SocksUdpGwClient \<Rightarrow> SocksUdpGwClient \<times> socks_call list" where
  "free_socks g =
     (let g = (if socks_up g then g\<lparr>udpgw_client := UdpGwClient_DisconnectServer (udpgw_client g)\<rparr> else g);
          calls = BSocksClient_Free (socks_client g)
      in (g\<lparr>have_socks := False\<rparr>, calls))"

definition try_connect :: "bool \<Rightarrow> SocksUdpGwClient \<Rightarrow> SocksUdpGwClient \<times> socks_call list" where
  "try_connect connector_init g =
     (case BSocksClient_Init connector_init (sg_auth_info g) (remote_udpgw_addr g) of
        None \<Rightarrow> (g\<lparr>reconnect_timer := True\<rparr>, [])
      | Some (c, calls) \<Rightarrow> (g\<lparr>socks_client := c, have_socks := True, socks_up := False\<rparr>, calls))"

definition reconnect_timer_handler :: "bool \<Rightarrow> SocksUdpGwClient \<Rightarrow> SocksUdpGwClient \<times> socks_call list" where
  "reconnect_timer_handler connector_init g = try_connect connector_init g"

definition socks_client_handler ::
  "(nat \<Rightarrow> bytes option) \<Rightarrow> SocksUdpGwClient \<Rightarrow> socks_event \<Rightarrow> SocksUdpGwClient \<times> socks_call list" where
  "socks_client_handler malloc g event =
     (case event of
        BSOCKSCLIENT_EVENT_UP \<Rightarrow>
          (case UdpGwClient_ConnectServer malloc (udpgw_client g) of
             (c, True) \<Rightarrow> (g\<lparr>udpgw_client := c, socks_up := True\<rparr>, [])
           | (c, False) \<Rightarrow>
               (let (g, calls) = free_socks (g\<lparr>udpgw_client := c\<rparr>) in (g\<lparr>reconnect_timer := True\<rparr>, calls)))
      | _ \<Rightarrow> (let (g, calls) = free_socks g in (g\<lparr>reconnect_timer := True\<rparr>, calls)))"

definition udpgw_handler_servererror :: "SocksUdpGwClient \<Rightarrow> SocksUdpGwClient \<times> socks_call list" where
  "udpgw_handler_servererror g = (let (g, calls) = free_socks g in (g\<lparr>reconnect_timer := True\<rparr>, calls))"

definition udpgw_handler_received :: "BAddr \<Rightarrow> BAddr \<Rightarrow> bytes \<Rightarrow> BAddr \<times> BAddr \<times> bytes" where
  "udpgw_handler_received local remote data = (local, remote, data)"

text \<open>The fields \<open>have_socks\<close> and \<open>reconnect_timer\<close> are set before they are read; the others are as the memory
  of the object was.\<close>

definition SocksUdpGwClient_Init ::
  "bool \<Rightarrow> SocksUdpGwClient \<Rightarrow> nat \<Rightarrow> nat \<Rightarrow> int \<Rightarrow> nat \<Rightarrow> (nat \<Rightarrow> UdpGwClient_connection) \<Rightarrow> (flow \<Rightarrow> fq_flow) \<Rightarrow>
     BAddr \<Rightarrow> BSocksClient_auth_info list \<Rightarrow> BAddr \<Rightarrow> (SocksUdpGwClient \<times> socks_call list) option" where
  "SocksUdpGwClient_Init connector_init g mtu max_con buffer_size keepalive_time memory flow_memory server ai remote =
     (let g = g\<lparr>sg_udp_mtu := mtu, socks_server_addr := server, sg_auth_info := ai, remote_udpgw_addr := remote\<rparr>
      in case UdpGwClient_Init mtu max_con buffer_size keepalive_time memory flow_memory of
           None \<Rightarrow> None
         | Some c \<Rightarrow> Some (try_connect connector_init (g\<lparr>udpgw_client := c, reconnect_timer := False, have_socks := False\<rparr>)))"

definition SocksUdpGwClient_Free :: "SocksUdpGwClient \<Rightarrow> SocksUdpGwClient \<times> socks_call list" where
  "SocksUdpGwClient_Free g =
     (let (g, calls) = (if have_socks g then free_socks g else (g, []));
          g = g\<lparr>reconnect_timer := False\<rparr>
      in (g\<lparr>udpgw_client := UdpGwClient_Free (udpgw_client g)\<rparr>, calls))"

definition SocksUdpGwClient_SubmitPacket ::
  "nat option \<Rightarrow> (int \<Rightarrow> bytes option) \<Rightarrow> SocksUdpGwClient \<Rightarrow> BAddr \<Rightarrow> BAddr \<Rightarrow> bool \<Rightarrow> bytes \<Rightarrow>
     (SocksUdpGwClient \<times> ug_action list) option" where
  "SocksUdpGwClient_SubmitPacket malloc alloc g local remote is_dns data =
     map_option (\<lambda>(c, acts). (g\<lparr>udpgw_client := c\<rparr>, acts))
       (UdpGwClient_SubmitPacket malloc alloc (udpgw_client g) local remote is_dns data)"

section \<open>Runs\<close>

fun socks_events :: "socks_call list \<Rightarrow> socks_event list" where
  "socks_events [] = []"
| "socks_events (Handler e # calls) = e # socks_events calls"
| "socks_events (_ # calls) = socks_events calls"

text \<open>A step the udpgw client takes by itself, between connecting a server and disconnecting it, with the messages
  written, the packets completed and the bytes the stream took.\<close>

inductive ug_step :: "UdpGwClient \<Rightarrow> UdpGwClient \<Rightarrow> (flow \<times> bytes) list \<Rightarrow> (flow \<times> bytes) list \<Rightarrow> bytes \<Rightarrow> bool" where
  step_first_job: "p \<in> set (connections_list c) \<Longrightarrow> first_job (connections c p) \<Longrightarrow> connection_first_job_handler c p = (c', acts) \<Longrightarrow>
    ug_step c c' (writes acts) [] []"
| step_timer: "im_timer (send_monitor c) \<noteq> None \<Longrightarrow>
    ug_step c (fst (send_monitor_handler k (c\<lparr>send_monitor := fst (monitor_timer_handler (send_monitor c))\<rparr>))) [] [] []"
| step_flow_job: "f \<in> set (flows_list (send_queue c)) \<Longrightarrow> sending_flow (send_queue c) \<noteq> Some f \<Longrightarrow>
    \<not> is_queued (flows (send_queue c) f) \<Longrightarrow> flow_packet c f = Some data \<Longrightarrow> ug_step c (flow_send_job c f data) [] [] []"
| step_schedule: "schedule_job (send_queue c) \<Longrightarrow> ug_step c (queue_schedule_job c) [] [] []"
| step_stream_some: "have_server c \<Longrightarrow> 0 < n \<Longrightarrow> in_used (send_sender c) + int n < in_len (send_sender c) \<Longrightarrow>
    ug_step c (stream_done c n) [] [] (take n (drop (nat (in_used (send_sender c))) (in_data (send_sender c))))"
| step_stream_all: "have_server c \<Longrightarrow> 0 < n \<Longrightarrow> in_used (send_sender c) + int n = in_len (send_sender c) \<Longrightarrow>
    sending_flow (send_queue c) = Some f \<Longrightarrow> con_in (send_connector c) = Some d \<Longrightarrow>
    ug_step c (stream_done c n) [] [(f, d)] (take n (drop (nat (in_used (send_sender c))) (in_data (send_sender c))))"

text \<open>A run records the calls of the SOCKS clients that are gone, those of the present one and the bytes it
  took, and what a run of the udpgw client records.  First the steps that its user has no part in.\<close>

type_synonym sg_log = "socks_call list \<times> socks_call list \<times> bytes \<times> (flow \<times> bytes) list \<times> (flow \<times> bytes) list \<times> (flow \<times> bytes) list \<times> bytes"

inductive sg_step :: "SocksUdpGwClient \<Rightarrow> sg_log \<Rightarrow> SocksUdpGwClient \<Rightarrow> sg_log \<Rightarrow> bool" where
  sg_reconnect: "reconnect_timer g \<Longrightarrow> reconnect_timer_handler connector_init (g\<lparr>reconnect_timer := False\<rparr>) = (g', calls') \<Longrightarrow>
    sg_step g (past, calls, xs, w, old, here, wire) g' (past, calls', [], w, old, here, wire)"
| sg_socks: "have_socks g \<Longrightarrow> socks_step (socks_client g) c calls' data \<Longrightarrow> socks_events calls' = [] \<Longrightarrow>
    sg_step g (past, calls, xs, w, old, here, wire) (g\<lparr>socks_client := c\<rparr>) (past, calls @ calls', xs @ data, w, old, here, wire)"
| sg_up: "have_socks g \<Longrightarrow> socks_step (socks_client g) c calls' data \<Longrightarrow> socks_events calls' = [e] \<Longrightarrow>
    socks_client_handler malloc (g\<lparr>socks_client := c\<rparr>) e = (g', calls'') \<Longrightarrow> have_socks g' \<Longrightarrow>
    sg_step g (past, calls, xs, w, old, here, wire) g' (past, calls @ calls', xs @ data, w, old @ here, [], [])"
| sg_down: "have_socks g \<Longrightarrow> socks_step (socks_client g) c calls' data \<Longrightarrow> socks_events calls' = [e] \<Longrightarrow>
    socks_client_handler malloc (g\<lparr>socks_client := c\<rparr>) e = (g', calls'') \<Longrightarrow> \<not> have_socks g' \<Longrightarrow>
    sg_step g (past, calls, xs, w, old, here, wire) g' (past @ calls @ calls' @ calls'', [], [], w, old, here, wire)"
| sg_servererror: "have_server (udpgw_client g) \<Longrightarrow> decoder_handler_error (udpgw_client g) = (c, acts) \<Longrightarrow> UG_servererror \<in> set acts \<Longrightarrow>
    udpgw_handler_servererror (g\<lparr>udpgw_client := c\<rparr>) = (g', calls') \<Longrightarrow>
    sg_step g (past, calls, xs, w, old, here, wire) g' (past @ calls @ calls', [], [], w, old, here, wire)"
| sg_udpgw: "ug_step (udpgw_client g) c w' here' wire' \<Longrightarrow>
    sg_step g (past, calls, xs, w, old, here, wire) (g\<lparr>udpgw_client := c\<rparr>) (past, calls, xs, w @ w', old, here @ here', wire @ wire')"

text \<open>Then messages of the server, which the user is told of, and packets the user submits.\<close>

definition may_submit :: "UdpGwClient \<Rightarrow> nat option \<Rightarrow> (int \<Rightarrow> bytes option) \<Rightarrow> bool" where
  "may_submit c mem alloc =
     ((\<forall>p\<in>set (connections_list c). \<not> first_job (connections c p)) \<and> (\<forall>p. mem = Some p \<longrightarrow> p \<notin> insert 0 (set (connections_list c))) \<and>
      (\<forall>n a. alloc n = Some a \<longrightarrow> int (length a) = 4 * n))"

inductive sg_run :: "SocksUdpGwClient \<Rightarrow> socks_call list \<Rightarrow> SocksUdpGwClient \<Rightarrow> sg_log \<Rightarrow> bool" for g0 calls0 where
  sg_start: "sg_run g0 calls0 g0 ([], calls0, [], [], [], [], [])"
| sg_next: "sg_run g0 calls0 g l \<Longrightarrow> sg_step g l g' l' \<Longrightarrow> sg_run g0 calls0 g' l'"
| sg_message: "sg_run g0 calls0 g l \<Longrightarrow> have_server (udpgw_client g) \<Longrightarrow> length data \<le> udpgw_mtu (udpgw_client g) \<Longrightarrow>
    recv_interface_handler_send (udpgw_client g) data = (c, acts) \<Longrightarrow> sg_run g0 calls0 (g\<lparr>udpgw_client := c\<rparr>) l"
| sg_submit: "sg_run g0 calls0 g (past, calls, xs, w, old, here, wire) \<Longrightarrow> BAddr_ip local \<Longrightarrow> BAddr_ip remote \<Longrightarrow>
    length data \<le> udp_mtu (udpgw_client g) \<Longrightarrow> may_submit (udpgw_client g) mem alloc \<Longrightarrow>
    SocksUdpGwClient_SubmitPacket mem alloc g local remote is_dns data = Some (g', acts) \<Longrightarrow>
    sg_run g0 calls0 g' (past, calls, xs, w @ writes acts, old, here, wire)"

section \<open>The invariant\<close>

lemma socks_events_append [simp]: "socks_events (xs @ ys) = socks_events xs @ socks_events ys"
  by (induction xs rule: socks_events.induct) simp_all

lemma io_events [simp]: "socks_events init_control_io = []" "socks_events free_control_io = []" "socks_events init_up_io = []"
  "socks_events (report_error e) = [e]" "socks_events (do_receive c) = []"
  by (simp_all add: io_defs)

text \<open>A step calls the handler once at most; that the client is up is reported when it gets up, and only then
  does it go on.\<close>

definition step_reports :: "BSocksClient \<Rightarrow> BSocksClient \<Rightarrow> socks_call list \<Rightarrow> bool" where
  "step_reports c c' calls =
     (socks_events calls = [] \<and> sstate c \<noteq> STATE_UP \<and> sstate c' \<noteq> STATE_UP \<or>
      socks_events calls = [BSOCKSCLIENT_EVENT_UP] \<and> sstate c \<noteq> STATE_UP \<and> sstate c' = STATE_UP \<or>
      socks_events calls \<in> {[BSOCKSCLIENT_EVENT_ERROR], [BSOCKSCLIENT_EVENT_ERROR_CLOSED]})"

lemma alive_events: "alive calls \<longleftrightarrow> set (socks_events calls) \<subseteq> {BSOCKSCLIENT_EVENT_UP}"
proof (induction calls)
  case (Cons x calls)
  then show ?case
  proof (cases x)
    case (Handler e)
    then show ?thesis
      using Cons by (cases e) auto
  qed simp_all
qed simp

lemma connector_reports:
  "connector_handler r con c is_error = (c', calls) \<Longrightarrow> sstate c = STATE_CONNECTING \<Longrightarrow> step_reports c c' calls"
  by (auto simp: connector_handler_def step_reports_def Let_def split: if_splits option.splits)

lemma auth_finished_reports:
  "auth_finished r c = (c', calls) \<Longrightarrow> sstate c \<noteq> STATE_UP \<Longrightarrow> step_reports c c' calls"
  by (auto simp: auth_finished_def step_reports_def Let_def dest: reserve_owned split: option.splits BAddr.splits)

lemma hello_reports:
  "hello_received r c = (c', calls) \<Longrightarrow> sstate c \<noteq> STATE_UP \<Longrightarrow> step_reports c c' calls"
  unfolding hello_received_def
  by (auto simp: Let_def send_password_def step_reports_def dest: reserve_owned auth_finished_reports split: if_splits option.splits)

lemma expect_reply_reports:
  "expect_reply r c sz n st = (c', calls) \<Longrightarrow> sstate c \<noteq> STATE_UP \<Longrightarrow> st \<noteq> STATE_UP \<Longrightarrow> step_reports c c' calls"
  by (auto simp: expect_reply_def start_receive_def step_reports_def Let_def split: option.splits)

lemma sent_reports:
  "send_handler_done r c = (c', calls) \<Longrightarrow> SocksClient.sending (sstate c) \<Longrightarrow> step_reports c c' calls"
  by (auto simp: send_handler_done_def sending_def intro!: expect_reply_reports)

lemma recv_reports:
  assumes "socks_receive r c data = (c', calls)" "receiving (sstate c)"
  shows "step_reports c c' calls"
proof -
  define c1 where "c1 = c\<lparr>sbuffer := Some (put data (recv_dest c + recv_len c) (the_buffer c)), recv_len := recv_len c + length data\<rparr>"
  have st: "sstate c1 = sstate c" "step_reports c1 c' calls = step_reports c c' calls"
    by (simp_all add: c1_def step_reports_def)
  have "(c', calls) = (c1, do_receive c1) \<or> hello_received r c1 = (c', calls) \<or> reply_header_received c1 = (c', calls) \<or>
    auth_finished r c1 = (c', calls) \<or> (c', calls) = (c1, report_error BSOCKSCLIENT_EVENT_ERROR) \<or> reply_received c1 = (c', calls)"
    using assms by (auto simp: socks_receive_def recv_handler_done_def Let_def c1_def password_reply_received_def receiving_def split: if_splits)
  moreover have "sstate c1 \<noteq> STATE_UP"
    using assms(2) st(1) by (auto simp: receiving_def)
  ultimately have "step_reports c1 c' calls"
    using hello_reports [of r c1] auth_finished_reports [of r c1]
    by (auto simp: step_reports_def reply_header_received_def reply_received_def start_receive_def Let_def split: if_splits)
  then show ?thesis
    by (simp add: st)
qed

lemma socks_step_reports: "socks_step c c' calls data \<Longrightarrow> step_reports c c' calls"
proof (induction rule: socks_step.induct)
  case (step_event c closed calls)
  then show ?case
    by (auto simp: connection_handler_def step_reports_def split: if_splits)
qed (auto intro: connector_reports sent_reports recv_reports)

lemma socks_step_run:
  assumes "socks_step c c' calls' data" "socks_run True ai dest c calls xs" "alive calls"
  shows "socks_run True ai dest c' (calls @ calls') (xs @ data)"
  using assms
  by cases (auto intro: run_connect run_sent run_recv run_event)

lemma ug_step_run:
  assumes "ug_step c c' w' here' wire'" "ug_run c0 c w old here wire"
  shows "ug_run c0 c' (w @ w') old (here @ here') (wire @ wire')"
  using assms by cases (auto intro: ug_first_job ug_timer ug_flow_job ug_schedule ug_stream_some ug_stream_all)

text \<open>What the steps of the udpgw client leave alone.\<close>

definition kept :: "UdpGwClient \<Rightarrow> UdpGwClient \<Rightarrow> bool" where
  "kept c c' = (have_server c' = have_server c \<and> udp_mtu c' = udp_mtu c \<and> connections_list c' = connections_list c \<and>
     (\<forall>p. conaddr_of c' p = conaddr_of c p))"

lemma kept_refl: "kept c c" and kept_trans: "kept c c1 \<Longrightarrow> kept c1 c2 \<Longrightarrow> kept c c2"
  by (simp_all add: kept_def)

lemma set_connection_kept: "(\<And>k. conaddr (f k) = conaddr k) \<Longrightarrow> kept c (set_connection p f c)"
  by (simp add: kept_def set_connection_def)

lemma queue_call_kept: "kept c (queue_call a c)"
proof (cases a)
  case (FQ_send data)
  then show ?thesis
    by (simp add: kept_def Let_def split: prod.split)
next
  case (FQ_done f)
  then show ?thesis
    using set_connection_kept [of "\<lambda>k. k\<lparr>send_ppflow := PacketProtoFlow_sent (send_ppflow k)\<rparr>" c f]
    by (simp add: keepalive_if_handler_done_def) (simp add: kept_def)
qed (simp_all add: kept_refl)

lemma queue_calls_kept: "kept c (queue_calls c x)"
proof (cases x)
  case (Pair m calls)
  have "kept c (fold queue_call calls c)" for c
    by (induction calls arbitrary: c) (auto intro: kept_refl kept_trans queue_call_kept)
  from this [of "c\<lparr>send_queue := m\<rparr>"] show ?thesis
    by (simp add: Pair queue_calls_def kept_def)
qed

lemma stream_done_kept: "kept c (stream_done c n)"
proof -
  have "kept c (queue_calls c' x)" if "kept c c'" for c c' x
    using kept_trans [OF that queue_calls_kept] .
  then show ?thesis
    by (simp add: stream_done_def Let_def kept_def split: prod.split pss_action.split)
qed

lemma connection_send_kept: "kept c (fst (connection_send c p flags data))"
  by (auto simp: connection_send_def Let_def kept_refl intro!: set_connection_kept split: option.split)

lemma ug_step_kept: "ug_step c c' w' here' wire' \<Longrightarrow> kept c c'"
proof (induction rule: ug_step.induct)
  case (step_first_job p c c' acts)
  then show ?case
    using kept_trans [OF set_connection_kept [of "\<lambda>k. k\<lparr>first_job := False\<rparr>" c p] connection_send_kept]
    by (metis UdpGwClient_connection.select_convs(1) UdpGwClient_connection.surjective UdpGwClient_connection.update_convs(5)
      connection_first_job_handler_def fst_conv)
next
  case (step_timer c k)
  then show ?case
    by (simp add: send_monitor_handler_def kept_def)
qed (simp_all add: flow_send_job_def queue_schedule_job_def queue_calls_kept stream_done_kept)

lemma message_kept:
  assumes "recv_interface_handler_send c data = (c', acts)" "ug_table c"
  shows "c' = c\<lparr>connections_list := connections_list c'\<rparr> \<and> set (connections_list c') = set (connections_list c)"
proof -
  have "set (remove1 p (connections_list c) @ [p]) = set (connections_list c)" if "find_connection_by_conid c i = Some p" for p i
    using ug_table_find(1) [OF assms(2)] that assms(2) by (auto simp: ug_table_def)
  with assms(1) show ?thesis
    by (auto simp: recv_interface_handler_send_def Let_def split: if_splits option.splits)
qed

text \<open>A submitted packet changes or adds the addresses of one connection at most.\<close>

definition readdressed :: "UdpGwClient_conaddr \<Rightarrow> UdpGwClient \<Rightarrow> UdpGwClient \<Rightarrow> bool" where
  "readdressed a c c' = (have_server c' = have_server c \<and> udp_mtu c' = udp_mtu c \<and>
     (\<forall>p\<in>set (connections_list c'). conaddr_of c' p = a \<or> p \<in> set (connections_list c) \<and> conaddr_of c' p = conaddr_of c p))"

lemma find_unused_conid_kept: "find_unused_conid c = Some x \<Longrightarrow> kept c (fst x)"
  by (rule find_unused_conid.raw_induct [of "\<lambda>c x. kept c (fst x)"]) (fastforce simp: kept_def split: if_splits)+

lemma connection_init_readdressed:
  assumes "connection_init malloc alloc c a flags data = Some c'"
  shows "readdressed a c c'"
proof (cases malloc)
  case None
  then show ?thesis
    using assms by (simp add: connection_init_def readdressed_def)
next
  case (Some p)
  let ?c = "set_connection p (\<lambda>k. k\<lparr>conaddr := a, first_flags := flags, first_data := data\<rparr>) c"
  obtain c1 i where c1: "find_unused_conid ?c = Some (c1, i)"
    using assms Some by (auto simp: connection_init_def Let_def split: option.splits)
  then have kept: "kept ?c c1"
    using find_unused_conid_kept by fastforce
  then have "conaddr_of c1 q = (if q = p then a else conaddr_of c q)" for q
    by (simp add: kept_def set_connection_def)
  then show ?thesis
    using assms Some c1 kept
    by (auto simp: connection_init_def Let_def conaddr_Insert_def conid_Insert_def kept_def readdressed_def set_connection_def split: option.splits)
qed

lemma submit_readdressed:
  assumes "UdpGwClient_SubmitPacket malloc alloc c local remote is_dns data = Some (c', acts)" "ug_table c" "BAddr_ip local" "BAddr_ip remote"
  shows "readdressed \<lparr>local_addr = local, remote_addr = remote\<rparr> c c'"
proof -
  let ?a = "\<lparr>local_addr = local, remote_addr = remote\<rparr>"
  have last: "readdressed ?a c c'"
    if "(case con of None \<Rightarrow> map_option (\<lambda>c. (c, [])) (connection_init malloc alloc c1 ?a flags data)
        | Some con \<Rightarrow> Some (connection_send (c1\<lparr>connections_list := remove1 con (connections_list c1) @ [con]\<rparr>) con flags data)) = Some (c', acts)"
      "readdressed ?a c c1" "con = None \<Longrightarrow> c1 = c" "\<And>p. con = Some p \<Longrightarrow> p \<in> set (connections_list c1)"
    for c1 con flags
  proof (cases con)
    case None
    then show ?thesis
      using that(1,3) connection_init_readdressed by auto
  next
    case (Some p)
    then show ?thesis
      using that(1,2) that(4) [of p] connection_send_kept [of "c1\<lparr>connections_list := remove1 p (connections_list c1) @ [p]\<rparr>" p flags data]
      by (auto simp: kept_def readdressed_def dest: set_mp [OF set_remove1_subset])
  qed
  have known: "p \<in> set (connections_list c)" if "find_connection_by_conaddr c ?a = Some p" for p
    using ug_table_find(3) [OF assms(2), of ?a p] that assms(3,4) by (simp add: valid_conaddr_def)
  obtain c2 con2 where reuse: "reuse_connection c ?a = (c2, con2)"
    by force
  then have c2: "readdressed ?a c c2" "con2 = None \<Longrightarrow> c2 = c" "\<And>p. con2 = Some p \<Longrightarrow> p \<in> set (connections_list c2)"
    by (auto simp: reuse_connection_def Let_def conaddr_Insert_def readdressed_def set_connection_def split: list.splits if_splits)
  show ?thesis
  proof (cases "find_connection_by_conaddr c ?a = None \<and> num_connections c = max_connections c")
    case True
    then show ?thesis
      using assms(1) last [OF _ c2] unfolding UdpGwClient_SubmitPacket_def Let_def reuse by simp
  next
    case False
    then show ?thesis
      using assms(1) known last [of c _ "find_connection_by_conaddr c ?a"] unfolding UdpGwClient_SubmitPacket_def Let_def
      by (auto simp: readdressed_def split: if_splits)
  qed
qed

definition sg_inv :: "BSocksClient_auth_info list \<Rightarrow> BAddr \<Rightarrow> SocksUdpGwClient \<Rightarrow> socks_call list \<Rightarrow> socks_call list \<Rightarrow> bytes \<Rightarrow> bool" where
  "sg_inv ai remote g past calls xs =
     (sg_auth_info g = ai \<and> remote_udpgw_addr g = remote \<and> have_socks g \<noteq> reconnect_timer g \<and>
      have_server (udpgw_client g) = (have_socks g \<and> socks_up g) \<and> res_run past {} = Some {} \<and>
      (if have_socks g then socks_run True ai remote (socks_client g) calls xs \<and> alive calls \<and>
         socks_up g = (sstate (socks_client g) = STATE_UP)
       else calls = [] \<and> xs = []))"

lemma try_connect_inv:
  assumes "try_connect connector_init g = (g', calls)" "sg_auth_info g = ai" "remote_udpgw_addr g = remote"
    "\<not> have_server (udpgw_client g)" "\<not> have_socks g" "\<not> reconnect_timer g" "res_run past {} = Some {}"
  shows "sg_inv ai remote g' past calls []" "udpgw_client g' = udpgw_client g"
  using assms run_init [of ai remote _ _ True]
  by (auto simp: try_connect_def sg_inv_def BSocksClient_Init_def split: if_splits)

lemma free_socks_inv:
  assumes "free_socks g = (g', calls')" "sg_auth_info g = ai" "remote_udpgw_addr g = remote" "have_socks g" "\<not> reconnect_timer g"
    "have_server (udpgw_client g) = socks_up g" "res_run past {} = Some {}" "socks_run True ai remote (socks_client g) calls xs"
  shows "sg_inv ai remote (g'\<lparr>reconnect_timer := True\<rparr>) (past @ calls @ calls') [] []"
    "udpgw_client g' = (if have_server (udpgw_client g) then UdpGwClient_DisconnectServer (udpgw_client g) else udpgw_client g)"
    "res_run (past @ calls @ calls') {} = Some {}" "\<not> reconnect_timer g'" "\<not> have_server (udpgw_client g')"
proof -
  have "res_run calls {} = Some (owned (socks_client g))" "res_run (BSocksClient_Free (socks_client g)) (owned (socks_client g)) = Some {}"
    using socks_run_owned [OF assms(8)] free_owned by auto
  then show "res_run (past @ calls @ calls') {} = Some {}"
    using assms(1,7) by (auto simp: free_socks_def res_run_append Let_def)
  then show "sg_inv ai remote (g'\<lparr>reconnect_timer := True\<rparr>) (past @ calls @ calls') [] []"
    using assms(1-6) by (auto simp: free_socks_def sg_inv_def Let_def UdpGwClient_DisconnectServer_def)
  show "udpgw_client g' = (if have_server (udpgw_client g) then UdpGwClient_DisconnectServer (udpgw_client g) else udpgw_client g)"
    "\<not> reconnect_timer g'" "\<not> have_server (udpgw_client g')"
    using assms(1,5,6) by (auto simp: free_socks_def Let_def UdpGwClient_DisconnectServer_def)
qed

lemma event_inv:
  assumes inv: "sg_inv ai remote g past calls xs" and socks: "have_socks g" "socks_step (socks_client g) c calls' data" "socks_events calls' = [e]"
    and handler: "socks_client_handler malloc (g\<lparr>socks_client := c\<rparr>) e = (g', calls'')"
    and run: "ug_run c0 (udpgw_client g) w old here wire"
  shows "if have_socks g' then sg_inv ai remote g' past (calls @ calls') (xs @ data) \<and> ug_run c0 (udpgw_client g') w (old @ here) [] []
    else sg_inv ai remote g' (past @ calls @ calls' @ calls'') [] [] \<and> ug_run c0 (udpgw_client g') w old here wire"
proof -
  let ?g = "g\<lparr>socks_client := c\<rparr>"
  note inv = inv [unfolded sg_inv_def]
  have step: "socks_run True ai remote c (calls @ calls') (xs @ data)"
    using socks_step_run [OF socks(2)] inv socks(1) by simp
  have reports: "step_reports (socks_client g) c calls'"
    by (rule socks_step_reports [OF socks(2)])
  have down: "sg_inv ai remote g' (past @ calls @ calls' @ calls'') [] [] \<and> \<not> have_socks g' \<and> ug_run c0 (udpgw_client g') w old here wire"
    if fs: "free_socks h = (h', calls'')" "g' = h'\<lparr>reconnect_timer := True\<rparr>" "h = ?g" for h h'
  proof -
    note free = free_socks_inv [OF fs(1), of ai remote past "calls @ calls'" "xs @ data"]
    have "sg_inv ai remote g' (past @ calls @ calls' @ calls'') [] []"
      using free(1) inv socks(1) step fs(2,3) by simp
    moreover have "ug_run c0 (udpgw_client g') w old here wire"
      using free(2) inv socks(1) step fs(2,3) run ug_disconnect [OF run] by simp
    moreover have "\<not> have_socks g'"
      using fs by (auto simp: free_socks_def Let_def)
    ultimately show ?thesis
      by blast
  qed
  show ?thesis
  proof (cases "e = BSOCKSCLIENT_EVENT_UP")
    case True
    then have up: "sstate (socks_client g) \<noteq> STATE_UP" "sstate c = STATE_UP" "alive calls'"
      using reports socks(3) by (auto simp: step_reports_def alive_events)
    obtain c1 ok where con: "UdpGwClient_ConnectServer malloc (udpgw_client g) = (c1, ok)"
      by force
    show ?thesis
    proof (cases ok)
      case True
      then have "g' = ?g\<lparr>udpgw_client := c1, socks_up := True\<rparr>" "have_server c1"
        using handler con \<open>e = BSOCKSCLIENT_EVENT_UP\<close>
        by (auto simp: socks_client_handler_def UdpGwClient_ConnectServer_def Let_def split: option.splits prod.splits)
      then show ?thesis
        using inv socks(1) step up ug_connect [OF run, of malloc c1] con True by (simp add: sg_inv_def)
    next
      case False
      then have "c1 = udpgw_client g"
        using con by (auto simp: UdpGwClient_ConnectServer_def Let_def split: option.splits prod.splits)
      then show ?thesis
        using down handler con False \<open>e = BSOCKSCLIENT_EVENT_UP\<close> by (auto simp: socks_client_handler_def split: prod.splits)
    qed
  next
    case False
    then show ?thesis
      using down handler by (auto simp: socks_client_handler_def split: socks_event.splits prod.splits)
  qed
qed

lemma sg_step_inv:
  assumes "sg_step g l g' l'" "l = (past, calls, xs, w, old, here, wire)" "l' = (past', calls', xs', w', old', here', wire')"
    and inv: "sg_inv ai remote g past calls xs" and run: "ug_run c0 (udpgw_client g) w old here wire"
  shows "sg_inv ai remote g' past' calls' xs' \<and> ug_run c0 (udpgw_client g') w' old' here' wire'"
  using assms(1-3)
proof cases
  case (sg_reconnect connector_init calls1 past1 calls2 xs1 w1 old1 here1 wire1)
  have "\<not> have_socks g" "\<not> have_server (udpgw_client g)" "sg_auth_info g = ai" "remote_udpgw_addr g = remote" "res_run past {} = Some {}"
    using inv sg_reconnect by (auto simp: sg_inv_def)
  then show ?thesis
    using try_connect_inv [of connector_init "g\<lparr>reconnect_timer := False\<rparr>" g' calls' ai remote past] sg_reconnect assms(2,3) run
    by (simp add: reconnect_timer_handler_def)
next
  case (sg_socks c calls1 data)
  then show ?thesis
    using socks_step_run [of "socks_client g" c calls1 data] socks_step_reports [of "socks_client g" c calls1 data] assms(2,3) inv run
    by (auto simp: sg_inv_def step_reports_def alive_events)
next
  case (sg_up c calls1 data e malloc calls2)
  then show ?thesis
    using event_inv [OF inv _ _ _ _ run, of c calls1 data e malloc g' calls2] assms(2,3) by simp
next
  case (sg_down c calls1 data e malloc calls2)
  then show ?thesis
    using event_inv [OF inv _ _ _ _ run, of c calls1 data e malloc g' calls2] assms(2,3) by simp
next
  case (sg_servererror c acts calls1)
  obtain h where h: "free_socks g = (h, calls1)" "g' = h\<lparr>reconnect_timer := True\<rparr>"
    using sg_servererror by (auto simp: decoder_handler_error_def udpgw_handler_servererror_def split: prod.splits)
  have "have_socks g" "\<not> reconnect_timer g" "have_server (udpgw_client g) = socks_up g" "sg_auth_info g = ai" "remote_udpgw_addr g = remote"
    "res_run past {} = Some {}" "socks_run True ai remote (socks_client g) calls xs"
    using inv sg_servererror by (auto simp: sg_inv_def)
  note free = free_socks_inv [OF h(1) this(4,5,1,2,3,6,7)]
  show ?thesis
    using free(1,2) ug_disconnect [OF run] sg_servererror assms(2,3) h(2) by simp
next
  case (sg_udpgw c w1 here1 wire1)
  then show ?thesis
    using ug_step_run [OF _ run] ug_step_kept assms(2,3) inv by (fastforce simp: sg_inv_def kept_def)
qed

lemma sg_run_inv:
  assumes "sg_run g0 calls0 g (past, calls, xs, w, old, here, wire)" "sg_inv ai remote g0 [] calls0 []" "ug_inv (udpgw_client g0) [] [] [] []"
  shows "sg_inv ai remote g past calls xs" "ug_run (udpgw_client g0) (udpgw_client g) w old here wire"
proof -
  have "case l of (past, calls, xs, w, old, here, wire) \<Rightarrow> sg_inv ai remote g past calls xs \<and> ug_run (udpgw_client g0) (udpgw_client g) w old here wire"
    if "sg_run g0 calls0 g l" for g l
    using that
  proof induction
    case sg_start
    then show ?case
      using assms(2) by (simp add: ug_start)
  next
    case (sg_next g l g' l')
    obtain past calls xs w old here wire where l: "l = (past, calls, xs, w, old, here, wire)"
      by (cases l) auto
    obtain past' calls' xs' w' old' here' wire' where l': "l' = (past', calls', xs', w', old', here', wire')"
      by (cases l') auto
    show ?case
      using sg_step_inv [OF sg_next.hyps(2) l l', of ai remote "udpgw_client g0"] sg_next.IH l l' by simp
  next
    case (sg_message g l data c acts)
    obtain past calls xs w old here wire where l: "l = (past, calls, xs, w, old, here, wire)"
      by (cases l) auto
    with sg_message.IH have inv: "sg_inv ai remote g past calls xs" and run: "ug_run (udpgw_client g0) (udpgw_client g) w old here wire"
      by auto
    have "c = (udpgw_client g)\<lparr>connections_list := connections_list c\<rparr>"
      using message_kept [OF sg_message.hyps(4)] ug_inv_parts(3) [OF ug_run_inv [OF run assms(3)]] by blast
    then have "have_server c = have_server (udpgw_client g)"
      by (metis UdpGwClient.select_convs(17) UdpGwClient.surjective UdpGwClient.update_convs(9))
    then show ?case
      using ug_message [OF run sg_message.hyps(2,3)] sg_message.hyps(4) inv l by (simp add: sg_inv_def)
  next
    case (sg_submit g past calls xs w old here wire local remote' data mem alloc is_dns g' acts)
    then have inv: "sg_inv ai remote g past calls xs" and run: "ug_run (udpgw_client g0) (udpgw_client g) w old here wire"
      by auto
    obtain c where c: "UdpGwClient_SubmitPacket mem alloc (udpgw_client g) local remote' is_dns data = Some (c, acts)" "g' = g\<lparr>udpgw_client := c\<rparr>"
      using sg_submit.hyps by (auto simp: SocksUdpGwClient_SubmitPacket_def)
    have "have_server c = have_server (udpgw_client g)"
      using submit_readdressed [OF c(1) ug_inv_parts(3) [OF ug_run_inv [OF run assms(3)]]] sg_submit.hyps by (simp add: readdressed_def)
    then show ?case
      using ug_submit [OF run _ _ _ _ _ _ c(1)] inv sg_submit.hyps(2-5) c(2) by (simp add: sg_inv_def may_submit_def)
  qed
  from this [OF assms(1)] show "sg_inv ai remote g past calls xs" "ug_run (udpgw_client g0) (udpgw_client g) w old here wire"
    by auto
qed

lemma init_sg_inv:
  assumes "SocksUdpGwClient_Init connector_init mem mtu max_con buffer_size keepalive_time memory flow_memory server ai remote = Some (g0, calls0)"
  shows "sg_inv ai remote g0 [] calls0 []" "UdpGwClient_Init mtu max_con buffer_size keepalive_time memory flow_memory = Some (udpgw_client g0)"
proof -
  obtain c where c: "UdpGwClient_Init mtu max_con buffer_size keepalive_time memory flow_memory = Some c"
    and attempt: "try_connect connector_init (mem\<lparr>sg_udp_mtu := mtu, socks_server_addr := server, sg_auth_info := ai, remote_udpgw_addr := remote,
      udpgw_client := c, reconnect_timer := False, have_socks := False\<rparr>) = (g0, calls0)"
    using assms by (auto simp: SocksUdpGwClient_Init_def Let_def split: option.splits)
  have "\<not> have_server c"
    using c by (auto simp: UdpGwClient_Init_def Let_def split: option.splits)
  then show "sg_inv ai remote g0 [] calls0 []" "UdpGwClient_Init mtu max_con buffer_size keepalive_time memory flow_memory = Some (udpgw_client g0)"
    using try_connect_inv [OF attempt, of ai remote "[]"] c by simp_all
qed

text \<open>C17. At every moment either a SOCKS client exists or the timer runs that makes the next one, and the udpgw client has
  a server exactly while the SOCKS client is up. Everything the SOCKS clients took has been given back,
  but for what the present one holds, and freeing the whole gives that back and stops the timer.\<close>

theorem SocksUdpGw_invariant:
  assumes "SocksUdpGwClient_Init connector_init mem mtu max_con buffer_size keepalive_time memory flow_memory server ai remote = Some (g0, calls0)"
    "ug_args mtu max_con buffer_size" "sg_run g0 calls0 g (past, calls, xs, w, old, here, wire)" "SocksUdpGwClient_Free g = (g', calls')"
  shows "have_socks g \<noteq> reconnect_timer g \<and> have_server (udpgw_client g) = (have_socks g \<and> sstate (socks_client g) = STATE_UP) \<and>
    res_run (past @ calls) {} = Some (if have_socks g then owned (socks_client g) else {}) \<and>
    res_run (past @ calls @ calls') {} = Some {} \<and> \<not> have_socks g' \<and> \<not> reconnect_timer g'"
proof -
  have inv: "sg_inv ai remote g past calls xs"
    using sg_run_inv(1) [OF assms(3) init_sg_inv(1) [OF assms(1)] init_ug_inv [OF init_sg_inv(2) [OF assms(1)] assms(2)]] .
  then have now: "res_run (past @ calls) {} = Some (if have_socks g then owned (socks_client g) else {})"
    using socks_run_owned by (auto simp: sg_inv_def res_run_append)
  have "res_run (past @ calls @ calls') {} = Some {} \<and> \<not> have_socks g' \<and> \<not> reconnect_timer g'"
  proof (cases "have_socks g")
    case True
    then obtain h where h: "free_socks g = (h, calls')" "g' = h\<lparr>reconnect_timer := False, udpgw_client := UdpGwClient_Free (udpgw_client h)\<rparr>"
      using assms(4) by (auto simp: SocksUdpGwClient_Free_def Let_def split: prod.splits)
    moreover have "\<not> have_socks h"
      using h(1) by (auto simp: free_socks_def Let_def)
    ultimately show ?thesis
      using free_socks_inv(3) [OF h(1), of ai remote past calls xs] inv True by (simp add: sg_inv_def)
  next
    case False
    then show ?thesis
      using now assms(4) by (auto simp: SocksUdpGwClient_Free_def)
  qed
  with now inv show ?thesis
    by (auto simp: sg_inv_def)
qed

lemma sg_socks_step:
  assumes "sg_run g0 calls0 (g\<lparr>socks_client := c\<rparr>) (past, calls, xs, w, old, here, wire)" "have_socks g" "socks_step c c1 calls' data" "alive calls'"
    "UdpGwClient_ConnectServer malloc (udpgw_client g) = (c', True)"
  shows "if sstate c1 = STATE_UP
    then sg_run g0 calls0 (g\<lparr>socks_client := c1, udpgw_client := c', socks_up := True\<rparr>) (past, calls @ calls', xs @ data, w, old @ here, [], [])
    else sg_run g0 calls0 (g\<lparr>socks_client := c1\<rparr>) (past, calls @ calls', xs @ data, w, old, here, wire)"
proof -
  have "step_reports c c1 calls'"
    by (rule socks_step_reports [OF assms(3)])
  with assms(4) consider "socks_events calls' = []" "sstate c1 \<noteq> STATE_UP" | "socks_events calls' = [BSOCKSCLIENT_EVENT_UP]" "sstate c1 = STATE_UP"
    by (auto simp: step_reports_def alive_events)
  then show ?thesis
  proof cases
    case 1
    then show ?thesis
      using sg_next [OF assms(1) sg_socks [OF _ _ 1(1), of _ c1 data]] assms(2,3) by simp
  next
    case 2
    then show ?thesis
      using sg_next [OF assms(1) sg_up [OF _ _ 2(1), of _ c1 data malloc]] assms(2,3,5) by (simp add: socks_client_handler_def)
  qed
qed

text \<open>A SOCKS exchange without faults takes place in the same way below the udpgw client.\<close>

lemma socks_run_lift:
  assumes "socks_run False ai remote c calls' xs'" "alive calls'"
    "sg_run g0 calls0 g (past, calls, [], w, old, here, wire)" "have_socks g" "BSocksClient_Init True ai remote = Some (socks_client g, calls)"
    "UdpGwClient_ConnectServer malloc (udpgw_client g) = (c', True)"
  shows "if sstate c = STATE_UP
    then sg_run g0 calls0 (g\<lparr>socks_client := c, udpgw_client := c', socks_up := True\<rparr>) (past, calls', xs', w, old @ here, [], [])
    else sg_run g0 calls0 (g\<lparr>socks_client := c\<rparr>) (past, calls', xs', w, old, here, wire)"
  using assms(1,2)
proof (induction rule: socks_run.induct)
  case (run_init c calls')
  then have "sstate c = STATE_CONNECTING"
    by (auto simp: BSocksClient_Init_def)
  then show ?case
    using assms(3,5) run_init(1) by auto
next
  case (run_connect c calls' xs r con is_error c1 calls'')
  then have "socks_step c c1 calls'' []"
    by (intro step_connect) (auto simp: realloc_ok_def)
  with run_connect show ?case
    using sg_socks_step [OF _ assms(4) _ _ assms(6), of g0 calls0 c past calls' xs w old here wire c1 calls'' "[]"]
    by (auto split: if_splits)
next
  case (run_sent c calls' xs r c1 calls'')
  then have "socks_step c c1 calls'' []"
    by (intro step_sent) (auto simp: realloc_ok_def)
  with run_sent show ?case
    using sg_socks_step [OF _ assms(4) _ _ assms(6), of g0 calls0 c past calls' xs w old here wire c1 calls'' "[]"]
    by (auto simp: sending_def)
next
  case (run_recv c calls' xs r data c1 calls'')
  then have "socks_step c c1 calls'' data"
    by (intro step_recv) (auto simp: realloc_ok_def)
  with run_recv show ?case
    using sg_socks_step [OF _ assms(4) _ _ assms(6), of g0 calls0 c past calls' xs w old here wire c1 calls'' data]
    by (auto simp: receiving_def)
qed simp

lemma connect_server: "\<exists>c'. UdpGwClient_ConnectServer (\<lambda>n. Some (replicate n 0)) c = (c', True) \<and> have_server c'"
  by (simp add: UdpGwClient_ConnectServer_def PacketProtoDecoder_Init_def Let_def split: prod.split)

lemma handler_outcome:
  assumes "socks_client_handler malloc (g\<lparr>socks_client := c\<rparr>) e = (g', calls)" "have_socks g" "\<not> socks_up g" "\<not> reconnect_timer g"
    "\<not> have_server (udpgw_client g)"
  shows "have_server (udpgw_client g') =
      (e = BSOCKSCLIENT_EVENT_UP \<and> malloc (PACKETPROTO_ENCLEN (min (udpgw_mtu (udpgw_client g)) PACKETPROTO_MAXPAYLOAD)) \<noteq> None)"
    "have_socks g' = have_server (udpgw_client g')" "reconnect_timer g' = (\<not> have_server (udpgw_client g'))"
  using assms by (auto simp: socks_client_handler_def free_socks_def UdpGwClient_ConnectServer_def PacketProtoDecoder_Init_def Let_def
    split: socks_event.splits option.splits prod.splits)

text \<open>C18. While the udpgw client has no server, the next one is on its way, whatever was done before and whatever fails. Either the
  timer runs; when it expires, a new SOCKS client starts to connect or, if the connector cannot be set up, the timer
  runs again. Or a SOCKS client waits for the connection, for a message to be sent or for bytes of the server, with at most
  47 steps to go: each of them lowers the number, or makes the client call the handler. The handler
  gives the udpgw client its server exactly if the SOCKS client is up and there is memory for the decoder, and otherwise
  the SOCKS client is gone and the timer runs.\<close>

theorem SocksUdpGw_recovers:
  assumes "SocksUdpGwClient_Init connector_init mem mtu max_con buffer_size keepalive_time memory flow_memory server ai remote = Some (g0, calls0)"
    "ug_args mtu max_con buffer_size" "sg_run g0 calls0 g (past, calls, xs, w, old, here, wire)" "wf_args ai remote"
    "\<not> have_server (udpgw_client g)"
  shows "if reconnect_timer g
    then \<forall>ok g' calls'. reconnect_timer_handler ok (g\<lparr>reconnect_timer := False\<rparr>) = (g', calls') \<longrightarrow>
      have_socks g' = ok \<and> reconnect_timer g' = (\<not> ok) \<and> (ok \<longrightarrow> calls' = [Connector_init] \<and> socks_left (socks_client g') = 47)
    else have_socks g \<and> socks_left (socks_client g) \<le> 47 \<and>
      (last calls = Connector_init \<or> (\<exists>message. last calls = Send message \<and> message \<noteq> []) \<or> (\<exists>off n. last calls = Recv off n \<and> 0 < n)) \<and>
      (\<forall>c calls' data. socks_step (socks_client g) c calls' data \<longrightarrow>
         socks_events calls' = [] \<and> socks_left c < socks_left (socks_client g) \<or>
         (\<exists>e. socks_events calls' = [e] \<and> (\<forall>malloc g' calls''. socks_client_handler malloc (g\<lparr>socks_client := c\<rparr>) e = (g', calls'') \<longrightarrow>
            have_server (udpgw_client g') =
              (e = BSOCKSCLIENT_EVENT_UP \<and> malloc (PACKETPROTO_ENCLEN (min (udpgw_mtu (udpgw_client g)) PACKETPROTO_MAXPAYLOAD)) \<noteq> None) \<and>
            have_socks g' = have_server (udpgw_client g') \<and> reconnect_timer g' = (\<not> have_server (udpgw_client g')))))"
proof -
  have inv: "sg_inv ai remote g past calls xs"
    using sg_run_inv(1) [OF assms(3) init_sg_inv(1) [OF assms(1)] init_ug_inv [OF init_sg_inv(2) [OF assms(1)] assms(2)]] .
  show ?thesis
  proof (cases "reconnect_timer g")
    case True
    then show ?thesis
      using inv by (auto simp: sg_inv_def reconnect_timer_handler_def try_connect_def BSocksClient_Init_def socks_left_def)
  next
    case False
    then have g: "have_socks g" "\<not> socks_up g" "socks_run True ai remote (socks_client g) calls xs" "alive calls" "sstate (socks_client g) \<noteq> STATE_UP"
      using inv assms(5) by (auto simp: sg_inv_def)
    note live = live_client [OF g(3) assms(4) g(4)]
    have "socks_events calls' = [] \<and> socks_left c < socks_left (socks_client g) \<or> (\<exists>e. socks_events calls' = [e])"
      if "socks_step (socks_client g) c calls' data" for c calls' data
      using socks_step_reports [OF that] live(2) [OF that] by (auto simp: step_reports_def alive_events)
    with False g(1,2) assms(5) live(1) live(3) [OF g(5)] show ?thesis
      using handler_outcome [where g = g] by simp
  qed
qed

section \<open>Witnesses\<close>

text \<open>A client whose first connection can be set up, and one whose first connection cannot.\<close>

definition sample_sg :: "bool \<Rightarrow> SocksUdpGwClient" where
  "sample_sg ok = fst (the (SocksUdpGwClient_Init ok undefined 4 1 1 1000 undefined (\<lambda>_. sample_qflow) BAddr_None sample_auth (BAddr_IPv4 0 0)))"

lemma sample_sg_init:
  "SocksUdpGwClient_Init ok undefined 4 1 1 1000 undefined (\<lambda>_. sample_qflow) BAddr_None sample_auth (BAddr_IPv4 0 0) =
     Some (sample_sg ok, if ok then [Connector_init] else [])"
  by (cases ok) (simp_all add: sample_sg_def SocksUdpGwClient_Init_def sample_ug_init try_connect_def BSocksClient_Init_def Let_def del: One_nat_def)

lemma sample_sg_fields [simp]:
  "have_socks (sample_sg ok) = ok" "reconnect_timer (sample_sg ok) = (\<not> ok)" "udpgw_client (sample_sg ok) = sample_ug"
  "sstate (socks_client (sample_sg True)) = STATE_CONNECTING" "sbuffer (socks_client (sample_sg True)) = None" "socks_up (sample_sg True) = False"
  by (cases ok; simp add: sample_sg_def SocksUdpGwClient_Init_def sample_ug_init try_connect_def BSocksClient_Init_def Let_def del: One_nat_def)+

theorem SocksUdpGw_invariant_witness:
  "have_socks (sample_sg True) \<noteq> reconnect_timer (sample_sg True) \<and> snd (SocksUdpGwClient_Free (sample_sg True)) = [Connector_free] \<and>
   res_run [Connector_init, Connector_free] {} = Some {}"
proof -
  have free: "snd (SocksUdpGwClient_Free (sample_sg True)) = [Connector_free]"
    by (simp add: SocksUdpGwClient_Free_def free_socks_def BSocksClient_Free_def Let_def)
  then obtain g' where "SocksUdpGwClient_Free (sample_sg True) = (g', [Connector_free])"
    by (cases "SocksUdpGwClient_Free (sample_sg True)") simp
  from SocksUdpGw_invariant [OF sample_sg_init sample_ug_args sg_start this] free show ?thesis
    by simp
qed

theorem SocksUdpGw_recovers_witness:
  "reconnect_timer (sample_sg False) \<and> have_socks (fst (reconnect_timer_handler True ((sample_sg False)\<lparr>reconnect_timer := False\<rparr>))) \<and>
   have_socks (sample_sg True) \<and> socks_left (socks_client (sample_sg True)) \<le> 47 \<and>
   socks_step (socks_client (sample_sg True)) (socks_client (sample_sg True)) [Handler BSOCKSCLIENT_EVENT_ERROR] [] \<and>
   reconnect_timer (fst (socks_client_handler (\<lambda>_. None) (sample_sg True) BSOCKSCLIENT_EVENT_ERROR))"
proof -
  have no_server: "\<not> have_server (udpgw_client (sample_sg ok))" for ok
    using init_sg_inv(1) [OF sample_sg_init [of ok]] by (simp add: sg_inv_def split: if_splits)
  have step: "socks_step (socks_client (sample_sg True)) (socks_client (sample_sg True)) [Handler BSOCKSCLIENT_EVENT_ERROR] []"
    by (rule step_connect [where is_error = True and r = sample_realloc]) (simp_all add: realloc_ok_def connector_handler_def report_error_def)
  show ?thesis
    using SocksUdpGw_recovers [OF sample_sg_init sample_ug_args sg_start sample_wf(1) no_server, of False]
      SocksUdpGw_recovers [OF sample_sg_init sample_ug_args sg_start sample_wf(1) no_server, of True] step
    by (cases "reconnect_timer_handler True ((sample_sg False)\<lparr>reconnect_timer := False\<rparr>)";
        cases "socks_client_handler (\<lambda>_. None) (sample_sg True) BSOCKSCLIENT_EVENT_ERROR") fastforce
qed

end
