(* ===== verification/TunUdp.thy ===== *)
theory TunUdp
  imports NetProto SocksUdpGw
begin

text \<open>
  The way of UDP packets through \<open>tun2socks/tun2socks.c\<close>: a packet read from the tunnel device goes to the
  udpgw client or to the TCP/IP stack, a packet from the udpgw client is written to the device with
  new headers, and so are the packets of the stack.  Calls on the stack and the device are recorded; whether the
  stack has memory for a packet and takes it are arguments.
\<close>

section \<open>The module's state\<close>

text \<open>The options and global variables these functions read, and the buffer for outgoing packets.\<close>

record tun2socks =
  udpgw_remote_server_addr :: bool
  udpgw_transparent_dns :: bool
  netif_ip6addr :: bool
  netif_ipaddr :: u32
  tun_udp_mtu :: nat
  quitting :: bool
  device_mtu :: nat
  device_write_buf :: bytes
  tun_udpgw :: SocksUdpGwClient

datatype tun_action = Device_done | Pbuf_alloc bytes | Ip_input bytes | Ip6_input bytes | Pbuf_free | Tap_send bytes | Udpgw ug_action

section \<open>From the device\<close>

text \<open>The two cases of the switch over the IP version: the addresses, whether it is a DNS packet, and the
  payload.\<close>

definition device_udp4 :: "tun2socks \<Rightarrow> bytes \<Rightarrow> (BAddr \<times> BAddr \<times> bool \<times> bytes) option" where
  "device_udp4 t data =
     (if length data < sizeof_ipv4_header \<or> data ! 9 \<noteq> IPV4_PROTOCOL_UDP then None
      else case ipv4_check data of
        None \<Rightarrow> None
      | Some (iph, data) \<Rightarrow>
          (case udp_check data of
             None \<Rightarrow> None
           | Some (udph, data) \<Rightarrow>
               (let checksum_in_packet = uh_checksum udph;
                    udph = udph\<lparr>uh_checksum := 0\<rparr>;
                    checksum_computed = udp_checksum udph data (source_address iph) (destination_address iph)
                in if checksum_in_packet \<noteq> checksum_computed then None
                   else Some (BAddr_InitIPv4 (source_address iph) (source_port udph),
                     BAddr_InitIPv4 (destination_address iph) (dest_port udph),
                     udpgw_transparent_dns t \<and> destination_address iph = netif_ipaddr t \<and> dest_port udph = hton16 53, data))))"

definition device_udp6 :: "tun2socks \<Rightarrow> bytes \<Rightarrow> (BAddr \<times> BAddr \<times> bool \<times> bytes) option" where
  "device_udp6 t data =
     (if \<not> netif_ip6addr t then None
      else if length data < sizeof_ipv6_header \<or> data ! 6 \<noteq> IPV6_NEXT_UDP then None
      else case ipv6_check data of
        None \<Rightarrow> None
      | Some (iph, data) \<Rightarrow>
          (case udp_check data of
             None \<Rightarrow> None
           | Some (udph, data) \<Rightarrow>
               (let checksum_in_packet = uh_checksum udph;
                    udph = udph\<lparr>uh_checksum := 0\<rparr>;
                    checksum_computed = udp_ip6_checksum udph data (ip6_source_address iph) (ip6_destination_address iph)
                in if checksum_in_packet \<noteq> checksum_computed then None
                   else Some (BAddr_InitIPv6 (ip6_source_address iph) (source_port udph),
                     BAddr_InitIPv6 (ip6_destination_address iph) (dest_port udph), False, data))))"

definition parse_device_udp_packet :: "tun2socks \<Rightarrow> bytes \<Rightarrow> (BAddr \<times> BAddr \<times> bool \<times> bytes) option" where
  "parse_device_udp_packet t data =
     (if \<not> udpgw_remote_server_addr t then None
      else let ip_version = (if length data > 0 then drop_bit 4 (data ! 0) else 0) in
        case (if ip_version = 4 then device_udp4 t data else if ip_version = 6 then device_udp6 t data else None) of
          None \<Rightarrow> None
        | Some (local, remote, is_dns, data) \<Rightarrow>
            if length data > tun_udp_mtu t then None else Some (local, remote, is_dns, data))"

text \<open>No result stands for a call that does not return.\<close>

definition process_device_udp_packet ::
  "nat option \<Rightarrow> (int \<Rightarrow> bytes option) \<Rightarrow> tun2socks \<Rightarrow> bytes \<Rightarrow> (tun2socks \<times> tun_action list \<times> bool) option" where
  "process_device_udp_packet malloc alloc t data =
     (case parse_device_udp_packet t data of
        None \<Rightarrow> Some (t, [], False)
      | Some (local, remote, is_dns, data) \<Rightarrow>
          map_option (\<lambda>(g, acts). (t\<lparr>tun_udpgw := g\<rparr>, map Udpgw acts, True))
            (SocksUdpGwClient_SubmitPacket malloc alloc (tun_udpgw t) local remote is_dns data))"

text \<open>With the call that is made goes whether it succeeded, which the stack decides if it gets the packet.\<close>

definition netif_input_func :: "tun2socks \<Rightarrow> bool \<Rightarrow> bytes \<Rightarrow> tun_action \<times> bool" where
  "netif_input_func t stack_ok p =
     (let ip_version = (if length p > 0 then drop_bit 4 (p ! 0) else 0) in
      if ip_version = 4 then (Ip_input p, stack_ok)
      else if ip_version = 6 \<and> netif_ip6addr t then (Ip6_input p, stack_ok)
      else (Pbuf_free, True))"

definition device_read_handler_send ::
  "nat option \<Rightarrow> (int \<Rightarrow> bytes option) \<Rightarrow> bool \<Rightarrow> bool \<Rightarrow> tun2socks \<Rightarrow> bytes \<Rightarrow> (tun2socks \<times> tun_action list) option" where
  "device_read_handler_send malloc alloc pbuf_ok stack_ok t data =
     (case process_device_udp_packet malloc alloc t data of
        None \<Rightarrow> None
      | Some (t, acts, True) \<Rightarrow> Some (t, Device_done # acts)
      | Some (t, acts, False) \<Rightarrow>
          Some (t, Device_done # acts @
            (if length data > UINT16_MAX \<or> \<not> pbuf_ok then []
             else let (call, ok) = netif_input_func t stack_ok data
                  in [Pbuf_alloc data, call] @ (if ok then [] else [Pbuf_free]))))"

section \<open>To the device\<close>

text \<open>The packets of the stack: a chain of buffers.\<close>

fun copy_chain :: "nat \<Rightarrow> bytes list \<Rightarrow> nat \<Rightarrow> bytes \<Rightarrow> bytes \<times> nat option" where
  "copy_chain mtu [] len b = (b, Some len)"
| "copy_chain mtu (p # ps) len b =
     (if int (length p) > int mtu - int len then (b, None)
      else copy_chain mtu ps (len + length p) (put p len b))"

definition common_netif_output :: "tun2socks \<Rightarrow> bytes list \<Rightarrow> tun2socks \<times> tun_action list" where
  "common_netif_output t ps =
     (if quitting t then (t, [])
      else case ps of
        [p] \<Rightarrow> (t, if length p > device_mtu t then [] else [Tap_send p])
      | _ \<Rightarrow>
          (case copy_chain (device_mtu t) ps 0 (device_write_buf t) of
             (b, None) \<Rightarrow> (t\<lparr>device_write_buf := b\<rparr>, [])
           | (b, Some len) \<Rightarrow> (t\<lparr>device_write_buf := b\<rparr>, [Tap_send (take len b)])))"

text \<open>The packets of the udpgw client.  Assertions exclude other addresses than two of the same kind.\<close>

fun udpgw_client_handler_received :: "tun2socks \<Rightarrow> BAddr \<Rightarrow> BAddr \<Rightarrow> bytes \<Rightarrow> tun2socks \<times> tun_action list" where
  "udpgw_client_handler_received t (BAddr_IPv4 local_ip local_port) (BAddr_IPv4 remote_ip remote_port) data =
     (if length data > UINT16_MAX - (sizeof_ipv4_header + sizeof_udp_header) \<or>
         int (length data) > int (device_mtu t) - int (sizeof_ipv4_header + sizeof_udp_header) then (t, [])
      else let
        iph = \<lparr>version4_ihl4 = IPV4_MAKE_VERSION_IHL sizeof_ipv4_header, ds = hton8 0,
          total_length = hton16 (of_nat (sizeof_ipv4_header + sizeof_udp_header + length data)),
          identification = hton16 0, flags3_fragmentoffset13 = hton16 0, ttl = hton8 64,
          protocol = hton8 IPV4_PROTOCOL_UDP, ih_checksum = hton16 0,
          source_address = remote_ip, destination_address = local_ip\<rparr>;
        iph = iph\<lparr>ih_checksum := ipv4_checksum iph []\<rparr>;
        udph = \<lparr>source_port = remote_port, dest_port = local_port,
          uh_length = hton16 (of_nat (sizeof_udp_header + length data)), uh_checksum = hton16 0\<rparr>;
        udph = udph\<lparr>uh_checksum := udp_checksum udph data (source_address iph) (destination_address iph)\<rparr>;
        b = put (ipv4_header_bytes iph) 0 (device_write_buf t);
        b = put (udp_header_bytes udph) sizeof_ipv4_header b;
        b = put data (sizeof_ipv4_header + sizeof_udp_header) b;
        packet_length = sizeof_ipv4_header + sizeof_udp_header + length data
      in (t\<lparr>device_write_buf := b\<rparr>, [Tap_send (take packet_length b)]))"
| "udpgw_client_handler_received t (BAddr_IPv6 local_ip local_port) (BAddr_IPv6 remote_ip remote_port) data =
     (if \<not> netif_ip6addr t then (t, [])
      else if length data > UINT16_MAX - sizeof_udp_header \<or>
         int (length data) > int (device_mtu t) - int (sizeof_ipv6_header + sizeof_udp_header) then (t, [])
      else let
        iph = \<lparr>version4_tc4 = hton8 (push_bit 4 6), tc4_fl4 = hton8 0, fl = hton16 0,
          payload_length = hton16 (of_nat (sizeof_udp_header + length data)),
          next_header = hton8 IPV6_NEXT_UDP, hop_limit = hton8 64,
          ip6_source_address = remote_ip, ip6_destination_address = local_ip\<rparr>;
        udph = \<lparr>source_port = remote_port, dest_port = local_port,
          uh_length = hton16 (of_nat (sizeof_udp_header + length data)), uh_checksum = hton16 0\<rparr>;
        udph = udph\<lparr>uh_checksum := udp_ip6_checksum udph data (ip6_source_address iph) (ip6_destination_address iph)\<rparr>;
        b = put (ipv6_header_bytes iph) 0 (device_write_buf t);
        b = put (udp_header_bytes udph) sizeof_ipv6_header b;
        b = put data (sizeof_ipv6_header + sizeof_udp_header) b;
        packet_length = sizeof_ipv6_header + sizeof_udp_header + length data
      in (t\<lparr>device_write_buf := b\<rparr>, [Tap_send (take packet_length b)]))"
| "udpgw_client_handler_received t _ _ data = (t, [])"

section \<open>Starting the udpgw client\<close>

text \<open>The part of \<open>run\<close> that computes the limit for packets and starts the udpgw client.\<close>

abbreviation DEFAULT_UDPGW_MAX_CONNECTIONS :: nat where "DEFAULT_UDPGW_MAX_CONNECTIONS \<equiv> 256"
abbreviation UDPGW_KEEPALIVE_TIME :: nat where "UDPGW_KEEPALIVE_TIME \<equiv> 10000"

definition run_udp_mtu :: "int \<Rightarrow> bool \<Rightarrow> int" where
  "run_udp_mtu mtu ip6 =
     (let udp_mtu = mtu - int (sizeof_ipv4_header + sizeof_udp_header);
          udp_mtu = (if ip6 then
              let udp_ip6_mtu = mtu - int (sizeof_ipv6_header + sizeof_udp_header)
              in if udp_mtu < udp_ip6_mtu then udp_ip6_mtu else udp_mtu
            else udp_mtu)
      in if udp_mtu < 0 then 0 else udp_mtu)"

definition run_udpgw ::
  "bool \<Rightarrow> SocksUdpGwClient \<Rightarrow> (nat \<Rightarrow> UdpGwClient_connection) \<Rightarrow> (flow \<Rightarrow> fq_flow) \<Rightarrow> int \<Rightarrow> BAddr \<Rightarrow>
     BSocksClient_auth_info list \<Rightarrow> BAddr \<Rightarrow> tun2socks \<Rightarrow> (tun2socks \<times> socks_call list) option" where
  "run_udpgw connector_init mem memory flow_memory buffer_size server ai remote t =
     (let mtu = run_udp_mtu (int (device_mtu t)) (netif_ip6addr t);
          ug_mtu = udpgw_compute_mtu TYPE(32) mtu
      in if ug_mtu < 0 \<or> ug_mtu > int UINT16_MAX then None
         else case SocksUdpGwClient_Init connector_init mem (nat mtu) DEFAULT_UDPGW_MAX_CONNECTIONS buffer_size UDPGW_KEEPALIVE_TIME
             memory flow_memory server ai remote of
           None \<Rightarrow> None
         | Some (g, calls) \<Rightarrow> Some (t\<lparr>tun_udp_mtu := nat mtu, tun_udpgw := g\<rparr>, calls))"

section \<open>Packets to the device\<close>

text \<open>Three consecutive writes.\<close>

lemma put_parts:
  assumes "length xs + length ys + length zs \<le> length b"
  shows "take (length xs + length ys + length zs) (put zs (length xs + length ys) (put ys (length xs) (put xs 0 b))) = xs @ ys @ zs"
  using assms by (simp add: put_def)

lemma ntoh_hton_nat: "n < 65536 \<Longrightarrow> unat (ntoh16 (hton16 (of_nat n))) = n"
  by (simp add: ntoh16_def hton_invol unat_of_nat_u16)

lemma ipv4_header_check:
  assumes "version4_ihl4 h = 0x45" "total_length h = hton16 (of_nat (20 + length p))" "20 + length p < 65536"
    "ih_checksum h = ipv4_checksum (h\<lparr>ih_checksum := hton16 0\<rparr>) []"
  shows "ipv4_check (ipv4_header_bytes h @ p) = Some (h, p)"
proof -
  have "IPV4_GET_VERSION h = 4" "IPV4_GET_IHL h = 5"
    using assms(1) by (simp_all add: IPV4_GET_VERSION_def IPV4_GET_IHL_def)
  moreover have "unat (ntoh16 (total_length h)) = 20 + length p"
    using ntoh_hton_nat [OF assms(3)] assms(2) by simp
  ultimately show ?thesis
    using assms(4) by (simp add: ipv4_check_def ipv4_header_load_bytes Let_def)
qed

lemma udp_header_check:
  assumes "uh_length h = hton16 (of_nat (8 + length p))" "8 + length p < 65536"
  shows "udp_check (udp_header_bytes h @ p) = Some (h, p)"
  using assms ntoh_hton_nat [OF assms(2)] by (simp add: udp_check_def udp_header_load_bytes Let_def)

lemma ipv6_header_check:
  assumes "version4_tc4 h = 0x60" "payload_length h = hton16 (of_nat (length p))" "length p < 65536"
    "length (ip6_source_address h) = 16" "length (ip6_destination_address h) = 16"
  shows "ipv6_check (ipv6_header_bytes h @ p) = Some (h, p)"
  using assms ntoh_hton_nat [OF assms(3)] by (simp add: ipv6_check_def ipv6_header_load_bytes Let_def ntoh8_def hton8_def)

text \<open>Reading the packets that the module writes.\<close>

lemma handler_received4:
  assumes "length data \<le> UINT16_MAX - 28" "length data + 28 \<le> device_mtu t" "length (device_write_buf t) = device_mtu t"
    "udpgw_remote_server_addr u" "length data \<le> tun_udp_mtu u"
  shows "\<exists>t' pkt. udpgw_client_handler_received t (BAddr_IPv4 lip lport) (BAddr_IPv4 rip rport) data = (t', [Tap_send pkt]) \<and>
    length pkt = 28 + length data \<and> t' = t\<lparr>device_write_buf := device_write_buf t'\<rparr> \<and> length (device_write_buf t') = device_mtu t \<and>
    parse_device_udp_packet u pkt = Some (BAddr_IPv4 rip rport, BAddr_IPv4 lip lport,
      udpgw_transparent_dns u \<and> lip = netif_ipaddr u \<and> lport = hton16 53, data)"
proof -
  define h0 where "h0 = \<lparr>version4_ihl4 = IPV4_MAKE_VERSION_IHL 20, ds = hton8 0, total_length = hton16 (of_nat (20 + 8 + length data)),
    identification = hton16 0, flags3_fragmentoffset13 = hton16 0, ttl = hton8 64, protocol = hton8 17, ih_checksum = hton16 0,
    source_address = rip, destination_address = lip\<rparr>"
  define h where "h = h0\<lparr>ih_checksum := ipv4_checksum h0 []\<rparr>"
  define u0 where "u0 = \<lparr>source_port = rport, dest_port = lport, uh_length = hton16 (of_nat (8 + length data)), uh_checksum = hton16 0\<rparr>"
  define uh where "uh = u0\<lparr>uh_checksum := udp_checksum u0 data (source_address h) (destination_address h)\<rparr>"
  define b where "b = put data (20 + 8) (put (udp_header_bytes uh) 20 (put (ipv4_header_bytes h) 0 (device_write_buf t)))"
  let ?pkt = "ipv4_header_bytes h @ udp_header_bytes uh @ data"
  have call: "udpgw_client_handler_received t (BAddr_IPv4 lip lport) (BAddr_IPv4 rip rport) data =
      (t\<lparr>device_write_buf := b\<rparr>, [Tap_send (take (20 + 8 + length data) b)])"
    using assms(1,2) by (simp add: h_def h0_def uh_def u0_def b_def Let_def)
  have pkt: "take (20 + 8 + length data) b = ?pkt"
    using put_parts [of "ipv4_header_bytes h" "udp_header_bytes uh" data "device_write_buf t"] assms(2,3) by (simp add: b_def)
  have len: "length b = device_mtu t"
    using assms(2,3) by (simp add: b_def)
  have ip: "ipv4_check ?pkt = Some (h, udp_header_bytes uh @ data)"
  proof (rule ipv4_header_check)
    show "version4_ihl4 h = 0x45"
      by (simp add: h_def h0_def IPV4_MAKE_VERSION_IHL_def)
    show "ih_checksum h = ipv4_checksum (h\<lparr>ih_checksum := hton16 0\<rparr>) []"
      by (simp add: h_def h0_def)
  qed (use assms(1) in \<open>simp_all add: h_def h0_def\<close>)
  have udp: "udp_check (udp_header_bytes uh @ data) = Some (uh, data)"
    by (rule udp_header_check) (use assms(1) in \<open>simp_all add: uh_def u0_def\<close>)
  have first: "?pkt ! 0 = 0x45" "?pkt ! 9 = 17"
    by (simp_all add: ipv4_header_bytes_def h_def h0_def IPV4_MAKE_VERSION_IHL_def nth_append hton8_def)
  have sum: "uh_checksum uh = udp_checksum (uh\<lparr>uh_checksum := 0\<rparr>) data (source_address h) (destination_address h)"
    by (simp add: uh_def u0_def hton16_0)
  have "device_udp4 u ?pkt = Some (BAddr_IPv4 rip rport, BAddr_IPv4 lip lport,
      udpgw_transparent_dns u \<and> lip = netif_ipaddr u \<and> lport = hton16 53, data)"
    unfolding device_udp4_def using ip udp sum first(2)
    by (simp add: Let_def BAddr_InitIPv4_def BAddr_MakeIPv4_def) (simp add: uh_def u0_def h_def h0_def)
  then have "parse_device_udp_packet u ?pkt = Some (BAddr_IPv4 rip rport, BAddr_IPv4 lip lport,
      udpgw_transparent_dns u \<and> lip = netif_ipaddr u \<and> lport = hton16 53, data)"
    using assms(4,5) first(1) by (simp add: parse_device_udp_packet_def Let_def)
  then show ?thesis
    using call pkt len by simp
qed

lemma handler_received6:
  assumes "netif_ip6addr t" "length data \<le> UINT16_MAX - 8" "length data + 48 \<le> device_mtu t" "length (device_write_buf t) = device_mtu t"
    "length lip = 16" "length rip = 16" "udpgw_remote_server_addr u" "netif_ip6addr u" "length data \<le> tun_udp_mtu u"
  shows "\<exists>t' pkt. udpgw_client_handler_received t (BAddr_IPv6 lip lport) (BAddr_IPv6 rip rport) data = (t', [Tap_send pkt]) \<and>
    length pkt = 48 + length data \<and> t' = t\<lparr>device_write_buf := device_write_buf t'\<rparr> \<and> length (device_write_buf t') = device_mtu t \<and>
    parse_device_udp_packet u pkt = Some (BAddr_IPv6 rip rport, BAddr_IPv6 lip lport, False, data)"
proof -
  define h where "h = \<lparr>version4_tc4 = hton8 (push_bit 4 6), tc4_fl4 = hton8 0, fl = hton16 0,
    payload_length = hton16 (of_nat (8 + length data)), next_header = hton8 17, hop_limit = hton8 64,
    ip6_source_address = rip, ip6_destination_address = lip\<rparr>"
  define u0 where "u0 = \<lparr>source_port = rport, dest_port = lport, uh_length = hton16 (of_nat (8 + length data)), uh_checksum = hton16 0\<rparr>"
  define uh where "uh = u0\<lparr>uh_checksum := udp_ip6_checksum u0 data (ip6_source_address h) (ip6_destination_address h)\<rparr>"
  define b where "b = put data (40 + 8) (put (udp_header_bytes uh) 40 (put (ipv6_header_bytes h) 0 (device_write_buf t)))"
  let ?pkt = "ipv6_header_bytes h @ udp_header_bytes uh @ data"
  have len6: "length (ipv6_header_bytes h) = 40"
    using assms(5,6) by (simp add: h_def)
  have call: "udpgw_client_handler_received t (BAddr_IPv6 lip lport) (BAddr_IPv6 rip rport) data =
      (t\<lparr>device_write_buf := b\<rparr>, [Tap_send (take (40 + 8 + length data) b)])"
    using assms(1-3) by (simp add: h_def uh_def u0_def b_def Let_def)
  have pkt: "take (40 + 8 + length data) b = ?pkt"
    using put_parts [of "ipv6_header_bytes h" "udp_header_bytes uh" data "device_write_buf t"] assms(3,4) len6 by (simp add: b_def)
  have len: "length b = device_mtu t"
    using assms(3,4) len6 by (simp add: b_def)
  have ip: "ipv6_check ?pkt = Some (h, udp_header_bytes uh @ data)"
    by (rule ipv6_header_check) (use assms(2,5,6) in \<open>simp_all add: h_def hton8_def\<close>)
  have udp: "udp_check (udp_header_bytes uh @ data) = Some (uh, data)"
    by (rule udp_header_check) (use assms(2) in \<open>simp_all add: uh_def u0_def\<close>)
  have first: "?pkt ! 0 = 0x60" "?pkt ! 6 = 17"
    by (simp_all add: ipv6_header_bytes_def h_def nth_append hton8_def)
  have fields: "ip6_source_address h = rip" "ip6_destination_address h = lip" "source_port uh = rport" "dest_port uh = lport"
    by (simp_all add: h_def uh_def u0_def)
  have sum: "uh_checksum uh = udp_ip6_checksum (uh\<lparr>uh_checksum := 0\<rparr>) data (ip6_source_address h) (ip6_destination_address h)"
    by (simp add: uh_def u0_def hton16_0)
  have "device_udp6 u ?pkt = Some (BAddr_IPv6 rip rport, BAddr_IPv6 lip lport, False, data)"
    unfolding device_udp6_def ip udp option.case prod.case Let_def BAddr_InitIPv6_def BAddr_MakeIPv6_def
    using sum first(2) assms(5,6,8) len6 fields by simp
  then have "parse_device_udp_packet u ?pkt = Some (BAddr_IPv6 rip rport, BAddr_IPv6 lip lport, False, data)"
    using assms(7,9) first(1) len6 by (simp add: parse_device_udp_packet_def Let_def)
  then show ?thesis
    using call pkt len len6 by simp
qed

section \<open>Packets from the device\<close>

text \<open>The pairs of addresses the module uses.\<close>

fun tun_kind :: "bool \<Rightarrow> BAddr \<Rightarrow> BAddr \<Rightarrow> bool" where
  "tun_kind ip6 (BAddr_IPv4 _ _) (BAddr_IPv4 _ _) = True"
| "tun_kind ip6 (BAddr_IPv6 l _) (BAddr_IPv6 r _) = (ip6 \<and> length l = 16 \<and> length r = 16)"
| "tun_kind ip6 _ _ = False"

lemma tun_kind_ip: "tun_kind ip6 local remote \<Longrightarrow> BAddr_ip local \<and> BAddr_ip remote"
  by (cases "(ip6, local, remote)" rule: tun_kind.cases) auto

lemma ipv6_check_SomeD:
  assumes "ipv6_check xs = Some (h, p)"
  shows "h = ipv6_header_load xs \<and> length (ip6_source_address h) = 16 \<and> length (ip6_destination_address h) = 16"
  using assms by (auto simp: ipv6_check_def ipv6_header_load_def Let_def split: if_splits)

lemma parse_kind:
  assumes "parse_device_udp_packet t data = Some (local, remote, is_dns, payload)"
  shows "tun_kind (netif_ip6addr t) local remote" "length payload \<le> tun_udp_mtu t" "udpgw_remote_server_addr t"
  using assms
  by (auto simp: parse_device_udp_packet_def device_udp4_def device_udp6_def Let_def BAddr_InitIPv4_def BAddr_MakeIPv4_def
    BAddr_InitIPv6_def BAddr_MakeIPv6_def dest!: ipv6_check_SomeD split: if_splits option.splits)

lemma sg_step_kept:
  assumes "sg_step g l g' l'"
  shows "udp_mtu (udpgw_client g') = udp_mtu (udpgw_client g)" "connections_list (udpgw_client g') = connections_list (udpgw_client g)"
    "conaddr_of (udpgw_client g') p = conaddr_of (udpgw_client g) p"
proof -
  have free: "udp_mtu (udpgw_client h') = udp_mtu (udpgw_client h) \<and> connections_list (udpgw_client h') = connections_list (udpgw_client h) \<and>
    connections (udpgw_client h') = connections (udpgw_client h)" if "free_socks h = (h', calls)" for h h' calls
    using that by (auto simp: free_socks_def UdpGwClient_DisconnectServer_def free_server_def Let_def split: if_splits)
  have con: "udp_mtu c' = udp_mtu c \<and> connections_list c' = connections_list c \<and> connections c' = connections c"
    if "UdpGwClient_ConnectServer malloc c = (c', ok)" for malloc c c' ok
    using that by (auto simp: UdpGwClient_ConnectServer_def Let_def split: option.splits prod.splits)
  have "udp_mtu (udpgw_client g') = udp_mtu (udpgw_client g) \<and> connections_list (udpgw_client g') = connections_list (udpgw_client g) \<and>
    (\<forall>p. conaddr_of (udpgw_client g') p = conaddr_of (udpgw_client g) p)"
    using assms
  proof cases
    case (sg_reconnect connector_init calls')
    then show ?thesis
      by (auto simp: reconnect_timer_handler_def try_connect_def split: option.splits)
  next
    case (sg_up c calls' data e malloc calls'')
    then show ?thesis
      using con free by (fastforce simp: socks_client_handler_def split: socks_event.splits prod.splits bool.splits)
  next
    case (sg_down c calls' data e malloc calls'')
    then show ?thesis
      using con free by (fastforce simp: socks_client_handler_def split: socks_event.splits prod.splits bool.splits)
  next
    case (sg_servererror c acts calls')
    then show ?thesis
      using free by (fastforce simp: udpgw_handler_servererror_def decoder_handler_error_def split: prod.splits)
  next
    case (sg_udpgw c w' here' wire')
    then show ?thesis
      using ug_step_kept by (fastforce simp: kept_def)
  qed simp
  then show "udp_mtu (udpgw_client g') = udp_mtu (udpgw_client g)" "connections_list (udpgw_client g') = connections_list (udpgw_client g)"
    "conaddr_of (udpgw_client g') p = conaddr_of (udpgw_client g) p"
    by auto
qed

section \<open>Runs of the module\<close>

text \<open>What the udpgw client tells its users goes on to the device.\<close>

fun tun_deliver :: "tun2socks \<Rightarrow> ug_action list \<Rightarrow> tun2socks \<times> tun_action list" where
  "tun_deliver t [] = (t, [])"
| "tun_deliver t (UG_received local remote data # acts) =
     (case udpgw_handler_received local remote data of (local, remote, data) \<Rightarrow>
        let (t1, out1) = udpgw_client_handler_received t local remote data; (t2, out2) = tun_deliver t1 acts in (t2, out1 @ out2))"
| "tun_deliver t (_ # acts) = tun_deliver t acts"

fun tun_writes :: "tun_action list \<Rightarrow> (flow \<times> bytes) list" where
  "tun_writes [] = []"
| "tun_writes (Udpgw a # acts) = writes [a] @ tun_writes acts"
| "tun_writes (_ # acts) = tun_writes acts"

inductive tun_run :: "tun2socks \<Rightarrow> socks_call list \<Rightarrow> tun2socks \<Rightarrow> sg_log \<Rightarrow> bool" for t0 calls0 where
  tun_start: "tun_run t0 calls0 t0 ([], calls0, [], [], [], [], [])"
| tun_next: "tun_run t0 calls0 t l \<Longrightarrow> sg_step (tun_udpgw t) l g l' \<Longrightarrow> tun_run t0 calls0 (t\<lparr>tun_udpgw := g\<rparr>) l'"
| tun_message: "tun_run t0 calls0 t l \<Longrightarrow> have_server (udpgw_client (tun_udpgw t)) \<Longrightarrow>
    length data \<le> udpgw_mtu (udpgw_client (tun_udpgw t)) \<Longrightarrow>
    recv_interface_handler_send (udpgw_client (tun_udpgw t)) data = (c, acts) \<Longrightarrow>
    tun_deliver (t\<lparr>tun_udpgw := (tun_udpgw t)\<lparr>udpgw_client := c\<rparr>\<rparr>) acts = (t', out) \<Longrightarrow> tun_run t0 calls0 t' l"
| tun_read: "tun_run t0 calls0 t (past, calls, xs, w, old, here, wire) \<Longrightarrow> may_submit (udpgw_client (tun_udpgw t)) mem alloc \<Longrightarrow>
    device_read_handler_send mem alloc pbuf_ok stack_ok t data = Some (t', acts) \<Longrightarrow>
    tun_run t0 calls0 t' (past, calls, xs, w @ tun_writes acts, old, here, wire)"
| tun_output: "tun_run t0 calls0 t l \<Longrightarrow> common_netif_output t ps = (t', acts) \<Longrightarrow> tun_run t0 calls0 t' l"

definition tun_same :: "tun2socks \<Rightarrow> tun2socks \<Rightarrow> bool" where
  "tun_same t t' = (udpgw_remote_server_addr t' = udpgw_remote_server_addr t \<and> udpgw_transparent_dns t' = udpgw_transparent_dns t \<and>
     netif_ip6addr t' = netif_ip6addr t \<and> netif_ipaddr t' = netif_ipaddr t \<and> tun_udp_mtu t' = tun_udp_mtu t \<and> quitting t' = quitting t \<and>
     device_mtu t' = device_mtu t \<and> length (device_write_buf t') = length (device_write_buf t))"

definition tun_inv :: "tun2socks \<Rightarrow> socks_call list \<Rightarrow> tun2socks \<Rightarrow> sg_log \<Rightarrow> bool" where
  "tun_inv t0 calls0 t l =
     (tun_same t0 t \<and> sg_run (tun_udpgw t0) calls0 (tun_udpgw t) l \<and> udp_mtu (udpgw_client (tun_udpgw t)) = tun_udp_mtu t \<and>
      (\<forall>p\<in>set (connections_list (udpgw_client (tun_udpgw t))).
        let a = conaddr_of (udpgw_client (tun_udpgw t)) p in tun_kind (netif_ip6addr t) (local_addr a) (remote_addr a)))"

lemma received_same:
  assumes "udpgw_client_handler_received t local remote data = (t', out)" "tun_kind (netif_ip6addr t) local remote"
    "length (device_write_buf t) = device_mtu t"
  shows "tun_same t t'" "tun_udpgw t' = tun_udpgw t"
  using assms by (cases "(netif_ip6addr t, local, remote)" rule: tun_kind.cases; auto simp: tun_same_def Let_def split: if_splits)+

lemma copy_chain_length: "length b = mtu \<Longrightarrow> len \<le> mtu \<Longrightarrow> length (fst (copy_chain mtu ps len b)) = mtu"
  by (induction ps arbitrary: len b) auto

lemma output_same:
  assumes "common_netif_output t ps = (t', acts)" "length (device_write_buf t) = device_mtu t"
  shows "tun_same t t'" "tun_udpgw t' = tun_udpgw t"
  using assms copy_chain_length [of "device_write_buf t" "device_mtu t" 0 ps]
  by (auto simp: common_netif_output_def tun_same_def split: if_splits list.splits prod.splits option.splits)

lemma message_acts:
  assumes "recv_interface_handler_send c data = (c', acts)" "ug_table c"
  obtains "acts = [UG_recv_done]" "c' = c"
  | p payload where "p \<in> set (connections_list c)" "length payload \<le> udp_mtu c"
    "acts = [UG_recv_done, UG_received (local_addr (conaddr_of c p)) (remote_addr (conaddr_of c p)) payload]"
  using assms(1) that ug_table_find(1) [OF assms(2)]
  by (auto simp: recv_interface_handler_send_def Let_def split: if_splits option.splits)

lemma tun_writes_Udpgw: "tun_writes (map Udpgw acts) = writes acts"
  by (induction acts rule: writes.induct) simp_all

lemma tun_message_inv:
  assumes inv: "tun_inv t0 calls0 t l" and table: "ug_table (udpgw_client (tun_udpgw t))"
    and size: "length (device_write_buf t) = device_mtu t"
    and server: "have_server (udpgw_client (tun_udpgw t))" "length data \<le> udpgw_mtu (udpgw_client (tun_udpgw t))"
    and recv: "recv_interface_handler_send (udpgw_client (tun_udpgw t)) data = (c, acts)"
    and deliver: "tun_deliver (t\<lparr>tun_udpgw := (tun_udpgw t)\<lparr>udpgw_client := c\<rparr>\<rparr>) acts = (t', out)"
  shows "tun_inv t0 calls0 t' l"
proof -
  let ?g = "(tun_udpgw t)\<lparr>udpgw_client := c\<rparr>" and ?c = "udpgw_client (tun_udpgw t)"
  let ?t = "t\<lparr>tun_udpgw := ?g\<rparr>"
  have "c = ?c\<lparr>connections_list := connections_list c\<rparr>" and set: "set (connections_list c) = set (connections_list ?c)"
    using message_kept [OF recv table] by blast+
  then have c: "udp_mtu c = udp_mtu ?c" "connections c = connections ?c"
    by (metis UdpGwClient.surjective UdpGwClient.update_convs(9) UdpGwClient.select_convs(1,6))+
  have run: "sg_run (tun_udpgw t0) calls0 ?g l"
    using sg_message [OF _ server recv] inv by (simp add: tun_inv_def)
  have kind: "tun_kind (netif_ip6addr t) (local_addr (conaddr_of ?c p)) (remote_addr (conaddr_of ?c p))" if "p \<in> set (connections_list ?c)" for p
    using inv that by (simp add: tun_inv_def Let_def)
  have same: "tun_same ?t t' \<and> tun_udpgw t' = ?g"
    using recv table
  proof (cases rule: message_acts)
    case 1
    then show ?thesis
      using deliver by (simp add: tun_same_def)
  next
    case (2 p payload)
    then have "fst (udpgw_client_handler_received ?t (local_addr (conaddr_of ?c p)) (remote_addr (conaddr_of ?c p)) payload) = t'"
      using deliver by (auto simp: udpgw_handler_received_def split: prod.splits)
    then show ?thesis
      using received_same [of ?t "local_addr (conaddr_of ?c p)" "remote_addr (conaddr_of ?c p)" payload t'] kind [OF 2(1)] size
      by (cases "udpgw_client_handler_received ?t (local_addr (conaddr_of ?c p)) (remote_addr (conaddr_of ?c p)) payload") simp
  qed
  with inv run c set show ?thesis
    by (auto simp: tun_inv_def tun_same_def Let_def)
qed

lemma tun_read_inv:
  assumes inv: "tun_inv t0 calls0 t (past, calls, xs, w, old, here, wire)" and table: "ug_table (udpgw_client (tun_udpgw t))"
    and submit: "may_submit (udpgw_client (tun_udpgw t)) mem alloc"
    and read: "device_read_handler_send mem alloc pbuf_ok stack_ok t data = Some (t', acts)"
  shows "tun_inv t0 calls0 t' (past, calls, xs, w @ tun_writes acts, old, here, wire)"
proof (cases "parse_device_udp_packet t data")
  case None
  then have "t' = t" "tun_writes acts = []"
    using read by (auto simp: device_read_handler_send_def process_device_udp_packet_def netif_input_func_def Let_def split: if_splits)
  then show ?thesis
    using inv by simp
next
  case (Some x)
  then obtain local remote is_dns payload where parse: "parse_device_udp_packet t data = Some (local, remote, is_dns, payload)"
    by (cases x) auto
  obtain g acts' where sub: "SocksUdpGwClient_SubmitPacket mem alloc (tun_udpgw t) local remote is_dns payload = Some (g, acts')"
    "t' = t\<lparr>tun_udpgw := g\<rparr>" "acts = Device_done # map Udpgw acts'"
    using read parse by (auto simp: device_read_handler_send_def process_device_udp_packet_def split: option.splits prod.splits)
  then obtain c where c: "UdpGwClient_SubmitPacket mem alloc (udpgw_client (tun_udpgw t)) local remote is_dns payload = Some (c, acts')"
    "g = (tun_udpgw t)\<lparr>udpgw_client := c\<rparr>"
    by (auto simp: SocksUdpGwClient_SubmitPacket_def)
  note kind = parse_kind [OF parse]
  have ip: "BAddr_ip local" "BAddr_ip remote"
    using tun_kind_ip [OF kind(1)] by auto
  have "sg_run (tun_udpgw t0) calls0 g (past, calls, xs, w @ writes acts', old, here, wire)"
    using sg_submit [OF _ ip _ submit sub(1)] inv kind(2) by (simp add: tun_inv_def)
  moreover have "readdressed \<lparr>local_addr = local, remote_addr = remote\<rparr> (udpgw_client (tun_udpgw t)) c"
    by (rule submit_readdressed [OF c(1) table ip])
  ultimately show ?thesis
    using inv kind(1) by (auto simp: tun_inv_def tun_same_def readdressed_def Let_def sub(2,3) c(2) tun_writes_Udpgw)
qed

lemma udpgw_blocks_small:
  assumes "0 \<le> len" "len \<le> 65537" "0 < n" "n \<le> 1000"
  shows "4 * ChunkBuffer2_calc_blocks len n \<le> INT_MAX"
proof -
  have "bdivide_up (nat len) 4 \<le> 16385"
    using assms(1,2) by (simp add: bdivide_up_le_iff nat_le_iff)
  then have "(1 + int (bdivide_up (nat len) 4)) * (n + 1) \<le> 16386 * 1001"
    using assms(3,4) by (intro mult_mono) simp_all
  then show ?thesis
    by (simp add: ChunkBuffer2_calc_blocks_def Let_def)
qed

lemma udpgw_started:
  assumes "run_udpgw connector_init mem memory flow_memory buffer_size server ai remote t = Some (t0, calls0)" "0 < buffer_size" "buffer_size \<le> 1000"
    "int (device_mtu t) \<le> INT_MAX"
  shows "SocksUdpGwClient_Init connector_init mem (tun_udp_mtu t0) 256 buffer_size 10000 memory flow_memory server ai remote = Some (tun_udpgw t0, calls0)"
    "ug_args (tun_udp_mtu t0) 256 buffer_size" "tun_udp_mtu t0 = nat (int (device_mtu t) - 28)" "tun_same (t\<lparr>tun_udp_mtu := tun_udp_mtu t0\<rparr>) t0"
proof -
  let ?mtu = "run_udp_mtu (int (device_mtu t)) (netif_ip6addr t)"
  have mtu: "?mtu = (if device_mtu t < 28 then 0 else int (device_mtu t) - 28)"
    by (simp add: run_udp_mtu_def Let_def)
  have lim: "\<not> udpgw_compute_mtu TYPE(32) ?mtu < 0" "\<not> udpgw_compute_mtu TYPE(32) ?mtu > int UINT16_MAX"
    using assms(1) by (auto simp: run_udpgw_def Let_def split: if_splits)
  then have small: "?mtu + 21 \<le> int UINT16_MAX"
    using udpgw_compute_mtu_value [where 'w = 32, of ?mtu] mtu assms(4) by (simp split: if_splits)
  obtain g where g: "SocksUdpGwClient_Init connector_init mem (nat ?mtu) 256 buffer_size 10000 memory flow_memory server ai remote = Some (g, calls0)"
    "t0 = t\<lparr>tun_udp_mtu := nat ?mtu, tun_udpgw := g\<rparr>"
    using assms(1) by (auto simp: run_udpgw_def Let_def split: if_splits option.splits)
  then show "SocksUdpGwClient_Init connector_init mem (tun_udp_mtu t0) 256 buffer_size 10000 memory flow_memory server ai remote = Some (tun_udpgw t0, calls0)"
    "tun_udp_mtu t0 = nat (int (device_mtu t) - 28)" "tun_same (t\<lparr>tun_udp_mtu := tun_udp_mtu t0\<rparr>) t0"
    using mtu by (simp_all add: tun_same_def)
  have "0 \<le> ?mtu" "tun_udp_mtu t0 = nat ?mtu"
    using mtu g(2) by simp_all
  then show "ug_args (tun_udp_mtu t0) 256 buffer_size"
    using small assms(2) udpgw_blocks_small [of "2 + (int (tun_udp_mtu t0) + 21)", OF _ _ assms(2,3)] by (simp add: ug_args_def nat_le_iff)
qed

lemma udpgw_init_fields:
  assumes "UdpGwClient_Init mtu max_con buffer_size keepalive_time memory flow_memory = Some c"
  shows "udp_mtu c = mtu" "connections_list c = []"
  using assms by (auto simp: UdpGwClient_Init_def Let_def split: option.splits)

text \<open>What holds when the module has started, and afterwards.\<close>

definition tun_started :: "tun2socks \<Rightarrow> socks_call list \<Rightarrow> BSocksClient_auth_info list \<Rightarrow> BAddr \<Rightarrow> bool" where
  "tun_started t0 calls0 ai remote =
     (\<exists>connector_init mem memory flow_memory buffer_size server t. 0 < buffer_size \<and> buffer_size \<le> 1000 \<and> int (device_mtu t) \<le> INT_MAX \<and>
        length (device_write_buf t) = device_mtu t \<and>
        run_udpgw connector_init mem memory flow_memory buffer_size server ai remote t = Some (t0, calls0))"

lemma tun_run_inv:
  assumes run: "tun_run t0 calls0 t l" and start: "tun_started t0 calls0 ai remote"
  shows "tun_inv t0 calls0 t l" "length (device_write_buf t) = device_mtu t"
    "\<exists>w old here wire. ug_inv (udpgw_client (tun_udpgw t)) w old here wire"
    "l = (past, calls, xs, w, old, here, wire) \<Longrightarrow> ug_inv (udpgw_client (tun_udpgw t)) w old here wire"
proof -
  obtain connector_init mem memory flow_memory buffer_size server u where u: "0 < buffer_size" "buffer_size \<le> 1000" "int (device_mtu u) \<le> INT_MAX"
    "length (device_write_buf u) = device_mtu u"
    "run_udpgw connector_init mem memory flow_memory buffer_size server ai remote u = Some (t0, calls0)"
    using start by (auto simp: tun_started_def)
  note started = udpgw_started [OF u(5,1,2,3)]
  note init = init_sg_inv [OF started(1)] and ug = init_ug_inv [OF init_sg_inv(2) [OF started(1)] started(2)]
  have size: "length (device_write_buf t) = device_mtu t" if "tun_inv t0 calls0 t l" for t l
    using that started(4) u(4) by (simp add: tun_inv_def tun_same_def)
  have ug_inv: "ug_inv (udpgw_client (tun_udpgw t)) w old here wire" if "tun_inv t0 calls0 t (past, calls, xs, w, old, here, wire)"
    for t past calls xs w old here wire
    using that ug_run_inv [OF sg_run_inv(2) [OF _ init(1) ug] ug] by (auto simp: tun_inv_def)
  then have table: "ug_table (udpgw_client (tun_udpgw t))" if "tun_inv t0 calls0 t l" for t l
    using that ug_inv_parts(3) by (cases l) blast
  show inv: "tun_inv t0 calls0 t l"
    using run
  proof induction
    case tun_start
    then show ?case
      using udpgw_init_fields [OF init(2)] by (simp add: tun_inv_def tun_same_def sg_start)
  next
    case (tun_next t l g l')
    then show ?case
      using sg_step_kept [OF tun_next.hyps(2)] by (auto simp: tun_inv_def tun_same_def intro: sg_next)
  next
    case (tun_message t l data c acts t' out)
    then show ?case
      using tun_message_inv table size by blast
  next
    case (tun_read t past calls xs w old here wire mem alloc pbuf_ok stack_ok data t' acts)
    then show ?case
      using tun_read_inv table by blast
  next
    case (tun_output t l ps t' acts)
    then show ?case
      using output_same [OF tun_output.hyps(2)] size [OF tun_output.IH] by (auto simp: tun_inv_def tun_same_def)
  qed
  show "length (device_write_buf t) = device_mtu t"
    by (rule size [OF inv])
  show "\<exists>w old here wire. ug_inv (udpgw_client (tun_udpgw t)) w old here wire"
    using inv ug_inv by (cases l) blast
  show "ug_inv (udpgw_client (tun_udpgw t)) w old here wire" if "l = (past, calls, xs, w, old, here, wire)"
    using inv ug_inv that by blast
qed

section \<open>The properties\<close>

text \<open>The UDP packet in IP data, its checksum added to the words it covers.\<close>

lemma udp_bytes_load: "8 \<le> length p \<Longrightarrow> udp_header_bytes (udp_header_load p) = take 8 p"
  by (simp add: udp_header_bytes_def udp_header_load_def mem_load numeral_eq_Suc Suc_le_length_iff) (auto simp: numeral_eq_Suc)

lemma word_sum_udp_checksum:
  "word_sum (udp_header_bytes h) = word_sum (udp_header_bytes (h\<lparr>uh_checksum := 0\<rparr>)) + unat (ntoh16 (uh_checksum h))"
proof -
  have w: "word_sum (mem16 x) = unat (ntoh16 x)" for x
    using word_sum_mem16 [of "ntoh16 x"] by (simp add: ntoh16_def hton_invol)
  have "ntoh16 0 = 0"
    by (simp add: ntoh16_def hton16_0)
  then show ?thesis
    by (simp add: udp_header_bytes_def word_sum_append w)
qed

lemma udp_check_SomeD:
  assumes "udp_check p = Some (h, payload)"
  shows "h = udp_header_load p" "8 \<le> unat (ntoh16 (uh_length h))" "unat (ntoh16 (uh_length h)) \<le> length p"
    "payload = take (unat (ntoh16 (uh_length h)) - 8) (drop 8 p)" "take (8 + length payload) p = udp_header_bytes h @ payload"
    "length payload \<le> 65527" "8 + length payload = unat (ntoh16 (uh_length h))"
proof -
  show h: "h = udp_header_load p" "8 \<le> unat (ntoh16 (uh_length h))" "unat (ntoh16 (uh_length h)) \<le> length p"
    "payload = take (unat (ntoh16 (uh_length h)) - 8) (drop 8 p)"
    using assms by (auto simp: udp_check_def Let_def split: if_splits)
  then show len: "8 + length payload = unat (ntoh16 (uh_length h))"
    by simp
  show "take (8 + length payload) p = udp_header_bytes h @ payload"
    unfolding take_add using h by (simp add: udp_bytes_load)
  show "length payload \<le> 65527"
    using len unat_u16_lt [of "ntoh16 (uh_length h)"] by linarith
qed

text \<open>A checksum that is what the code computes verifies, and is not the value that stands for a zero sum.\<close>

lemma checksum_not_ones:
  assumes "0 < n" "unat (ntoh16 x) = 65535 - ones_sum n"
  shows "x \<noteq> 0xFFFF"
proof -
  have "unat (ntoh16 x) \<noteq> 65535"
    using assms by (simp add: ones_sum_def)
  moreover have "unat (ntoh16 0xFFFF) = 65535"
    by (simp add: ntoh16_def hton16_def badvpn_reverse16_def mem16_eq load_defs)
  ultimately show ?thesis
    by metis
qed

lemma udp4_verifies:
  assumes "udp_check p = Some (h, payload)" "uh_checksum h = udp_checksum (h\<lparr>uh_checksum := 0\<rparr>) payload src dst"
  shows "ones_sum (word_sum (pseudo_header src dst (8 + length payload) @ take (8 + length payload) p)) = 65535"
    "uh_checksum h \<noteq> 0xFFFF"
proof -
  note u = udp_check_SomeD [OF assms(1)]
  let ?sum = "word_sum (pseudo_header src dst (8 + length payload) @ udp_header_bytes (h\<lparr>uh_checksum := 0\<rparr>) @ payload)"
  have cs: "unat (ntoh16 (uh_checksum h)) = 65535 - ones_sum ?sum"
    using unat_udp_checksum [OF u(6), of "h\<lparr>uh_checksum := 0\<rparr>" src dst] assms(2) by simp
  have "word_sum (pseudo_header src dst (8 + length payload) @ take (8 + length payload) p) = ?sum + unat (ntoh16 (uh_checksum h))"
    using word_sum_udp_checksum [of h] by (simp add: u(5) word_sum_append pseudo_header_def)
  then show "ones_sum (word_sum (pseudo_header src dst (8 + length payload) @ take (8 + length payload) p)) = 65535"
    by (simp add: cs ones_sum_complement)
  have "0 < ?sum"
    by (simp add: pseudo_header_def word_sum_append word_sum_mem16)
  then show "uh_checksum h \<noteq> 0xFFFF"
    using cs by (rule checksum_not_ones)
qed

lemma udp6_verifies:
  assumes "udp_check p = Some (h, payload)" "uh_checksum h = udp_ip6_checksum (h\<lparr>uh_checksum := 0\<rparr>) payload src dst"
    "length src = 16" "length dst = 16"
  shows "ones_sum (word_sum (pseudo_header6 src dst (8 + length payload) @ take (8 + length payload) p)) = 65535"
    "uh_checksum h \<noteq> 0xFFFF"
proof -
  note u = udp_check_SomeD [OF assms(1)]
  let ?sum = "word_sum (pseudo_header6 src dst (8 + length payload) @ udp_header_bytes (h\<lparr>uh_checksum := 0\<rparr>) @ payload)"
  have cs: "unat (ntoh16 (uh_checksum h)) = 65535 - ones_sum ?sum"
    using unat_udp_ip6_checksum [OF u(6) assms(3,4), of "h\<lparr>uh_checksum := 0\<rparr>"] assms(2) by simp
  have "word_sum (pseudo_header6 src dst (8 + length payload) @ take (8 + length payload) p) = ?sum + unat (ntoh16 (uh_checksum h))"
    using word_sum_udp_checksum [of h] assms(3,4) by (simp add: u(5) word_sum_append pseudo_header6_def)
  then show "ones_sum (word_sum (pseudo_header6 src dst (8 + length payload) @ take (8 + length payload) p)) = 65535"
    by (simp add: cs ones_sum_complement)
  have "word_sum (mem32 (hton32 17)) = 17"
    by code_simp
  then have "0 < ?sum"
    using assms(3,4) by (simp add: pseudo_header6_def word_sum_append)
  then show "uh_checksum h \<noteq> 0xFFFF"
    using cs by (rule checksum_not_ones)
qed

text \<open>C19. A packet from the device is taken for the udpgw client only if it is a UDP packet over IPv4, or over IPv6 where the
  module has an IPv6 address, whose checksums verify: the IP header passes \<open>ipv4_check\<close> or \<open>ipv6_check\<close>, its
  protocol is UDP, and the one's complement sum over pseudo-header and UDP packet is \<open>0xFFFF\<close>. Then the addresses are
  those of the headers, and the payload is the data the lengths delimit, within the limit. A checksum of
  \<open>0xFFFF\<close>, which RFC 768 prescribes for a zero result, is never accepted. Only an IPv4 packet can be a DNS packet.\<close>

theorem device_udp_verified:
  assumes "parse_device_udp_packet t data = Some (local, remote, is_dns, payload)"
  shows "udpgw_remote_server_addr t \<and> length payload \<le> tun_udp_mtu t \<and> (\<exists>p u. udp_check p = Some (u, payload) \<and> uh_checksum u \<noteq> 0xFFFF \<and>
    ((\<exists>h. drop_bit 4 (data ! 0) = 4 \<and> ipv4_check data = Some (h, p) \<and> protocol h = 17 \<and>
        local = BAddr_IPv4 (source_address h) (source_port u) \<and> remote = BAddr_IPv4 (destination_address h) (dest_port u) \<and>
        ones_sum (word_sum (pseudo_header (source_address h) (destination_address h) (8 + length payload) @ take (8 + length payload) p)) = 65535 \<and>
        is_dns = (udpgw_transparent_dns t \<and> destination_address h = netif_ipaddr t \<and> dest_port u = hton16 53)) \<or>
     (\<exists>h. drop_bit 4 (data ! 0) = 6 \<and> netif_ip6addr t \<and> ipv6_check data = Some (h, p) \<and> next_header h = 17 \<and>
        local = BAddr_IPv6 (ip6_source_address h) (source_port u) \<and> remote = BAddr_IPv6 (ip6_destination_address h) (dest_port u) \<and>
        ones_sum (word_sum (pseudo_header6 (ip6_source_address h) (ip6_destination_address h) (8 + length payload) @ take (8 + length payload) p)) = 65535 \<and>
        \<not> is_dns)))"
proof -
  have lim: "udpgw_remote_server_addr t" "length payload \<le> tun_udp_mtu t"
    using parse_kind [OF assms] by simp_all
  consider (four) "drop_bit 4 (data ! 0) = 4" "device_udp4 t data = Some (local, remote, is_dns, payload)"
    | (six) "drop_bit 4 (data ! 0) = 6" "device_udp6 t data = Some (local, remote, is_dns, payload)"
    using assms by (auto simp: parse_device_udp_packet_def Let_def split: if_splits option.splits)
  then show ?thesis
  proof cases
    case four
    then obtain h p u where h: "ipv4_check data = Some (h, p)" and u: "udp_check p = Some (u, payload)"
      and sum: "uh_checksum u = udp_checksum (u\<lparr>uh_checksum := 0\<rparr>) payload (source_address h) (destination_address h)"
      and rest: "data ! 9 = 17" "local = BAddr_IPv4 (source_address h) (source_port u)" "remote = BAddr_IPv4 (destination_address h) (dest_port u)"
        "is_dns = (udpgw_transparent_dns t \<and> destination_address h = netif_ipaddr t \<and> dest_port u = hton16 53)"
      by (auto simp: device_udp4_def Let_def BAddr_InitIPv4_def BAddr_MakeIPv4_def split: if_splits option.splits)
    have "protocol h = 17"
      using ipv4_check_SomeD(1) [OF h] rest(1) by (simp add: ipv4_header_load_def)
    then show ?thesis
      using four(1) h u rest lim udp4_verifies [OF u sum] by blast
  next
    case six
    then obtain h p u where h: "ipv6_check data = Some (h, p)" and u: "udp_check p = Some (u, payload)"
      and sum: "uh_checksum u = udp_ip6_checksum (u\<lparr>uh_checksum := 0\<rparr>) payload (ip6_source_address h) (ip6_destination_address h)"
      and rest: "data ! 6 = 17" "netif_ip6addr t" "local = BAddr_IPv6 (take 16 (ip6_source_address h)) (source_port u)"
        "remote = BAddr_IPv6 (take 16 (ip6_destination_address h)) (dest_port u)" "\<not> is_dns"
      by (auto simp: device_udp6_def Let_def BAddr_InitIPv6_def BAddr_MakeIPv6_def split: if_splits option.splits)
    have hdr: "next_header h = 17" "length (ip6_source_address h) = 16" "length (ip6_destination_address h) = 16"
      using ipv6_check_SomeD [OF h] rest(1) by (simp add: ipv6_header_load_def, blast+)
    then have "local = BAddr_IPv6 (ip6_source_address h) (source_port u)" "remote = BAddr_IPv6 (ip6_destination_address h) (dest_port u)"
      using rest(3,4) by simp_all
    then show ?thesis
      using six(1) h u rest(2,5) lim hdr(1) udp6_verifies [OF u sum hdr(2,3)] by blast
  qed
qed

text \<open>C2. Reading a packet from the device always returns, in every state the module can get into, and accepts the packet. One
  that is not for the udpgw client is dropped if it is longer than 65535 bytes or the stack has no buffer for it. Otherwise
  IPv4 packets go to the stack, and IPv6 packets if the module has an IPv6 address, whole; the buffer is freed once if the
  stack reports an error, or if the packet is neither. A packet for the udpgw client never reaches the stack. It is
  written as a message of the connection of its addresses, or of the least recently used one with the rebind flag when all
  connections are in use, and dropped only if that connection's buffer is full; or it gets a new connection whose first job
  writes it, and is dropped if there is no memory for one.\<close>

theorem device_read_forwards:
  assumes "tun_started t0 calls0 ai server" "tun_run t0 calls0 t (past, calls, xs, w, old, here, wire)"
    "may_submit (udpgw_client (tun_udpgw t)) mem alloc"
  shows "\<exists>t' acts. device_read_handler_send mem alloc pbuf_ok stack_ok t data = Some (t', Device_done # acts) \<and>
    (case parse_device_udp_packet t data of
       None \<Rightarrow> t' = t \<and> acts =
         (if 65535 < length data \<or> \<not> pbuf_ok then []
          else if data \<noteq> [] \<and> drop_bit 4 (hd data) = 4 then [Pbuf_alloc data, Ip_input data] @ (if stack_ok then [] else [Pbuf_free])
          else if data \<noteq> [] \<and> drop_bit 4 (hd data) = 6 \<and> netif_ip6addr t then [Pbuf_alloc data, Ip6_input data] @ (if stack_ok then [] else [Pbuf_free])
          else [Pbuf_alloc data, Pbuf_free])
     | Some (local, remote, is_dns, payload) \<Rightarrow>
         (\<exists>c' msgs. t' = t\<lparr>tun_udpgw := (tun_udpgw t)\<lparr>udpgw_client := c'\<rparr>\<rparr> \<and> acts = map Udpgw msgs \<and>
            submit_effect (udpgw_client (tun_udpgw t)) w (old @ here) mem alloc local remote is_dns payload c' msgs))"
proof -
  note inv = tun_run_inv(1) [OF assms(2,1)] and ug = tun_run_inv(4) [OF assms(2,1) refl]
  show ?thesis
  proof (cases "parse_device_udp_packet t data")
    case None
    then show ?thesis
      by (auto simp: device_read_handler_send_def process_device_udp_packet_def netif_input_func_def hd_conv_nth)
  next
    case (Some x)
    obtain local remote is_dns payload where x: "x = (local, remote, is_dns, payload)"
      by (cases x) auto
    note parse = Some [unfolded x]
    let ?c = "udpgw_client (tun_udpgw t)"
    have ip: "BAddr_ip local" "BAddr_ip remote" and len: "length payload \<le> udp_mtu ?c"
      using parse_kind [OF parse] tun_kind_ip inv by (auto simp: tun_inv_def)
    have fresh: "\<forall>p. mem = Some p \<longrightarrow> p \<notin> insert 0 (set (connections_list ?c))" and "\<forall>n a. alloc n = Some a \<longrightarrow> int (length a) = 4 * n"
      using assms(3) by (auto simp: may_submit_def)
    from submit_outcome [OF ug ip len this, of is_dns] obtain c' acts
      where "UdpGwClient_SubmitPacket mem alloc ?c local remote is_dns payload = Some (c', acts)"
        "submit_effect ?c w (old @ here) mem alloc local remote is_dns payload c' acts"
      by blast
    then show ?thesis
      using parse by (fastforce simp: device_read_handler_send_def process_device_udp_packet_def SocksUdpGwClient_SubmitPacket_def)
  qed
qed

text \<open>Whether a reply fits the device and the length fields of its headers.\<close>

fun reply_fits :: "nat \<Rightarrow> BAddr \<Rightarrow> nat \<Rightarrow> bool" where
  "reply_fits mtu (BAddr_IPv4 _ _) n = (n + 28 \<le> mtu \<and> n + 28 \<le> UINT16_MAX)"
| "reply_fits mtu (BAddr_IPv6 _ _) n = (n + 48 \<le> mtu \<and> n + 8 \<le> UINT16_MAX)"
| "reply_fits mtu _ n = False"

lemma handler_too_large:
  assumes "\<not> reply_fits (device_mtu t) local (length data)" "tun_kind ip6 local remote"
  shows "udpgw_client_handler_received t local remote data = (t, [])"
proof (cases "(ip6, local, remote)" rule: tun_kind.cases)
  case (1 ip6 ip port ip' port')
  have "length data > UINT16_MAX - (20 + 8) \<or> int (length data) > int (device_mtu t) - int (20 + 8)"
    using assms(1) 1 by auto
  then show ?thesis
    using 1 by (simp only: udpgw_client_handler_received.simps prod.inject if_True)
next
  case (2 ip6 ip port ip' port')
  have "length data > UINT16_MAX - 8 \<or> int (length data) > int (device_mtu t) - int (40 + 8)"
    using assms(1) 2 by auto
  then show ?thesis
    using 2 by (simp only: udpgw_client_handler_received.simps prod.inject if_True if_cancel)
qed (use assms(2) in auto)

text \<open>C3. A packet that the udpgw client receives for a connection is written to the device, if it fits, as a packet within
  its limit that the module itself would take back as one from the remote to the local address
  with the same payload; its headers and checksums are right. The addresses are of the same kind, as the code asserts.\<close>

theorem reply_delivered:
  assumes "tun_started t0 calls0 ai server" "tun_run t0 calls0 t l"
    "recv_interface_handler_send (udpgw_client (tun_udpgw t)) data = (c, acts)" "UG_received local remote payload \<in> set acts"
    "tun_deliver (t\<lparr>tun_udpgw := (tun_udpgw t)\<lparr>udpgw_client := c\<rparr>\<rparr>) acts = (t', out)" "udpgw_remote_server_addr t"
  shows "BAddr_type local = BAddr_type remote \<and>
    (if reply_fits (device_mtu t) local (length payload)
     then \<exists>pkt is_dns. out = [Tap_send pkt] \<and> length pkt \<le> device_mtu t \<and> parse_device_udp_packet t pkt = Some (remote, local, is_dns, payload)
     else out = [])"
proof -
  let ?c = "udpgw_client (tun_udpgw t)" and ?t = "t\<lparr>tun_udpgw := (tun_udpgw t)\<lparr>udpgw_client := c\<rparr>\<rparr>"
  note run = tun_run_inv [OF assms(2,1)]
  obtain w old here wire where "ug_inv ?c w old here wire"
    using run(3) by blast
  note table = ug_inv_parts(3) [OF this]
  obtain p where p: "p \<in> set (connections_list ?c)" "length payload \<le> udp_mtu ?c"
    "local = local_addr (conaddr_of ?c p)" "remote = remote_addr (conaddr_of ?c p)" "acts = [UG_recv_done, UG_received local remote payload]"
    using assms(3) table
  proof (cases rule: message_acts)
    case 1
    then show thesis
      using assms(4) by simp
  next
    case (2 p payload')
    then show thesis
      using assms(4) that [of p] by simp
  qed
  have kind: "tun_kind (netif_ip6addr t) local remote" and len: "length payload \<le> tun_udp_mtu t"
    using run(1) p by (auto simp: tun_inv_def Let_def)
  have out: "udpgw_client_handler_received ?t local remote payload = (t', out)"
    using assms(5) by (auto simp: p(5) udpgw_handler_received_def split: prod.splits)
  have size: "length (device_write_buf ?t) = device_mtu ?t" "device_mtu ?t = device_mtu t" "netif_ip6addr ?t = netif_ip6addr t"
    using run(2) by simp_all
  from kind consider (four) lip lport rip rport where "local = BAddr_IPv4 lip lport" "remote = BAddr_IPv4 rip rport"
    | (six) lip lport rip rport where "local = BAddr_IPv6 lip lport" "remote = BAddr_IPv6 rip rport" "netif_ip6addr t" "length lip = 16" "length rip = 16"
    by (cases "(netif_ip6addr t, local, remote)" rule: tun_kind.cases) auto
  then have "BAddr_type local = BAddr_type remote \<and> (reply_fits (device_mtu t) local (length payload) \<longrightarrow>
    (\<exists>t1 pkt is_dns. udpgw_client_handler_received ?t local remote payload = (t1, [Tap_send pkt]) \<and> length pkt \<le> device_mtu t \<and>
      parse_device_udp_packet t pkt = Some (remote, local, is_dns, payload)))"
  proof cases
    case four
    then show ?thesis
      using handler_received4 [of payload ?t t lip lport rip rport] size assms(6) len by (auto simp del: udpgw_client_handler_received.simps)
  next
    case six
    then show ?thesis
      using handler_received6 [of ?t payload lip rip t lport rport] size assms(6) len
      by (auto simp del: udpgw_client_handler_received.simps) (rule exI [of Not False], simp)
  qed
  moreover have "out = []" if "\<not> reply_fits (device_mtu t) local (length payload)"
    using handler_too_large [OF _ kind, of ?t payload] that out size by simp
  ultimately show ?thesis
    using out by auto
qed

text \<open>A packet of the stack goes to the device whole, in one piece or gathered, if it fits.\<close>

lemma copy_chain_eq:
  assumes "length b = mtu" "len \<le> mtu"
  shows "if len + length (concat ps) \<le> mtu then \<exists>b'. copy_chain mtu ps len b = (b', Some (len + length (concat ps))) \<and>
      take (len + length (concat ps)) b' = take len b @ concat ps
    else snd (copy_chain mtu ps len b) = None"
  using assms
proof (induction ps arbitrary: len b)
  case (Cons p ps)
  show ?case
  proof (cases "len + length p \<le> mtu")
    case True
    then show ?thesis
      using Cons.IH [of "put p len b" "len + length p"] Cons.prems by (auto simp: put_def add.assoc)
  qed simp
qed simp

lemma netif_output_sends:
  assumes "\<not> quitting t" "ps \<noteq> []" "length (device_write_buf t) = device_mtu t"
  shows "snd (common_netif_output t ps) = (if length (concat ps) \<le> device_mtu t then [Tap_send (concat ps)] else [])"
  using assms copy_chain_eq [of "device_write_buf t" "device_mtu t" 0 ps]
  by (cases ps rule: remdups_adj.cases) (auto simp: common_netif_output_def split: if_splits prod.splits option.splits)

section \<open>Witnesses\<close>

text \<open>A module with a device for packets of 32 bytes, and a UDP packet of two bytes from 10.0.0.1 to 10.0.0.2.\<close>

definition sample_tun :: "SocksUdpGwClient \<Rightarrow> tun2socks" where
  "sample_tun g = \<lparr>udpgw_remote_server_addr = True, udpgw_transparent_dns = False, netif_ip6addr = False, netif_ipaddr = 0, tun_udp_mtu = 4,
     quitting = False, device_mtu = 32, device_write_buf = replicate 32 0, tun_udpgw = g\<rparr>"

definition sample_udp_packet :: bytes where
  "sample_udp_packet = [0x45, 0, 0, 30, 0, 0, 0, 0, 64, 17, 0x66, 0xCD, 10, 0, 0, 1, 10, 0, 0, 2, 0, 1, 0, 2, 0, 10, 0xE4, 0xCC, 7, 8]"

lemma sample_parse:
  "parse_device_udp_packet (sample_tun g) sample_udp_packet = Some (BAddr_IPv4 0x0100000A 0x0100, BAddr_IPv4 0x0200000A 0x0200, False, [7, 8])"
proof -
  have "device_udp4 (sample_tun g) sample_udp_packet = Some (BAddr_IPv4 0x0100000A 0x0100, BAddr_IPv4 0x0200000A 0x0200, False, [7, 8])"
    unfolding sample_tun_def by code_simp
  moreover have "drop_bit 4 (sample_udp_packet ! 0) = 4" "length sample_udp_packet = 30"
    by code_simp+
  ultimately show ?thesis
    by (simp add: parse_device_udp_packet_def Let_def) (simp add: sample_tun_def)
qed

definition sample_udp6_packet :: bytes where
  "sample_udp6_packet = [0x60, 0, 0, 0, 0, 10, 17, 64] @ replicate 15 0 @ [1] @ replicate 15 0 @ [2] @ [0, 1, 0, 2, 0, 10, 0xF8, 0xCC, 7, 8]"

lemma sample_parse6:
  "parse_device_udp_packet ((sample_tun g)\<lparr>netif_ip6addr := True\<rparr>) sample_udp6_packet =
     Some (BAddr_IPv6 (replicate 15 0 @ [1]) 0x0100, BAddr_IPv6 (replicate 15 0 @ [2]) 0x0200, False, [7, 8])"
proof -
  have "device_udp6 ((sample_tun g)\<lparr>netif_ip6addr := True\<rparr>) sample_udp6_packet =
      Some (BAddr_IPv6 (replicate 15 0 @ [1]) 0x0100, BAddr_IPv6 (replicate 15 0 @ [2]) 0x0200, False, [7, 8])"
    unfolding sample_tun_def by code_simp
  moreover have "drop_bit 4 (sample_udp6_packet ! 0) = 6" "length sample_udp6_packet = 50"
    by code_simp+
  ultimately show ?thesis
    by (simp add: parse_device_udp_packet_def Let_def) (simp add: sample_tun_def)
qed

definition sample_tun0 :: tun2socks where
  "sample_tun0 = fst (the (run_udpgw True undefined undefined (\<lambda>_. sample_qflow) 8 BAddr_None sample_auth (BAddr_IPv4 0 0) (sample_tun undefined)))"

lemma sample_tun_run:
  obtains g where "run_udpgw True undefined undefined (\<lambda>_. sample_qflow) 8 BAddr_None sample_auth (BAddr_IPv4 0 0) (sample_tun undefined) =
      Some (sample_tun g, [Connector_init])" "sample_tun0 = sample_tun g" "connections_list (udpgw_client g) = []"
    "num_connections (udpgw_client g) = 0" "max_connections (udpgw_client g) = 256" "udpgw_mtu (udpgw_client g) = 25"
    "send_buffer_size (udpgw_client g) = 8"
proof -
  have fq: "PacketPassFairQueue_Init 27 False 1 (\<lambda>_. sample_qflow) \<noteq> None"
    by (simp add: PacketPassFairQueue_Init_def unsigned_minus_1_eq_mask mask_eq_exp_minus_1)
  then obtain c where c: "UdpGwClient_Init 4 256 8 10000 undefined (\<lambda>_. sample_qflow) = Some c" "connections_list c = []" "num_connections c = 0"
    "max_connections c = 256" "udpgw_mtu c = 25" "send_buffer_size c = 8"
    by (auto simp: UdpGwClient_Init_def Let_def sample_mtu split: option.splits)
  then obtain g where g: "SocksUdpGwClient_Init True undefined 4 256 8 10000 undefined (\<lambda>_. sample_qflow) BAddr_None sample_auth (BAddr_IPv4 0 0) =
      Some (g, [Connector_init])" "udpgw_client g = c"
    by (auto simp: SocksUdpGwClient_Init_def try_connect_def BSocksClient_Init_def Let_def)
  have "run_udpgw True undefined undefined (\<lambda>_. sample_qflow) 8 BAddr_None sample_auth (BAddr_IPv4 0 0) (sample_tun undefined) =
      Some (sample_tun g, [Connector_init])"
    using g(1) by (simp add: run_udpgw_def run_udp_mtu_def sample_tun_def sample_mtu)
  moreover from this have "sample_tun0 = sample_tun g"
    by (simp add: sample_tun0_def)
  ultimately show thesis
    using that g(2) c(2-6) by blast
qed

lemma sample_tun_started: "tun_started sample_tun0 [Connector_init] sample_auth (BAddr_IPv4 0 0)"
proof -
  obtain g where "run_udpgw True undefined undefined (\<lambda>_. sample_qflow) 8 BAddr_None sample_auth (BAddr_IPv4 0 0) (sample_tun undefined) =
      Some (sample_tun g, [Connector_init])" "sample_tun0 = sample_tun g"
    by (rule sample_tun_run)
  moreover have "(0::int) < 8" "(8::int) \<le> 1000" "int (device_mtu (sample_tun undefined)) \<le> INT_MAX"
    "length (device_write_buf (sample_tun undefined)) = device_mtu (sample_tun undefined)"
    by (simp_all add: sample_tun_def)
  ultimately show ?thesis
    unfolding tun_started_def by metis
qed

theorem device_udp_verified_witness:
  "ones_sum (word_sum (pseudo_header 0x0100000A 0x0200000A 10 @ drop 20 sample_udp_packet)) = 65535 \<and>
   ones_sum (word_sum (pseudo_header6 (replicate 15 0 @ [1]) (replicate 15 0 @ [2]) 10 @ drop 40 sample_udp6_packet)) = 65535"
proof -
  have four: "drop_bit 4 (sample_udp_packet ! 0) = 4" "map_option snd (ipv4_check sample_udp_packet) = Some (drop 20 sample_udp_packet)"
    and six: "drop_bit 4 (sample_udp6_packet ! 0) = 6" "map_option snd (ipv6_check sample_udp6_packet) = Some (drop 40 sample_udp6_packet)"
    and len: "length sample_udp_packet = 30" "length sample_udp6_packet = 50"
    by code_simp+
  from device_udp_verified [OF sample_parse [of undefined]] four(1) obtain h p where "ipv4_check sample_udp_packet = Some (h, p)"
    "source_address h = 0x0100000A" "destination_address h = 0x0200000A"
    "ones_sum (word_sum (pseudo_header (source_address h) (destination_address h) (8 + length [7 :: u8, 8]) @ take (8 + length [7 :: u8, 8]) p)) = 65535"
    by auto
  moreover from device_udp_verified [OF sample_parse6 [of undefined]] six(1) obtain h6 p6 where "ipv6_check sample_udp6_packet = Some (h6, p6)"
    "ip6_source_address h6 = replicate 15 0 @ [1]" "ip6_destination_address h6 = replicate 15 0 @ [2]"
    "ones_sum (word_sum (pseudo_header6 (ip6_source_address h6) (ip6_destination_address h6) (8 + length [7 :: u8, 8]) @ take (8 + length [7 :: u8, 8]) p6)) = 65535"
    by auto
  ultimately show ?thesis
    using four(2) six(2) len by auto
qed

theorem device_read_forwards_witness:
  "(\<exists>t'. device_read_handler_send (Some 1) sample_alloc True True sample_tun0 sample_udp_packet = Some (t', [Device_done]) \<and>
      connections_list (udpgw_client (tun_udpgw t')) = [1]) \<and>
   device_read_handler_send (Some 1) sample_alloc True False sample_tun0 [0x45] =
     Some (sample_tun0, [Device_done, Pbuf_alloc [0x45], Ip_input [0x45], Pbuf_free]) \<and>
   device_read_handler_send (Some 1) sample_alloc True False sample_tun0 [0x60] = Some (sample_tun0, [Device_done, Pbuf_alloc [0x60], Pbuf_free])"
proof -
  obtain g where g: "sample_tun0 = sample_tun g" "connections_list (udpgw_client g) = []" "num_connections (udpgw_client g) = 0"
    "max_connections (udpgw_client g) = 256" "udpgw_mtu (udpgw_client g) = 25" "send_buffer_size (udpgw_client g) = 8"
    by (rule sample_tun_run)
  have flow: "PacketProtoFlow_Init 25 8 sample_alloc \<noteq> None"
    by (simp add: PacketProtoFlow_Init_def PACKETPROTO_ENCLEN_def PacketBuffer_Init_def ChunkBuffer2_calc_blocks_def bdivide_up_def Let_def)
  have tun: "tun_udpgw sample_tun0 = g" "\<not> netif_ip6addr sample_tun0"
    by (simp_all add: g(1) sample_tun_def)
  have may: "may_submit (udpgw_client (tun_udpgw sample_tun0)) (Some 1) sample_alloc"
    unfolding tun by (simp add: may_submit_def g(2))
  note forwards = device_read_forwards [OF sample_tun_started tun_start may]
  have "parse_device_udp_packet sample_tun0 [0x45] = None" "parse_device_udp_packet sample_tun0 [0x60] = None"
    by (simp_all add: parse_device_udp_packet_def device_udp4_def device_udp6_def Let_def)
  with forwards [of True False "[0x45]"] forwards [of True False "[0x60]"] tun(2)
  have "device_read_handler_send (Some 1) sample_alloc True False sample_tun0 [0x45] =
      Some (sample_tun0, [Device_done, Pbuf_alloc [0x45], Ip_input [0x45], Pbuf_free])"
    "device_read_handler_send (Some 1) sample_alloc True False sample_tun0 [0x60] = Some (sample_tun0, [Device_done, Pbuf_alloc [0x60], Pbuf_free])"
    by auto
  moreover have "\<exists>t'. device_read_handler_send (Some 1) sample_alloc True True sample_tun0 sample_udp_packet = Some (t', [Device_done]) \<and>
      connections_list (udpgw_client (tun_udpgw t')) = [1]"
    using forwards [of True True sample_udp_packet, unfolded sample_parse [of g, folded g(1)] option.case prod.case submit_effect_def Let_def tun g(2-6)] flow
    by (auto simp: g(2-6))
  ultimately show ?thesis
    by blast
qed

lemma receive_message:
  assumes "ug_table c" "p \<in> set (connections_list c)" "length payload \<le> udp_mtu c" "remote_addr (conaddr_of c p) = BAddr_IPv4 ip port"
  shows "\<exists>c'. recv_interface_handler_send c (udpgw_message 0 (conid_of c p) (BAddr_IPv4 ip port) payload) =
    (c', [UG_recv_done, UG_received (local_addr (conaddr_of c p)) (BAddr_IPv4 ip port) payload])"
proof -
  have "find_connection_by_conid c (conid_of c p) = Some p"
    using ug_table_find(1) [OF assms(1)] assms(2) by simp
  moreover have "BAddr_CompareOrder (BAddr_IPv4 ip port) (BAddr_IPv4 ip port) = 0"
    by (simp add: BAddr_CompareOrder_def B_COMPARE_def)
  ultimately show ?thesis
    using parse_message [of "BAddr_IPv4 ip port" 0 "conid_of c p" payload] assms(3,4)
    by (simp add: recv_interface_handler_send_def ltoh_id del: udpgw_message.simps)
qed

text \<open>The first packet of a connection is read, and an answer comes back.\<close>

lemma sample_tun_connected:
  obtains t l where "tun_run sample_tun0 [Connector_init] t l" "connections_list (udpgw_client (tun_udpgw t)) = [1]"
    "conaddr_of (udpgw_client (tun_udpgw t)) 1 = \<lparr>local_addr = BAddr_IPv4 0x0100000A 0x0100, remote_addr = BAddr_IPv4 0x0200000A 0x0200\<rparr>"
    "device_mtu t = 32" "udpgw_remote_server_addr t" "udp_mtu (udpgw_client (tun_udpgw t)) = 4"
proof -
  obtain g where g: "sample_tun0 = sample_tun g" "connections_list (udpgw_client g) = []" "num_connections (udpgw_client g) = 0"
    "max_connections (udpgw_client g) = 256" "udpgw_mtu (udpgw_client g) = 25" "send_buffer_size (udpgw_client g) = 8"
    by (rule sample_tun_run)
  let ?a = "\<lparr>local_addr = BAddr_IPv4 0x0100000A 0x0100, remote_addr = BAddr_IPv4 0x0200000A 0x0200\<rparr>"
  have flow: "PacketProtoFlow_Init 25 8 sample_alloc \<noteq> None"
    by (simp add: PacketProtoFlow_Init_def PACKETPROTO_ENCLEN_def PacketBuffer_Init_def ChunkBuffer2_calc_blocks_def bdivide_up_def Let_def)
  have tun: "tun_udpgw sample_tun0 = g" "device_mtu sample_tun0 = 32" "udpgw_remote_server_addr sample_tun0" "tun_udp_mtu sample_tun0 = 4"
    by (simp_all add: g(1) sample_tun_def)
  note start = tun_run_inv [OF tun_start sample_tun_started]
  obtain w old here wire where ug: "ug_inv (udpgw_client g) w old here wire"
    using start(3) unfolding tun by blast
  have may: "may_submit (udpgw_client (tun_udpgw sample_tun0)) (Some 1) sample_alloc"
    unfolding tun by (simp add: may_submit_def g(2))
  obtain c' where c': "UdpGwClient_SubmitPacket (Some 1) sample_alloc (udpgw_client g) (BAddr_IPv4 0x0100000A 0x0100) (BAddr_IPv4 0x0200000A 0x0200) False [7, 8] =
      Some (c', [])" "connections_list c' = [1]" "conaddr_of c' 1 = ?a" "udp_mtu c' = udp_mtu (udpgw_client g)"
    using submit_room [OF ug, of "BAddr_IPv4 0x0100000A 0x0100" "BAddr_IPv4 0x0200000A 0x0200" "Some 1" sample_alloc False "[7, 8]"] flow g(2-6)
    by (auto simp: valid_conaddr_def Let_def)
  let ?t = "sample_tun0\<lparr>tun_udpgw := g\<lparr>udpgw_client := c'\<rparr>\<rparr>"
  have "device_read_handler_send (Some 1) sample_alloc True True sample_tun0 sample_udp_packet = Some (?t, [Device_done])"
    using sample_parse [of g, folded g(1)] c'(1) tun(1)
    by (simp add: device_read_handler_send_def process_device_udp_packet_def SocksUdpGwClient_SubmitPacket_def)
  from tun_read [OF tun_start may this] have "tun_run sample_tun0 [Connector_init] ?t ([], [Connector_init], [], [], [], [], [])"
    by simp
  moreover have "udp_mtu (udpgw_client g) = 4"
    using start(1) unfolding tun_inv_def tun by simp
  ultimately show thesis
    using that [of ?t] c' tun by simp
qed

theorem reply_delivered_witness:
  "\<exists>t pkt is_dns. connections_list (udpgw_client (tun_udpgw t)) = [1] \<and> length pkt \<le> 32 \<and>
    parse_device_udp_packet t pkt = Some (BAddr_IPv4 0x0200000A 0x0200, BAddr_IPv4 0x0100000A 0x0100, is_dns, [9])"
proof -
  obtain t l where t: "tun_run sample_tun0 [Connector_init] t l" "connections_list (udpgw_client (tun_udpgw t)) = [1]"
    "conaddr_of (udpgw_client (tun_udpgw t)) 1 = \<lparr>local_addr = BAddr_IPv4 0x0100000A 0x0100, remote_addr = BAddr_IPv4 0x0200000A 0x0200\<rparr>"
    "device_mtu t = 32" "udpgw_remote_server_addr t" "udp_mtu (udpgw_client (tun_udpgw t)) = 4"
    by (rule sample_tun_connected)
  let ?c = "udpgw_client (tun_udpgw t)"
  have "ug_table ?c"
    using tun_run_inv(3) [OF t(1) sample_tun_started] ug_inv_parts(3) by blast
  from receive_message [OF this, of 1 "[9]"] t(2,3,6) obtain c
    where recv: "recv_interface_handler_send ?c (udpgw_message 0 (conid_of ?c 1) (BAddr_IPv4 0x0200000A 0x0200) [9]) =
      (c, [UG_recv_done, UG_received (BAddr_IPv4 0x0100000A 0x0100) (BAddr_IPv4 0x0200000A 0x0200) [9]])"
    by auto
  obtain t' out where "tun_deliver (t\<lparr>tun_udpgw := (tun_udpgw t)\<lparr>udpgw_client := c\<rparr>\<rparr>)
      [UG_recv_done, UG_received (BAddr_IPv4 0x0100000A 0x0100) (BAddr_IPv4 0x0200000A 0x0200) [9]] = (t', out)"
    by fastforce
  from reply_delivered [OF sample_tun_started t(1) recv _ this t(5)] t(2,4) show ?thesis
    by force
qed

end
