(* ===== verification/Spec2Isabelle.thy ===== *)
theory Spec2Isabelle
  imports NetProto Addr Bsize Bavl DList Pending FlowIf ChunkBuffer PacketProto FlowBuffers FairQueue TunUdp
begin

text \<open>
  The packet path of the native tun2socks module of the Android client, below
  \<^verbatim>\<open>src/Android/badvpn/\<close>. The module reads IP packets from the tunnel device, carries TCP connections
  through a SOCKS server and UDP packets through a udpgw server that is itself reached
  through the SOCKS server. All of it runs in one thread: an object never calls its user back
  directly but sets a job, and the reactor runs the jobs last in, first out.

  The module is built little endian (\<^verbatim>\<open>BADVPN_LITTLE_ENDIAN\<close>) with the symbol \<^verbatim>\<open>PSIPHON\<close> defined, and that is
  the program modelled. Machine integers are words of their width where the code relies on it, and
  natural numbers where an assertion of the code bounds them. A handler is a function from the
  state of its object to the new state and the calls it makes on other objects, in order.
  Memory allocation, the name resolver and the operating system are arguments of the definitions.

  \<^item> \<open>Prelude\<close>, \<open>ByteOrder\<close>: lemmas on lists, options and words, and the loads, stores and conversions of
    \<^verbatim>\<open>misc/read_write_int.h\<close> and \<^verbatim>\<open>misc/byteorder.h\<close>.
  \<^item> \<open>NetProto\<close>: \<^verbatim>\<open>misc/ipv4_proto.h\<close>, \<^verbatim>\<open>misc/ipv6_proto.h\<close>, \<^verbatim>\<open>misc/udp_proto.h\<close>. The checksum loops compute the one's
    complement sum of the words; the header check accepts only verified headers within the data;
    the UDP checksums against RFC 768.
  \<^item> \<open>Addr\<close>: \<^verbatim>\<open>system/BAddr.h\<close>, \<^verbatim>\<open>misc/compare.h\<close>. Comparison is a linear order, printing and parsing.
  \<^item> \<open>Bsize\<close>: \<^verbatim>\<open>misc/bsize.h\<close>, \<^verbatim>\<open>misc/balign.h\<close> and the size limit of \<^verbatim>\<open>protocol/udpgw_proto.h\<close>: bounds and overflow.
  \<^item> \<open>Bavl\<close>: \<^verbatim>\<open>structure/BAVL.h\<close>. The tree with parent links is a zipper; the loops that climb it are
    recursions on the path. Insertion, removal and lookup implement a dictionary keyed by any
    comparator (locales \<open>comparator\<close>, \<open>dictionary\<close>, \<open>bavl_keyed\<close>); the height is logarithmic.
  \<^item> \<open>DList\<close>, \<open>Pending\<close>: \<^verbatim>\<open>structure/LinkedList1.h\<close> at the level of pointers, \<^verbatim>\<open>base/BPending.c\<close> on a list whose
    unlinked nodes point to themselves; they refine lists and a stack of distinct jobs.
  \<^item> \<open>FlowIf\<close>: the four interfaces of \<^verbatim>\<open>flow/\<close> (packet and stream, pass and receive) as state machines with their
    jobs; the assertions of the code hold in every interleaving of user, provider and job queue.
  \<^item> \<open>ChunkBuffer\<close>: \<^verbatim>\<open>structure/ChunkBuffer2.h\<close>, a ring of blocks that holds the packets with their lengths
    in memory; it refines a queue of packets.
  \<^item> \<open>PacketProto\<close>: \<^verbatim>\<open>flow/PacketProtoEncoder.c\<close> and \<^verbatim>\<open>flow/PacketProtoDecoder.c\<close>, framing by a length prefix; decoding
    a stream of frames gives the packets back however it is cut.
  \<^item> \<open>FlowBuffers\<close>: \<^verbatim>\<open>flow/PacketBuffer.c\<close>, \<^verbatim>\<open>flow/BufferWriter.c\<close>, \<^verbatim>\<open>flow/SinglePacketBuffer.c\<close>,
    \<^verbatim>\<open>flow/PacketStreamSender.c\<close>, \<^verbatim>\<open>flow/PacketPassConnector.c\<close> and their composition \<^verbatim>\<open>flow/PacketProtoFlow.c\<close>.
  \<^item> \<open>FairQueue\<close>: \<^verbatim>\<open>flow/PacketPassFairQueue.c\<close> with its tree of queued flows; the tree is a \<open>bavl_keyed\<close>
    whose order is read through the flows' times.
  \<^item> \<open>SocksClient\<close>: \<^verbatim>\<open>socksclient/BSocksClient.c\<close>; it refines a description of the SOCKS5 exchange as a function of
    the bytes received, and keeps account of what it holds.

  Loops. The climbing loops of the tree, the checksum loops and the decoder loop are total functions, so
  that termination is part of each statement about them; no fuel is used. The carry loop of the
  checksums is defined with a measure.

  Not modelled: the bundled TCP stack \<^verbatim>\<open>lwip/\<close>, sockets, signals, timers and the reactor (input and
  output), logging and the \<^verbatim>\<open>DebugObject\<close> counters, the badvpn programs the Android build does not
  build, the Java user interface, and the separate Windows client, server and automation code.
\<close>

section \<open>From the client's messages to the server's decoder\<close>

lemma partial_take:
  assumes "length m \<le> mtu" "length m \<le> UINT16_MAX" "k < 2 + length m"
  shows "partial mtu (take k (frame m))"
proof (cases "k < 2")
  case False
  then obtain n where k: "k = n + 2"
    by (metis add.commute le_Suc_ex not_less)
  then have "take k (frame m) = mem16 (of_nat (length m)) @ take n m"
    by (simp add: frame_def length_mem)
  moreover have "unat (of_nat (length m) :: u16) = length m"
    using assms(2) by (simp add: unat_of_nat_u16)
  ultimately show ?thesis
    using assms k by (simp add: partial_def load_mem length_mem)
qed (simp add: partial_def)

text \<open>What was decoded from a stream of frames that ends within a frame.\<close>

lemma frames_decoded:
  assumes "concat (map frame outs) @ r = concat (map frame ps) @ s" "partial mtu s" "\<forall>p\<in>set outs \<union> set ps. length p \<le> UINT16_MAX"
  shows "\<exists>qs. ps = outs @ qs"
  using assms
proof (induction outs arbitrary: ps)
  case (Cons p outs)
  show ?case
  proof (cases ps)
    case Nil
    then show ?thesis
      using Cons.prems not_partial_frame [of p mtu "concat (map frame outs) @ r"] by simp
  next
    case (Cons q ps')
    with Cons.prems frame_inject [of p "concat (map frame outs) @ r" q "concat (map frame ps') @ s"]
    have "p = q" "concat (map frame outs) @ r = concat (map frame ps') @ s"
      by auto
    with Cons.IH [of ps'] Cons.prems Cons show ?thesis
      by auto
  qed
qed simp

definition unframe :: "flow \<times> bytes \<Rightarrow> flow \<times> bytes" where
  "unframe = (\<lambda>(p, d). (p, drop 2 d))"

lemma drop_frame [simp]: "drop 2 (frame m) = m"
  by (simp add: frame_def length_mem)

lemma of_flow_unframe: "of_flow p (map unframe xs) = map (drop 2) (of_flow p xs)"
  by (induction xs) (auto simp: unframe_def)

lemma in_of_flow: "d \<in> set (of_flow p xs) \<longleftrightarrow> (p, d) \<in> set xs"
  by (induction xs) auto

text \<open>Every completed packet is the frame of a message within the limit.\<close>

lemma completed_frames:
  assumes inv: "ug_inv c w old here wire" and x: "x \<in> set (old @ here)"
  shows "snd x = frame (snd (unframe x))" "length (snd (unframe x)) \<le> udpgw_mtu c"
proof -
  obtain p d where pd: "x = (p, d)"
    by (cases x)
  have logs: "fst ` set (old @ here) \<subseteq> insert 0 (set (connections_list c))" "\<forall>x\<in>set w. length (snd x) \<le> udpgw_mtu c"
    using ug_inv_parts(5) [OF inv] by (simp_all add: ug_logs_def)
  have "\<exists>m. d = frame m \<and> length m \<le> udpgw_mtu c"
  proof (cases "p = 0")
    case True
    then have "d = keepalive_packet c"
      using ug_inv_parts(5) [OF inv] x pd unfolding ug_logs_def by blast
    then show ?thesis
      using ug_inv_parts(4) [OF inv] by (intro exI [of _ "[1, 0, 0]"]) (simp add: ug_params_def)
  next
    case False
    then have "p \<in> set (connections_list c)"
      using logs(1) x pd by force
    then have "in_order w (old @ here) p"
      using ug_inv_conn(1) [OF inv] by (simp add: ug_flow_def Let_def)
    then have "d \<in> frame ` set (of_flow p w)"
      using x pd unfolding in_order_def by (metis in_of_flow image_mono image_set set_take_subset subsetD)
    then obtain m where "d = frame m" "(p, m) \<in> set w"
      by (auto simp: in_of_flow)
    then show ?thesis
      using logs(2) by force
  qed
  then show "snd x = frame (snd (unframe x))" "length (snd (unframe x)) \<le> udpgw_mtu c"
    by (auto simp: pd unframe_def)
qed

lemma held_frame:
  assumes inv: "ug_inv c w old here wire" and d: "con_in (send_connector c) = Some d"
  shows "\<exists>m. d = frame m \<and> length m \<le> udpgw_mtu c"
proof -
  note q = ug_queueD [OF ug_inv_parts(1) [OF inv]]
  obtain f where f: "sending_flow (send_queue c) = Some f"
    using q(7) d by (cases "sending_flow (send_queue c)") auto
  then have pk: "flow_packet c f = Some d" and fl: "f \<in> insert 0 (set (connections_list c))"
    using q(1,3) q(8) [OF f] d by (auto simp: fq_inv_defs)
  show ?thesis
  proof (cases "f = 0")
    case True
    then show ?thesis
      using pk ug_inv_parts(4) [OF inv] by (intro exI [of _ "[1, 0, 0]"]) (auto simp: flow_packet_def ug_params_def split: if_splits)
  next
    case False
    then have f: "f \<in> set (connections_list c)"
      using fl by simp
    obtain m ms where m: "unsent w (old @ here) f = m # ms" "d = frame m"
      using flow_packet_conn [OF ug_inv_conn [OF inv f]] pk by (auto split: list.splits)
    then have "m \<in> set (of_flow f w)"
      unfolding unsent_def by (metis in_set_dropD list.set_intros(1))
    then show ?thesis
      using m(2) ug_inv_parts(5) [OF inv] by (force simp: in_of_flow ug_logs_def)
  qed
qed

text \<open>A packet decoder that reads the client's stream, cut in whatever pieces, decodes exactly the messages the client
  has completed since the server was connected, in order, and the messages of one connection in the
  order in which they were written, each once over all servers.\<close>

lemma udpgw_stream_decodes:
  assumes "UdpGwClient_Init mtu max_con buffer_size keepalive_time memory flow_memory = Some c0" "ug_args mtu max_con buffer_size"
    "ug_run c0 c w old here wire" "have_server c" "PacketProtoDecoder_Init (udpgw_mtu c) malloc = Some (enc0, acts0)"
    "\<forall>n a. malloc n = Some a \<longrightarrow> length a = n" "dec_run enc0 wire outs enc busy"
  shows "(\<exists>rest. map (snd \<circ> unframe) here = outs @ rest \<and> (\<not> busy \<longrightarrow> rest = [])) \<and>
    (\<forall>p\<in>set (connections_list c). \<exists>rest. of_flow p w = of_flow p (map unframe old) @ of_flow p (map unframe here) @ rest)"
proof -
  have inv: "ug_inv c w old here wire"
    by (rule ug_run_inv [OF assms(3) init_ug_inv [OF assms(1,2)]])
  let ?ms = "map (snd \<circ> unframe) here"
  have mtu: "udpgw_mtu c \<le> UINT16_MAX"
    using ug_inv_parts(4) [OF inv] by (simp add: ug_params_def)
  have frames: "map snd here = map frame ?ms"
    using completed_frames(1) [OF inv] by simp
  have "length (snd (unframe x)) \<le> UINT16_MAX" if "x \<in> set here" for x
    using completed_frames(2) [OF inv, of x] that mtu by simp
  then have small: "\<forall>m\<in>set ?ms. length m \<le> UINT16_MAX"
    by (simp only: set_map comp_apply ball_simps) blast
  obtain s where wire: "wire = concat (map frame ?ms) @ s" and part: "partial (udpgw_mtu c) s"
  proof (cases "con_in (send_connector c)")
    case None
    then show thesis
      using that [of "[]"] ug_inv_parts(2) [OF inv] assms(4) frames by (simp add: ug_link_def Let_def)
  next
    case (Some d)
    then have link: "wire = concat (map snd here) @ take (nat (in_used (send_sender c))) d" "nat (in_used (send_sender c)) < length d"
      using ug_inv_parts(2) [OF inv] assms(4) by (auto simp: ug_link_def Let_def)
    obtain m where "d = frame m" "length m \<le> udpgw_mtu c"
      using held_frame [OF inv Some] by blast
    then show thesis
      using that link frames partial_take [of m "udpgw_mtu c" "nat (in_used (send_sender c))"] mtu by simp
  qed
  have outs: "wire = concat (map frame outs) @ unread enc" "\<forall>p\<in>set outs. length p \<le> UINT16_MAX" "\<not> busy \<Longrightarrow> partial (udpgw_mtu c) (unread enc)"
    using dec_run_ok [OF assms(7) Init_ok(1,2) [OF assms(5,6)]] Init_ok(3) [OF assms(5,6)] mtu by auto
  obtain rest where rest: "?ms = outs @ rest"
    using frames_decoded [OF trans [OF outs(1) [symmetric] wire] part] outs(2) small by (meson UnE)
  moreover have "rest = []" if "\<not> busy"
    using frames_unique [OF trans [OF outs(1) [symmetric] wire] outs(3) [OF that] part] outs(2) small rest
    by (metis UnE append_self_conv)
  moreover have "\<exists>rest. of_flow p w = of_flow p (map unframe old) @ of_flow p (map unframe here) @ rest" if "p \<in> set (connections_list c)" for p
  proof -
    have "map frame (take (length (of_flow p (old @ here))) (of_flow p w)) = of_flow p (old @ here)"
      using ug_inv_conn(1) [OF inv that] by (simp add: ug_flow_def Let_def in_order_def)
    then have "map (drop 2) (of_flow p (old @ here)) = map (drop 2 \<circ> frame) (take (length (of_flow p (old @ here))) (of_flow p w))"
      by (metis list.map_comp)
    then have "map (drop 2) (of_flow p old) @ map (drop 2) (of_flow p here) = take (length (of_flow p (old @ here))) (of_flow p w)"
      by (simp add: comp_def)
    then show ?thesis
      unfolding of_flow_unframe append.assoc [symmetric] by (metis append_take_drop_id)
  qed
  ultimately show ?thesis
    by blast
qed

text \<open>The keep-alive message of the sample client, read by a decoder in one piece.\<close>

lemma sample_keepalive_read:
  assumes "PacketProtoDecoder_Init n (\<lambda>n. Some (replicate n 0)) = Some (enc0, acts0)" "3 \<le> n"
  obtains enc where "dec_run enc0 [3, 0, 1, 0, 0] [[1, 0, 0]] enc True"
proof -
  have m: "3 \<le> output_mtu enc0" "5 \<le> buf_size enc0" "buf_start enc0 = 0" "buf_used enc0 = 0"
    using assms by (auto simp: PacketProtoDecoder_Init_def PACKETPROTO_ENCLEN_def Let_def)
  have fr: "frame [1, 0, 0] = [3, 0, 1, 0, 0]"
    by (simp add: frame_def mem16_eq)
  then have fit: "length (frame [1, 0, 0]) \<le> buf_size enc0 - (buf_start enc0 + buf_used enc0)"
    using m by simp
  have ok: "dec_ok enc0" "unread enc0 = []"
    using Init_ok [OF assms(1)] by auto
  note st = stream_unread [OF ok(1) fit]
  obtain enc' where "decoder_stream enc0 (frame [1, 0, 0]) = (enc', [Dec_send [1, 0, 0]])"
    using process_whole [OF st(1), of "[1, 0, 0]" "[]"] st(2,3,4) ok m by auto
  then show thesis
    using that dec_stream [OF dec_start _ fit] by (fastforce simp: fr)
qed

text \<open>C1. While the udpgw client has a server, the bytes sent over the connection to the SOCKS server are what the SOCKS
  protocol demands for a connection to the udpgw server, whose positive reply was complete, and
  then a stream from which a packet decoder, however it is cut, decodes exactly the messages the
  client has completed since, in order; the messages of one connection are, over all servers, in the order
  in which they were written and each once.\<close>

theorem udpgw_tunnel:
  assumes "SocksUdpGwClient_Init connector_init mem mtu max_con buffer_size keepalive_time memory flow_memory server ai remote = Some (g0, calls0)"
    "ug_args mtu max_con buffer_size" "wf_args ai remote" "sg_run g0 calls0 g (past, calls, xs, w, old, here, wire)" "have_server (udpgw_client g)"
    "PacketProtoDecoder_Init (udpgw_mtu (udpgw_client g)) malloc = Some (enc0, acts0)" "\<forall>n a. malloc n = Some a \<longrightarrow> length a = n"
    "dec_run enc0 wire outs enc busy"
  shows "socks_spec ai remote xs = (sent calls, Up) \<and>
    (\<exists>rest. map (snd \<circ> unframe) here = outs @ rest \<and> (\<not> busy \<longrightarrow> rest = [])) \<and>
    (\<forall>p\<in>set (connections_list (udpgw_client g)).
      \<exists>rest. of_flow p w = of_flow p (map unframe old) @ of_flow p (map unframe here) @ rest)"
proof -
  note init = init_sg_inv [OF assms(1)]
  have inv: "sg_inv ai remote g past calls xs" and run: "ug_run (udpgw_client g0) (udpgw_client g) w old here wire"
    using sg_run_inv [OF assms(4) init(1) init_ug_inv [OF init(2) assms(2)]] by auto
  have socks: "socks_run True ai remote (socks_client g) calls xs" "alive calls" "sstate (socks_client g) = STATE_UP"
    using inv assms(5) by (auto simp: sg_inv_def)
  have "phase ai remote (socks_client g) xs (sent calls)"
    using socks_run_inv [OF socks(1) assms(3)] socks(2) by (simp add: socks_inv_def)
  then have "socks_spec ai remote xs = (sent calls, Up)"
    using phase_spec [of ai remote "socks_client g" xs "sent calls"] socks(3) by simp
  with udpgw_stream_decodes [OF init(2) assms(2) run assms(5-8)] show ?thesis
    by blast
qed

text \<open>The timer of the sample client expires, the SOCKS client gets up, and the stream takes the keep-alive
  message in two parts.\<close>

abbreviation sample_zeros :: "nat \<Rightarrow> bytes option" where
  "sample_zeros \<equiv> \<lambda>n. Some (replicate n 0)"

lemma sample_keepalive_steps:
  obtains c1 c2 where "ug_step sample_ug c1 [] [] []" "UdpGwClient_ConnectServer sample_zeros c1 = (c2, True)"
    "ug_step c2 sample_keepalive [] [] []" "ug_step sample_keepalive (stream_done sample_keepalive 2) [] [] [3, 0]"
    "ug_step (stream_done sample_keepalive 2) (stream_done (stream_done sample_keepalive 2) 3) [] [(0, [3, 0, 1, 0, 0])] [1, 0, 0]"
proof -
  define c1 where "c1 = fst (send_monitor_handler 1 (sample_ug\<lparr>send_monitor := fst (monitor_timer_handler (send_monitor sample_ug))\<rparr>))"
  define c2 where "c2 = fst (UdpGwClient_ConnectServer sample_zeros c1)"
  have "ug_step sample_ug c1 [] [] []"
    unfolding c1_def by (rule step_timer) simp
  moreover have con: "UdpGwClient_ConnectServer sample_zeros c1 = (c2, True)"
    using connect_server [of c1] by (auto simp: c2_def)
  moreover have "ug_step c2 sample_keepalive [] [] []"
  proof -
    have c1: "keepalive_sending c1" "send_queue c1 = send_queue sample_ug" "keepalive_packet c1 = [3, 0, 1, 0, 0]"
      by (simp_all add: c1_def send_monitor_handler_def)
    then have "flow_packet c2 0 = Some [3, 0, 1, 0, 0]" "send_queue c2 = send_queue sample_ug"
      by (simp_all add: c2_def UdpGwClient_ConnectServer_def PacketProtoDecoder_Init_def Let_def flow_packet_def split: prod.split)
    then have "ug_step c2 (flow_send_job c2 0 [3, 0, 1, 0, 0]) [] [] []"
      by (intro step_flow_job) (simp_all add: sample_ug_eq(2))
    then show ?thesis
      by (simp add: sample_keepalive_def c2_def c1_def)
  qed
  moreover have "ug_step sample_keepalive (stream_done sample_keepalive 2) [] [] [3, 0]"
    using step_stream_some [OF sample_keepalive_eq(2), of 2] by (simp add: sample_keepalive_eq(4))
  moreover have "stream_done sample_keepalive 2 = sample_keepalive\<lparr>send_sender := \<lparr>in_len = 5, in_data = [3, 0, 1, 0, 0], in_used = 2\<rparr>\<rparr>"
    by (simp add: stream_done_def pss_output_handler_done_def pss_send_data_def sample_keepalive_eq(4))
  then have "ug_step (stream_done sample_keepalive 2) (stream_done (stream_done sample_keepalive 2) 3) [] [(0, [3, 0, 1, 0, 0])] [1, 0, 0]"
    using step_stream_all [of "stream_done sample_keepalive 2" 3 0 "[3, 0, 1, 0, 0]"] sample_keepalive_eq(2,3,5) by simp
  ultimately show thesis
    using that by blast
qed

lemma sample_tunnel:
  obtains g calls where "sg_run (sample_sg True) [Connector_init] g ([], calls, [5, 0, 5, 0, 0, 1, 9, 9, 9, 9, 8, 8],
      [], [], [(0, [3, 0, 1, 0, 0])], [3, 0, 1, 0, 0])" "udpgw_client g = stream_done (stream_done sample_keepalive 2) 3"
proof -
  obtain c1 c2 where c: "ug_step sample_ug c1 [] [] []" "UdpGwClient_ConnectServer sample_zeros c1 = (c2, True)"
    "ug_step c2 sample_keepalive [] [] []" "ug_step sample_keepalive (stream_done sample_keepalive 2) [] [] [3, 0]"
    "ug_step (stream_done sample_keepalive 2) (stream_done (stream_done sample_keepalive 2) 3) [] [(0, [3, 0, 1, 0, 0])] [1, 0, 0]"
    by (rule sample_keepalive_steps)
  let ?reply = "[5, 0, 5, 0, 0, 1, 9, 9, 9, 9, 8, 8] :: bytes"
  have spec: "snd (socks_spec sample_auth (BAddr_IPv4 0 0) ?reply) = Up"
    by (simp add: sample_auth_def BSocksClient_auth_none_def addr_len.simps)
  then obtain k calls where run: "socks_run False sample_auth (BAddr_IPv4 0 0) k calls ?reply" "sstate k \<noteq> STATE_CONNECTING"
    using run_prefix [OF sample_wf, of ?reply "[]"] by (metis append_Nil2 prod.collapse)
  then have k: "sstate k = STATE_UP" "alive calls"
    using run_follows_spec [OF run(1) sample_wf run(2)] spec by auto
  let ?g1 = "(sample_sg True)\<lparr>udpgw_client := c1\<rparr>"
  have r1: "sg_run (sample_sg True) [Connector_init] ?g1 ([], [Connector_init], [], [], [], [], [])"
    using sg_next [OF sg_start sg_udpgw [of "sample_sg True" c1 "[]" "[]" "[]"]] c(1) by simp
  have socks: "BSocksClient_Init True sample_auth (BAddr_IPv4 0 0) = Some (socks_client ?g1, [Connector_init])"
    by (simp add: sample_sg_def SocksUdpGwClient_Init_def sample_ug_init try_connect_def BSocksClient_Init_def Let_def del: One_nat_def)
  let ?g2 = "?g1\<lparr>socks_client := k, udpgw_client := c2, socks_up := True\<rparr>"
  have r2: "sg_run (sample_sg True) [Connector_init] ?g2 ([], calls, ?reply, [], [], [], [])"
    using socks_run_lift [OF run(1) k(2) r1 _ socks, of sample_zeros c2] c(2) k(1) by simp
  note r3 = sg_next [OF r2 sg_udpgw [of ?g2 sample_keepalive "[]" "[]" "[]"]]
  note r4 = sg_next [OF r3 sg_udpgw [of _ "stream_done sample_keepalive 2" "[]" "[]" "[3, 0]"]]
  note r5 = sg_next [OF r4 sg_udpgw [of _ "stream_done (stream_done sample_keepalive 2) 3" "[]" "[(0, [3, 0, 1, 0, 0])]" "[1, 0, 0]"]]
  show thesis
    by (rule that [of "?g2\<lparr>udpgw_client := stream_done (stream_done sample_keepalive 2) 3\<rparr>" calls]) (use r5 c(3-5) in simp_all)
qed

theorem udpgw_tunnel_witness:
  "\<exists>g calls enc0 acts0 enc. sg_run (sample_sg True) [Connector_init] g ([], calls, [5, 0, 5, 0, 0, 1, 9, 9, 9, 9, 8, 8],
      [], [], [(0, [3, 0, 1, 0, 0])], [3, 0, 1, 0, 0]) \<and>
    PacketProtoDecoder_Init (udpgw_mtu (udpgw_client g)) sample_zeros = Some (enc0, acts0) \<and>
    dec_run enc0 [3, 0, 1, 0, 0] [[1, 0, 0]] enc True \<and> sent calls = [5, 1, 0] @ [5, 1, 0, 1, 0, 0, 0, 0, 0, 0] \<and>
    (\<exists>rest. map (snd \<circ> unframe) [(0, [3, 0, 1, 0, 0])] = [[1, 0, 0]] @ rest)"
proof -
  obtain g calls where run: "sg_run (sample_sg True) [Connector_init] g ([], calls, [5, 0, 5, 0, 0, 1, 9, 9, 9, 9, 8, 8],
      [], [], [(0, [3, 0, 1, 0, 0])], [3, 0, 1, 0, 0])" and g: "udpgw_client g = stream_done (stream_done sample_keepalive 2) 3"
    by (rule sample_tunnel)
  have init: "SocksUdpGwClient_Init True undefined 4 1 1 1000 undefined (\<lambda>_. sample_qflow) BAddr_None sample_auth (BAddr_IPv4 0 0) =
      Some (sample_sg True, [Connector_init])"
    using sample_sg_init [of True] by simp
  have inv: "ug_inv (udpgw_client g) [] [] [(0, [3, 0, 1, 0, 0])] [3, 0, 1, 0, 0]"
    unfolding g by (rule ug_run_inv [OF sample_keepalive_sent init_ug_inv [OF sample_ug_init sample_ug_args]])
  have mtu: "3 \<le> udpgw_mtu (udpgw_client g)"
    using ug_inv_parts(4) [OF inv] by (simp add: ug_params_def)
  have up: "have_server (udpgw_client g)"
    using sample_keepalive_eq(2) stream_done_kept by (simp add: g kept_def)
  obtain enc0 acts0 where dec: "PacketProtoDecoder_Init (udpgw_mtu (udpgw_client g)) sample_zeros = Some (enc0, acts0)"
    by (simp add: PacketProtoDecoder_Init_def Let_def)
  obtain enc where "dec_run enc0 [3, 0, 1, 0, 0] [[1, 0, 0]] enc True"
    by (rule sample_keepalive_read [OF dec mtu])
  with udpgw_tunnel [OF init sample_ug_args sample_wf(1) run up dec _ this] dec run show ?thesis
    by (auto simp: sample_auth_def BSocksClient_auth_none_def hello_def mem32_eq mem16_eq)
qed

end
